(* ===== verification/Prelude.thy ===== *)
theory Prelude
  imports Main "HOL-Library.Word" "HOL-Library.Multiset"
begin

text \<open>
  What every theory of the development shares: the machine types of the Go source, the
  named collections of hints, lemmas on columnar tables (a table is a list of columns, a
  row is read across them), the two sorting contracts and the two binary searches of Go's
  \<open>sort\<close> and \<open>slices\<close> packages.
\<close>

unbundle bit_operations_syntax

section \<open>Machine types\<close>

text \<open>
  \<open>uint32\<close>, \<open>uint64\<close> and bytes are words. An \<open>int64\<close> is an \<open>int\<close> kept in range by
  \<open>wrap64\<close>, the reading of the low 64 bits as two's complement. A \<open>float64\<close> is kept as its
  64 bits (\<open>math.Float64bits\<close>): nothing on the write path computes with metric values.
\<close>

type_synonym byte = "8 word"
type_synonym u32 = "32 word"
type_synonym u64 = "64 word"
type_synonym i64 = int
type_synonym f64 = "64 word"

definition wrap64 :: "int \<Rightarrow> i64" where
  "wrap64 x = signed_take_bit 63 x"

definition i64_ok :: "int \<Rightarrow> bool" where
  "i64_ok x \<longleftrightarrow> - (2 ^ 63) \<le> x \<and> x < 2 ^ 63"

lemma wrap64_ok [simp, intro]: "i64_ok (wrap64 x)"
  unfolding i64_ok_def wrap64_def
  using signed_take_bit_int_less_exp [of 63 x] signed_take_bit_int_greater_eq_minus_exp [of 63 x]
  by simp

lemma wrap64_id: "i64_ok x \<Longrightarrow> wrap64 x = x"
  unfolding i64_ok_def wrap64_def by (simp add: signed_take_bit_int_eq_self)

lemma unat_of_nat_u32: "n < 2 ^ 32 \<Longrightarrow> unat (of_nat n :: u32) = n"
  by (simp add: unat_of_nat)

lemma unat_of_nat_u64: "n < 2 ^ 64 \<Longrightarrow> unat (of_nat n :: u64) = n"
  by (simp add: unat_of_nat take_bit_nat_eq_self)

lemma unat_u32_less: "unat (i :: u32) < 2 ^ 32"
  by (rule order_less_le_trans [OF unsigned_less]) simp

lemma unat_u32_u64 [simp]: "unat (ucast (i :: u32) :: u64) = unat i"
  using unat_u32_less [of i] by (simp add: unsigned_ucast_eq take_bit_nat_eq_self)

named_theorems column_simps \<open>reading rows of a columnar table after an update\<close>
named_theorems ok_dest \<open>what the well-formedness predicates say of one field\<close>

section \<open>Columnar tables\<close>

text \<open>
  A table of \<open>[column][row]\<close> slices. \<open>row_of\<close> reads one row across the columns,
  \<open>append_row\<close> is the loop \<open>cols[d] = append(cols[d], xs[d])\<close> and \<open>set_row\<close> the loop
  \<open>cols[d][r] = xs[d]\<close>.
\<close>

definition row_of :: "'a list list \<Rightarrow> nat \<Rightarrow> 'a list" where
  "row_of cols r = map (\<lambda>c. c ! r) cols"

definition append_row :: "'a list list \<Rightarrow> 'a list \<Rightarrow> 'a list list" where
  "append_row cols xs = map2 (\<lambda>c x. c @ [x]) cols xs"

definition set_row :: "'a list list \<Rightarrow> nat \<Rightarrow> 'a list \<Rightarrow> 'a list list" where
  "set_row cols r xs = map2 (\<lambda>c x. c[r := x]) cols xs"

definition cols_len :: "'a list list \<Rightarrow> nat \<Rightarrow> bool" where
  "cols_len cols n \<longleftrightarrow> (\<forall>c \<in> set cols. length c = n)"

lemma length_row_of [simp]: "length (row_of cols r) = length cols"
  by (simp add: row_of_def)

lemma row_of_nth [simp]: "d < length cols \<Longrightarrow> row_of cols r ! d = cols ! d ! r"
  by (simp add: row_of_def)

lemma length_append_row [simp]:
  "length xs = length cols \<Longrightarrow> length (append_row cols xs) = length cols"
  by (simp add: append_row_def)

lemma length_set_row [simp]:
  "length xs = length cols \<Longrightarrow> length (set_row cols r xs) = length cols"
  by (simp add: set_row_def)

lemma cols_lenD: "cols_len cols n \<Longrightarrow> d < length cols \<Longrightarrow> length (cols ! d) = n"
  by (simp add: cols_len_def)

lemma cols_len_Nils [simp]: "cols_len (replicate k []) 0"
  by (simp add: cols_len_def)

lemma cols_len_append_row [column_simps]:
  "cols_len cols n \<Longrightarrow> length xs = length cols \<Longrightarrow> cols_len (append_row cols xs) (Suc n)"
  by (auto simp: cols_len_def append_row_def set_zip)

lemma cols_len_set_row [column_simps]:
  "cols_len cols n \<Longrightarrow> length xs = length cols \<Longrightarrow> cols_len (set_row cols r xs) n"
  by (auto simp: cols_len_def set_row_def set_zip)

lemma append_row_nth [column_simps]:
  "d < length cols \<Longrightarrow> length xs = length cols \<Longrightarrow> append_row cols xs ! d = cols ! d @ [xs ! d]"
  by (simp add: append_row_def)

lemma row_of_append_row_old [column_simps]:
  assumes "cols_len cols n" "length xs = length cols" "r < n"
  shows "row_of (append_row cols xs) r = row_of cols r"
  using assms by (intro nth_equalityI) (auto simp: append_row_nth nth_append cols_lenD)

lemma row_of_append_row_new [column_simps]:
  assumes "cols_len cols n" "length xs = length cols"
  shows "row_of (append_row cols xs) n = xs"
proof (rule nth_equalityI)
  fix d assume "d < length (row_of (append_row cols xs) n)"
  with assms(2) have d: "d < length cols" by simp
  with assms(1) have "length (cols ! d) = n" by (rule cols_lenD)
  with d assms(2) show "row_of (append_row cols xs) n ! d = xs ! d"
    by (simp add: append_row_nth nth_append)
qed (use assms in simp)

lemma row_of_set_row [column_simps]:
  assumes "cols_len cols n" "length xs = length cols" "r < n"
  shows "row_of (set_row cols r xs) r' = (if r' = r then xs else row_of cols r')"
  using assms
  by (intro nth_equalityI) (auto simp: set_row_def cols_lenD nth_list_update)

section \<open>Invariants of steps\<close>

text \<open>What every step keeps, and what it does not change, holds along every run.\<close>

locale preserved =
  fixes step :: "'s \<Rightarrow> 's \<Rightarrow> bool" and inv :: "'s \<Rightarrow> bool" and frame :: "'s \<Rightarrow> 'f"
  assumes step_ok: "step s s1 \<Longrightarrow> inv s \<Longrightarrow> inv s1 \<and> frame s1 = frame s"
begin

lemma run_ok: "step\<^sup>*\<^sup>* s s1 \<Longrightarrow> inv s \<Longrightarrow> inv s1 \<and> frame s1 = frame s"
  by (induction rule: rtranclp_induct) (auto dest: step_ok)

end

section \<open>Sorting: the contract of \<open>slices.SortFunc\<close> and \<open>sort.Slice\<close>\<close>

text \<open>
  Go documents \<open>slices.SortFunc\<close> and \<open>sort.Slice\<close> as unstable: for a strict weak ordering
  the result is a permutation of the input in ascending order, and nothing is said of the
  order of equal elements. The routines are therefore parameters of the model, and the locale
  \<open>sorter\<close> is their documented contract; every lemma that rests on it holds whichever way
  ties fall. The insertion sort below, which the library itself runs on short slices, shows
  that the contract can be met.
\<close>

type_synonym 'a sort_fn = "('a \<Rightarrow> 'a \<Rightarrow> int) \<Rightarrow> 'a list \<Rightarrow> 'a list"

definition weak_order_on :: "'a set \<Rightarrow> ('a \<Rightarrow> 'a \<Rightarrow> int) \<Rightarrow> bool" where
  "weak_order_on A cmp \<longleftrightarrow>
     (\<forall>a\<in>A. \<forall>b\<in>A. cmp a b < 0 \<longleftrightarrow> cmp b a > 0) \<and>
     (\<forall>a\<in>A. \<forall>b\<in>A. \<forall>c\<in>A. cmp a b \<le> 0 \<longrightarrow> cmp b c \<le> 0 \<longrightarrow> cmp a c \<le> 0)"

lemma weak_order_total:
  "weak_order_on A cmp \<Longrightarrow> a \<in> A \<Longrightarrow> b \<in> A \<Longrightarrow> cmp a b \<le> 0 \<or> cmp b a \<le> 0"
  unfolding weak_order_on_def by (metis linorder_not_le less_le_not_le)

lemma weak_order_subset: "weak_order_on A cmp \<Longrightarrow> B \<subseteq> A \<Longrightarrow> weak_order_on B cmp"
  unfolding weak_order_on_def by (meson subsetD)

locale sorter =
  fixes srt :: "'a sort_fn"
  assumes srt_mset: "weak_order_on (set xs) cmp \<Longrightarrow> mset (srt cmp xs) = mset xs"
    and srt_sorted: "weak_order_on (set xs) cmp \<Longrightarrow> sorted_wrt (\<lambda>a b. cmp a b \<le> 0) (srt cmp xs)"
begin

lemma srt_set: "weak_order_on (set xs) cmp \<Longrightarrow> set (srt cmp xs) = set xs"
  by (metis srt_mset set_mset_mset)

lemma srt_length: "weak_order_on (set xs) cmp \<Longrightarrow> length (srt cmp xs) = length xs"
  by (metis srt_mset size_mset)

lemma srt_distinct: "weak_order_on (set xs) cmp \<Longrightarrow> distinct xs \<Longrightarrow> distinct (srt cmp xs)"
  by (metis srt_mset mset_eq_imp_distinct_iff)

end

text \<open>
  Insertion sort by swaps towards the front, \<open>for j := i; j > 0 && less(j, j-1); j--\<close>: the
  sorted prefix is held reversed, so that the element at hand meets the last one first.
\<close>

fun sift :: "('a \<Rightarrow> 'a \<Rightarrow> bool) \<Rightarrow> 'a \<Rightarrow> 'a list \<Rightarrow> 'a list" where
  "sift lt x [] = [x]"
| "sift lt x (y # ys) = (if lt x y then y # sift lt x ys else x # y # ys)"

definition insertion_sort :: "('a \<Rightarrow> 'a \<Rightarrow> bool) \<Rightarrow> 'a list \<Rightarrow> 'a list" where
  "insertion_sort lt xs = rev (fold (sift lt) xs [])"

definition insertion_sort_cmp :: "'a sort_fn" where
  "insertion_sort_cmp cmp xs = insertion_sort (\<lambda>a b. cmp a b < 0) xs"

lemma mset_sift: "mset (sift lt x ys) = add_mset x (mset ys)"
  by (induction ys) auto

lemma set_sift [simp]: "set (sift lt x ys) = insert x (set ys)"
  by (metis mset_sift set_mset_add_mset_insert set_mset_mset)

lemma mset_fold_sift: "mset (fold (sift lt) xs acc) = mset xs + mset acc"
  by (induction xs arbitrary: acc) (auto simp: mset_sift)

lemma mset_insertion_sort [simp]: "mset (insertion_sort lt xs) = mset xs"
  by (simp add: insertion_sort_def mset_fold_sift)

lemma sorted_sift:
  assumes "weak_order_on (insert x (set ys)) cmp"
    and "sorted_wrt (\<lambda>a b. cmp b a \<le> 0) ys"
  shows "sorted_wrt (\<lambda>a b. cmp b a \<le> 0) (sift (\<lambda>a b. cmp a b < 0) x ys)"
  using assms
proof (induction ys)
  case Nil
  then show ?case by simp
next
  case (Cons y ys)
  have sub: "weak_order_on (insert x (set ys)) cmp"
    using Cons.prems(1) by (rule weak_order_subset) auto
  show ?case
  proof (cases "cmp x y < 0")
    case True
    with Cons sub show ?thesis by auto
  next
    case False
    then have "cmp y x \<le> 0"
      using Cons.prems(1) unfolding weak_order_on_def by (metis insertCI linorder_not_le list.simps(15))
    moreover have "cmp z x \<le> 0" if "z \<in> set ys" for z
    proof -
      have "cmp z y \<le> 0" using Cons.prems(2) that by simp
      with \<open>cmp y x \<le> 0\<close> that Cons.prems(1) show ?thesis
        unfolding weak_order_on_def by (metis insert_iff list.simps(15))
    qed
    ultimately show ?thesis using False Cons.prems(2) by simp
  qed
qed

lemma sorted_fold_sift:
  assumes "weak_order_on (set xs \<union> set acc) cmp"
    and "sorted_wrt (\<lambda>a b. cmp b a \<le> 0) acc"
  shows "sorted_wrt (\<lambda>a b. cmp b a \<le> 0) (fold (sift (\<lambda>a b. cmp a b < 0)) xs acc)"
  using assms
proof (induction xs arbitrary: acc)
  case Nil
  then show ?case by simp
next
  case (Cons x xs)
  have "weak_order_on (insert x (set acc)) cmp"
    using Cons.prems(1) by (rule weak_order_subset) auto
  then have "sorted_wrt (\<lambda>a b. cmp b a \<le> 0) (sift (\<lambda>a b. cmp a b < 0) x acc)"
    using Cons.prems(2) by (rule sorted_sift)
  moreover have "weak_order_on (set xs \<union> set (sift (\<lambda>a b. cmp a b < 0) x acc)) cmp"
    using Cons.prems(1) by (rule weak_order_subset) auto
  ultimately show ?case using Cons.IH by simp
qed

lemma sorted_insertion_sort:
  assumes "weak_order_on (set xs) cmp"
  shows "sorted_wrt (\<lambda>a b. cmp a b \<le> 0) (insertion_sort (\<lambda>a b. cmp a b < 0) xs)"
  using sorted_fold_sift [of xs "[]" cmp] assms
  by (simp add: insertion_sort_def sorted_wrt_rev)

interpretation insertion: sorter insertion_sort_cmp
  by unfold_locales (simp_all add: insertion_sort_cmp_def sorted_insertion_sort)

section \<open>Binary search: \<open>sort.Search\<close> and \<open>slices.BinarySearch\<close>\<close>

function search_loop :: "(nat \<Rightarrow> bool) \<Rightarrow> nat \<Rightarrow> nat \<Rightarrow> nat" where
  "search_loop f i j =
     (if i < j then
        let h = (i + j) div 2 in
        if \<not> f h then search_loop f (h + 1) j else search_loop f i h
      else i)"
  by pat_completeness auto
termination
  by (relation "measure (\<lambda>(f, i, j). j - i)") (auto simp: Let_def)

declare search_loop.simps [simp del]

definition sort_search :: "nat \<Rightarrow> (nat \<Rightarrow> bool) \<Rightarrow> nat" where
  "sort_search n f = search_loop f 0 n"

lemma search_loop_spec:
  assumes "i \<le> j" "j \<le> n"
    and "\<And>k l. k \<le> l \<Longrightarrow> l < n \<Longrightarrow> f k \<Longrightarrow> f l"
    and "\<And>k. k < i \<Longrightarrow> \<not> f k" "\<And>k. j \<le> k \<Longrightarrow> k < n \<Longrightarrow> f k"
  shows "search_loop f i j \<le> j \<and> (\<forall>k < search_loop f i j. \<not> f k)
         \<and> (\<forall>k. search_loop f i j \<le> k \<and> k < n \<longrightarrow> f k)"
  using assms
proof (induction f i j rule: search_loop.induct)
  case (1 f i j)
  note up = "1.prems"(3) and below = "1.prems"(4) and above = "1.prems"(5)
  show ?case
  proof (cases "i < j")
    case False
    with "1.prems"(1) have "i = j" by simp
    with below above show ?thesis by (simp add: search_loop.simps [of f j j])
  next
    case True
    define h where "h = (i + j) div 2"
    have h: "i \<le> h" "h < j" using True by (auto simp: h_def)
    show ?thesis
    proof (cases "f h")
      case True
      have above': "f k" if "h \<le> k" "k < n" for k using up [OF that True] .
      from "1.IH"(2) [OF \<open>i < j\<close> h_def] True h "1.prems"(2) up below above'
      have "search_loop f i h \<le> h \<and> (\<forall>k < search_loop f i h. \<not> f k)
         \<and> (\<forall>k. search_loop f i h \<le> k \<and> k < n \<longrightarrow> f k)" by simp
      then show ?thesis
        using True \<open>i < j\<close> h by (simp add: search_loop.simps [of f i j] h_def [symmetric])
    next
      case False
      have below': "\<not> f k" if "k < h + 1" for k
      proof
        assume "f k"
        with up [of k h] that h "1.prems"(2) have "f h" by simp
        with False show False by simp
      qed
      from "1.IH"(1) [OF \<open>i < j\<close> h_def] False h "1.prems"(2) up below' above
      have "search_loop f (h + 1) j \<le> j \<and> (\<forall>k < search_loop f (h + 1) j. \<not> f k)
         \<and> (\<forall>k. search_loop f (h + 1) j \<le> k \<and> k < n \<longrightarrow> f k)" by simp
      then show ?thesis
        using False \<open>i < j\<close> by (simp add: search_loop.simps [of f i j] h_def [symmetric])
    qed
  qed
qed

text \<open>On a predicate that stays true once it is, the search returns the boundary.\<close>

lemma sort_search_iff:
  assumes "\<And>k l. k \<le> l \<Longrightarrow> l < n \<Longrightarrow> f k \<Longrightarrow> f l" and "k < n"
  shows "sort_search n f \<le> k \<longleftrightarrow> f k"
proof -
  have *: "\<forall>k < search_loop f 0 n. \<not> f k" "\<forall>k. search_loop f 0 n \<le> k \<and> k < n \<longrightarrow> f k"
    using search_loop_spec [of 0 n n f] assms(1) by auto
  show ?thesis
  proof (cases "search_loop f 0 n \<le> k")
    case True
    with *(2) assms(2) show ?thesis by (simp add: sort_search_def)
  next
    case False
    with *(1) show ?thesis by (simp add: sort_search_def)
  qed
qed

lemma sort_search_le:
  assumes "\<And>k l. k \<le> l \<Longrightarrow> l < n \<Longrightarrow> f k \<Longrightarrow> f l"
  shows "sort_search n f \<le> n"
  using search_loop_spec [of 0 n n f] assms unfolding sort_search_def by auto

definition binary_search :: "'a::linorder list \<Rightarrow> 'a \<Rightarrow> nat \<times> bool" where
  "binary_search xs x =
     (let i = search_loop (\<lambda>h. \<not> xs ! h < x) 0 (length xs)
      in (i, i < length xs \<and> xs ! i = x))"

lemma binary_search_pos:
  assumes "sorted xs" "k < length xs"
  shows "fst (binary_search xs x) \<le> k \<longleftrightarrow> x \<le> xs ! k"
proof -
  have "sort_search (length xs) (\<lambda>h. \<not> xs ! h < x) \<le> k \<longleftrightarrow> \<not> xs ! k < x"
    using assms by (intro sort_search_iff) (auto dest: sorted_nth_mono [OF assms(1)])
  then show ?thesis
    by (simp add: binary_search_def sort_search_def Let_def linorder_not_less)
qed

lemma binary_search_le:
  assumes "sorted xs"
  shows "fst (binary_search xs x) \<le> length xs"
proof -
  have "sort_search (length xs) (\<lambda>h. \<not> xs ! h < x) \<le> length xs"
    by (rule sort_search_le) (auto dest: sorted_nth_mono [OF assms])
  then show ?thesis by (simp add: binary_search_def sort_search_def Let_def)
qed

lemma binary_search_found:
  assumes "sorted xs"
  shows "snd (binary_search xs x) \<longleftrightarrow> x \<in> set xs"
proof
  assume "snd (binary_search xs x)"
  then have "xs ! fst (binary_search xs x) = x" "fst (binary_search xs x) < length xs"
    by (simp_all add: binary_search_def Let_def)
  then show "x \<in> set xs" by (metis nth_mem)
next
  assume "x \<in> set xs"
  then obtain k where k: "k < length xs" "xs ! k = x" by (auto simp: in_set_conv_nth)
  let ?i = "fst (binary_search xs x)"
  have "?i \<le> k" using binary_search_pos [OF assms k(1)] k(2) by simp
  then have "?i < length xs" using k(1) by simp
  moreover have "x \<le> xs ! ?i" using binary_search_pos [OF assms \<open>?i < length xs\<close>, of x] by simp
  moreover have "xs ! ?i \<le> x" using sorted_nth_mono [OF assms \<open>?i \<le> k\<close>] k by simp
  ultimately show "snd (binary_search xs x)" by (simp add: binary_search_def Let_def)
qed

end
