(* ===== verification/Golib.thy ===== *)
theory Golib
  imports Prelude
begin

text \<open>
  What the source uses of Go's standard library besides sorting: \<open>strconv.ParseInt\<close> and
  \<open>strconv.FormatInt\<close> in base 10, \<open>time.Time\<close>, little-endian byte encodings
  (\<open>encoding/binary\<close>) and the FNV-1a hash (\<open>hash/fnv\<close>).
\<close>

section \<open>Decimal integers (\<open>strconv\<close>)\<close>

definition digit_val :: "char \<Rightarrow> int option" where
  "digit_val c = (let n = of_char c in if 48 \<le> n \<and> n \<le> 57 then Some (n - 48) else None)"

fun parse_digits :: "string \<Rightarrow> int \<Rightarrow> int option" where
  "parse_digits [] acc = Some acc"
| "parse_digits (c # cs) acc =
     (case digit_val c of None \<Rightarrow> None | Some d \<Rightarrow> parse_digits cs (acc * 10 + d))"

text \<open>
  \<open>ParseInt(s, 10, 64)\<close>: an optional sign, then one or more digits, within the range of
  \<open>int64\<close>. \<open>None\<close> stands for either error (\<open>ErrSyntax\<close>, \<open>ErrRange\<close>): the callers
  test \<open>err != nil\<close> only.
\<close>

definition parse_int :: "string \<Rightarrow> i64 option" where
  "parse_int s =
     (let neg = (s \<noteq> [] \<and> hd s = CHR ''-'');
          t = (if s \<noteq> [] \<and> (hd s = CHR ''+'' \<or> hd s = CHR ''-'') then tl s else s)
      in if t = [] then None
         else case parse_digits t 0 of None \<Rightarrow> None
         | Some un \<Rightarrow>
             if \<not> neg \<and> un \<ge> 2 ^ 63 then None
             else if neg \<and> un > 2 ^ 63 then None
             else Some (if neg then - un else un))"

definition digit_char :: "int \<Rightarrow> char" where
  "digit_char d = char_of (48 + d)"

function format_uint :: "int \<Rightarrow> string" where
  "format_uint n = (if n < 10 then [digit_char n] else format_uint (n div 10) @ [digit_char (n mod 10)])"
  by pat_completeness auto
termination
proof (relation "measure nat")
  fix n :: int
  assume "\<not> n < 10"
  then have "n div 10 < n" "0 < n" by (simp_all add: int_div_less_self)
  then show "(n div 10, n) \<in> measure nat" by simp
qed simp

declare format_uint.simps [simp del]

definition format_int :: "i64 \<Rightarrow> string" where
  "format_int v = (if v < 0 then CHR ''-'' # format_uint (- v) else format_uint v)"

lemma of_char_digit [simp]: "0 \<le> d \<Longrightarrow> d < 10 \<Longrightarrow> of_char (digit_char d) = 48 + d"
  by (simp add: digit_char_def of_char_of)

lemma digit_val_char [simp]: "0 \<le> d \<Longrightarrow> d < 10 \<Longrightarrow> digit_val (digit_char d) = Some d"
  by (simp add: digit_val_def)

lemma parse_digits_append:
  "parse_digits (xs @ ys) acc =
     (case parse_digits xs acc of None \<Rightarrow> None | Some v \<Rightarrow> parse_digits ys v)"
  by (induction xs arbitrary: acc) (auto split: option.splits)

lemma parse_digits_format:
  "0 \<le> n \<Longrightarrow> parse_digits (format_uint n) 0 = Some n"
proof (induction n rule: format_uint.induct)
  case (1 n)
  show ?case
  proof (cases "n < 10")
    case True
    with 1 show ?thesis by (simp add: format_uint.simps [of n])
  next
    case False
    with 1 have "parse_digits (format_uint (n div 10)) 0 = Some (n div 10)" by simp
    with False show ?thesis by (simp add: format_uint.simps [of n] parse_digits_append)
  qed
qed

lemma parse_digits_ge0: "parse_digits s acc = Some v \<Longrightarrow> 0 \<le> acc \<Longrightarrow> 0 \<le> v"
  by (induction s arbitrary: acc) (auto simp: digit_val_def Let_def split: option.splits if_splits)

lemma parse_int_ok: "parse_int s = Some v \<Longrightarrow> i64_ok v"
  by (auto simp: parse_int_def i64_ok_def Let_def split: option.splits if_splits
      dest: parse_digits_ge0)

lemma format_uint_hd:
  "0 \<le> n \<Longrightarrow> \<exists>d s. 0 \<le> d \<and> d < 10 \<and> format_uint n = digit_char d # s"
proof (induction n rule: format_uint.induct)
  case (1 n)
  show ?case
  proof (cases "n < 10")
    case True
    with 1 show ?thesis by (auto simp: format_uint.simps [of n])
  next
    case False
    with 1 have "\<exists>d s. 0 \<le> d \<and> d < 10 \<and> format_uint (n div 10) = digit_char d # s" by simp
    with False show ?thesis by (auto simp: format_uint.simps [of n])
  qed
qed

lemma digit_char_sign: "0 \<le> d \<Longrightarrow> d < 10 \<Longrightarrow> digit_char d \<noteq> CHR ''+'' \<and> digit_char d \<noteq> CHR ''-''"
  using of_char_digit [of d] by (auto dest: arg_cong [where f = "of_char :: char \<Rightarrow> int"])

lemma parse_format_int: "i64_ok v \<Longrightarrow> parse_int (format_int v) = Some v"
proof -
  assume ok: "i64_ok v"
  obtain d s where ds: "0 \<le> d" "d < 10" "format_uint \<bar>v\<bar> = digit_char d # s"
    using format_uint_hd [of "\<bar>v\<bar>"] by auto
  have "parse_digits (format_uint \<bar>v\<bar>) 0 = Some \<bar>v\<bar>" by (rule parse_digits_format) simp
  with ds ok digit_char_sign [OF ds(1,2)] show ?thesis
    by (auto simp: format_int_def parse_int_def i64_ok_def abs_if split: if_splits)
qed

section \<open>Instants (\<open>time.Time\<close>)\<close>

text \<open>
  A \<open>time.Time\<close> is the number of nanoseconds since its zero value, January 1 of year 1 UTC;
  a \<open>time.Duration\<close> is a number of nanoseconds. \<open>UnixMilli\<close> floors to milliseconds since
  the Unix epoch, in an \<open>int64\<close>.
\<close>

type_synonym instant = int
type_synonym duration = int

definition unix_epoch :: instant where
  "unix_epoch = 62135596800000000000"

definition is_zero :: "instant \<Rightarrow> bool" where
  "is_zero t \<longleftrightarrow> t = 0"

definition unix_milli :: "instant \<Rightarrow> i64" where
  "unix_milli t = wrap64 ((t - unix_epoch) div 1000000)"

definition milliseconds :: "duration \<Rightarrow> i64" where
  "milliseconds d = (if 0 \<le> d then d div 1000000 else - ((- d) div 1000000))"

lemma unix_milli_ok [simp, intro]: "i64_ok (unix_milli t)"
  by (simp add: unix_milli_def)

section \<open>Little-endian bytes (\<open>encoding/binary\<close>)\<close>

definition le32 :: "u32 \<Rightarrow> byte list" where
  "le32 w = [ucast w, ucast (drop_bit 8 w), ucast (drop_bit 16 w), ucast (drop_bit 24 w)]"

definition le64 :: "u64 \<Rightarrow> byte list" where
  "le64 w = le32 (ucast w) @ le32 (ucast (drop_bit 32 w))"

definition un_le32 :: "byte list \<Rightarrow> u32" where
  "un_le32 bs = ucast (bs ! 0) OR push_bit 8 (ucast (bs ! 1))
     OR push_bit 16 (ucast (bs ! 2)) OR push_bit 24 (ucast (bs ! 3))"

definition un_le64 :: "byte list \<Rightarrow> u64" where
  "un_le64 bs = ucast (un_le32 (take 4 bs)) OR push_bit 32 (ucast (un_le32 (drop 4 bs)))"

lemma length_le32 [simp]: "length (le32 w) = 4"
  by (simp add: le32_def)

lemma length_le64 [simp]: "length (le64 w) = 8"
  by (simp add: le64_def)

lemma un_le32_le32 [simp]: "un_le32 (le32 w) = w"
proof (rule bit_word_eqI)
  fix n :: nat
  assume n: "n < LENGTH(32)"
  consider "n < 8" | "8 \<le> n" "n < 16" | "16 \<le> n" "n < 24" | "24 \<le> n" by linarith
  then show "bit (un_le32 (le32 w)) n \<longleftrightarrow> bit w n"
    using n by cases
      (auto simp: un_le32_def le32_def bit_or_iff bit_push_bit_iff bit_ucast_iff bit_drop_bit_eq)
qed

lemma un_le64_le64 [simp]: "un_le64 (le64 w) = w"
  by (rule bit_word_eqI)
     (auto simp: un_le64_def le64_def bit_or_iff bit_push_bit_iff bit_ucast_iff bit_drop_bit_eq)

lemma le32_inject [simp]: "le32 a = le32 b \<longleftrightarrow> a = b"
  by (metis un_le32_le32)

section \<open>The FNV-1a hash (\<open>hash/fnv\<close>)\<close>

definition fnv_step :: "byte \<Rightarrow> u64 \<Rightarrow> u64" where
  "fnv_step b h = (h XOR ucast b) * 1099511628211"

definition fnv64a :: "byte list \<Rightarrow> u64" where
  "fnv64a bs = fold fnv_step bs 14695981039346656037"

definition bytes_of :: "string \<Rightarrow> byte list" where
  "bytes_of s = map (\<lambda>c. word_of_int (of_char c)) s"

definition string_of :: "byte list \<Rightarrow> string" where
  "string_of bs = map (\<lambda>b. char_of (uint b)) bs"

lemma length_bytes_of [simp]: "length (bytes_of s) = length s"
  by (simp add: bytes_of_def)

lemma string_of_bytes_of [simp]: "string_of (bytes_of s) = s"
  by (induction s) (auto simp: string_of_def bytes_of_def uint_word_of_int)

lemma bytes_of_inject [simp]: "bytes_of s = bytes_of t \<longleftrightarrow> s = t"
  by (metis string_of_bytes_of)

end
