(* ===== verification/Schema.thy ===== *)
theory Schema
  imports Golib
begin

text \<open>
  \<open>schema.go\<close>: the table shape, its validation and fingerprint, the records of the source
  of truth, the store configuration, and the errors that every component returns.
\<close>

section \<open>Errors\<close>

text \<open>
  One constructor per error value of the source, carrying what its message prints.
  \<open>Panic\<close> is a run-time panic (a reslice beyond a capacity).
\<close>

datatype err =
    ErrRowLimit nat int
  | ErrKeyOverflow
  | ErrScanBudget
  | ErrDimCount nat
  | ErrIndexDims nat int
  | ErrNoMetric
  | ErrDimName string
  | ErrDimType string byte
  | ErrMetricName string
  | ErrArity nat
  | ErrRecNonInteger nat string string
  | ErrUnknownDim string
  | ErrNotDimInt string
  | ErrNonInteger string string
  | ErrBadGroupCount
  | ErrCondValueAndIn
  | ErrCondRangeConflict
  | ErrBadAggCount
  | ErrAggOp byte
  | ErrDistinctMetric string
  | ErrAggDim string
  | ErrCountMetric string
  | ErrUnknownMetric string
  | ErrNilResult
  | ErrBadByDims
  | ErrDuplicateBy string
  | ErrSnapshotFormat
  | ErrSnapshotStale
  | ErrIO
  | Panic

section \<open>Schema, records and configuration\<close>

type_synonym dim_type = byte

definition DimString :: dim_type where "DimString = 0"
definition DimInt :: dim_type where "DimInt = 1"

definition maxDims :: nat where "maxDims = 16"

record dim =
  dimName :: string
  dimType :: dim_type

record schema =
  Dims :: "dim list"
  IndexDims :: int
  Metrics :: "string list"

record rec =
  rDims :: "string list"
  rMetrics :: "f64 list"
  UpdatedAt :: instant
  ExpireAt :: instant

record config =
  TTL :: duration
  MaxRows :: int
  MaxScanRows :: int
  DictCompactInterval :: duration

abbreviation ndims :: "schema \<Rightarrow> nat" where
  "ndims sc \<equiv> length (Dims sc)"

abbreviation nmets :: "schema \<Rightarrow> nat" where
  "nmets sc \<equiv> length (Metrics sc)"

definition idx_dims :: "schema \<Rightarrow> nat" where
  "idx_dims sc = nat (IndexDims sc)"

definition isInt :: "schema \<Rightarrow> nat \<Rightarrow> bool" where
  "isInt sc i \<longleftrightarrow> dimType (Dims sc ! i) = DimInt"

text \<open>\<open>dimIndex\<close> returns the first dimension of that name; \<open>None\<close> is its \<open>-1\<close>.\<close>

fun dim_index_from :: "nat \<Rightarrow> dim list \<Rightarrow> string \<Rightarrow> nat option" where
  "dim_index_from i [] name = None"
| "dim_index_from i (d # ds) name = (if dimName d = name then Some i else dim_index_from (Suc i) ds name)"

definition dimIndex :: "schema \<Rightarrow> string \<Rightarrow> nat option" where
  "dimIndex sc name = dim_index_from 0 (Dims sc) name"

section \<open>Validation\<close>

fun validate_dims :: "dim list \<Rightarrow> string set \<Rightarrow> err option" where
  "validate_dims [] seen = None"
| "validate_dims (d # ds) seen =
     (if dimName d = [] \<or> dimName d \<in> seen then Some (ErrDimName (dimName d))
      else if dimType d > DimInt then Some (ErrDimType (dimName d) (dimType d))
      else validate_dims ds (insert (dimName d) seen))"

fun validate_metrics :: "string list \<Rightarrow> string set \<Rightarrow> err option" where
  "validate_metrics [] seen = None"
| "validate_metrics (m # ms) seen =
     (if m = [] \<or> m \<in> seen then Some (ErrMetricName m)
      else validate_metrics ms (insert m seen))"

definition validate :: "schema \<Rightarrow> err option" where
  "validate sc =
     (if Dims sc = [] \<or> ndims sc > maxDims then Some (ErrDimCount (ndims sc))
      else if IndexDims sc < 1 \<or> IndexDims sc > int (ndims sc) then
        Some (ErrIndexDims (ndims sc) (IndexDims sc))
      else if Metrics sc = [] then Some ErrNoMetric
      else case validate_dims (Dims sc) {} of
        Some e \<Rightarrow> Some e
      | None \<Rightarrow> validate_metrics (Metrics sc) {})"

text \<open>What a validated schema guarantees.\<close>

definition schema_ok :: "schema \<Rightarrow> bool" where
  "schema_ok sc \<longleftrightarrow>
     0 < ndims sc \<and> ndims sc \<le> 16 \<and>
     1 \<le> IndexDims sc \<and> IndexDims sc \<le> int (ndims sc) \<and>
     Metrics sc \<noteq> [] \<and>
     distinct (map dimName (Dims sc)) \<and> [] \<notin> set (map dimName (Dims sc)) \<and>
     (\<forall>d \<in> set (Dims sc). dimType d = DimString \<or> dimType d = DimInt) \<and>
     distinct (Metrics sc) \<and> [] \<notin> set (Metrics sc)"

lemma dim_type_le: "t > DimInt \<longleftrightarrow> \<not> (t = DimString \<or> t = DimInt)"
proof -
  have "t = 0 \<longleftrightarrow> unat t = 0" "t = 1 \<longleftrightarrow> unat t = 1" by (simp_all add: word_unat_eq_iff)
  then show ?thesis
    unfolding DimInt_def DimString_def word_less_nat_alt by auto
qed

lemma validate_dims_None:
  "validate_dims ds seen = None \<longleftrightarrow>
     distinct (map dimName ds) \<and> [] \<notin> set (map dimName ds) \<and> set (map dimName ds) \<inter> seen = {} \<and>
     (\<forall>d \<in> set ds. dimType d = DimString \<or> dimType d = DimInt)"
  by (induction ds arbitrary: seen) (auto simp: dim_type_le)

lemma validate_metrics_None:
  "validate_metrics ms seen = None \<longleftrightarrow> distinct ms \<and> [] \<notin> set ms \<and> set ms \<inter> seen = {}"
  by (induction ms arbitrary: seen) auto

lemma validate_None: "validate sc = None \<longleftrightarrow> schema_ok sc"
  using validate_dims_None [of "Dims sc" "{}"]
  unfolding validate_def schema_ok_def maxDims_def
  by (auto simp: validate_metrics_None split: option.splits)

lemma schema_okD [ok_dest]:
  assumes "schema_ok sc"
  shows "0 < ndims sc" "ndims sc \<le> 16" "0 < idx_dims sc" "idx_dims sc \<le> ndims sc"
  using assms by (auto simp: schema_ok_def idx_dims_def)

lemma dim_index_from_Some:
  "dim_index_from i ds name = Some j \<Longrightarrow> i \<le> j \<and> j < i + length ds \<and> dimName (ds ! (j - i)) = name"
proof (induction ds arbitrary: i)
  case Nil
  then show ?case by simp
next
  case (Cons d ds)
  then show ?case by (fastforce split: if_splits simp: nth_Cons')
qed

lemma dim_index_from_None: "dim_index_from i ds name = None \<longleftrightarrow> name \<notin> set (map dimName ds)"
  by (induction ds arbitrary: i) auto

lemma dimIndex_Some: "dimIndex sc name = Some j \<Longrightarrow> j < ndims sc \<and> dimName (Dims sc ! j) = name"
  by (auto simp: dimIndex_def dest: dim_index_from_Some)

lemma dimIndex_None: "dimIndex sc name = None \<longleftrightarrow> name \<notin> set (map dimName (Dims sc))"
  by (simp add: dimIndex_def dim_index_from_None)

section \<open>Fingerprint\<close>

definition fingerprint_bytes :: "schema \<Rightarrow> byte list" where
  "fingerprint_bytes sc =
     le64 (word_of_int (IndexDims sc))
     @ concat (map (\<lambda>d. bytes_of (dimName d) @ [0]) (Dims sc))
     @ [1]
     @ concat (map (\<lambda>m. bytes_of m @ [0]) (Metrics sc))"

definition fingerprint :: "schema \<Rightarrow> u64" where
  "fingerprint sc = fnv64a (fingerprint_bytes sc)"

end
