(* ===== verification/Dict.thy ===== *)
theory Dict
  imports Schema
begin

text \<open>
  \<open>dict.go\<close>: the dictionary of one dimension, from values to dense ids and back. A string
  dictionary keys by spelling, an integer one by the \<open>int64\<close> value. The locale \<open>interning\<close>
  is the interface the rest of the library relies on: looking up a value after interning it.
\<close>

section \<open>State and operations\<close>

record dict =
  numeric :: bool
  ids :: "string \<rightharpoonup> u32"
  strs :: "string list"
  idsN :: "i64 \<rightharpoonup> u32"
  vals :: "i64 list"

definition newDict :: "bool \<Rightarrow> dict" where
  "newDict isnum = \<lparr>numeric = isnum, ids = Map.empty, strs = [], idsN = Map.empty, vals = []\<rparr>"

definition getOrAdd :: "dict \<Rightarrow> string \<Rightarrow> u32 \<times> dict" where
  "getOrAdd d s =
     (case ids d s of
        Some i \<Rightarrow> (i, d)
      | None \<Rightarrow>
          let i = of_nat (length (strs d))
          in (i, d\<lparr>ids := (ids d)(s \<mapsto> i), strs := strs d @ [s]\<rparr>))"

definition getOrAddN :: "dict \<Rightarrow> i64 \<Rightarrow> u32 \<times> dict" where
  "getOrAddN d v =
     (case idsN d v of
        Some i \<Rightarrow> (i, d)
      | None \<Rightarrow>
          let i = of_nat (length (vals d))
          in (i, d\<lparr>idsN := (idsN d)(v \<mapsto> i), vals := vals d @ [v]\<rparr>))"

definition addFrom :: "dict \<Rightarrow> dict \<Rightarrow> u32 \<Rightarrow> u32 \<times> dict" where
  "addFrom d src i =
     (if numeric d then getOrAddN d (vals src ! unat i) else getOrAdd d (strs src ! unat i))"

definition lookup :: "dict \<Rightarrow> string \<Rightarrow> u32 option" where
  "lookup d s = ids d s"

definition lookupN :: "dict \<Rightarrow> i64 \<Rightarrow> u32 option" where
  "lookupN d v = idsN d v"

definition dict_str :: "dict \<Rightarrow> u32 \<Rightarrow> string" where
  "dict_str d i = (if numeric d then format_int (vals d ! unat i) else strs d ! unat i)"

definition dlen :: "dict \<Rightarrow> nat" where
  "dlen d = (if numeric d then length (vals d) else length (strs d))"

definition dict_clone :: "dict \<Rightarrow> dict" where
  "dict_clone d = \<lparr>numeric = numeric d, ids = ids d, strs = strs d, idsN = idsN d, vals = vals d\<rparr>"

section \<open>Values, whatever the variant\<close>

text \<open>
  The identity of a dimension value: its spelling on a string dimension, the integer on an
  integer one. \<open>canon\<close> is the value a spelling denotes in a dimension, \<open>None\<close> where the
  write and query paths reject it.
\<close>

datatype dval = VStr string | VInt i64

definition canon :: "bool \<Rightarrow> string \<Rightarrow> dval option" where
  "canon isnum s = (if isnum then map_option VInt (parse_int s) else Some (VStr s))"

definition dict_vals :: "dict \<Rightarrow> dval list" where
  "dict_vals d = (if numeric d then map VInt (vals d) else map VStr (strs d))"

definition dict_find :: "dict \<Rightarrow> dval \<Rightarrow> u32 option" where
  "dict_find d x = (case x of
     VInt v \<Rightarrow> if numeric d then lookupN d v else None
   | VStr s \<Rightarrow> if numeric d then None else lookup d s)"

definition dict_add :: "dict \<Rightarrow> dval \<Rightarrow> u32 \<times> dict" where
  "dict_add d x = (case x of VInt v \<Rightarrow> getOrAddN d v | VStr s \<Rightarrow> getOrAdd d s)"

fun val_fits :: "bool \<Rightarrow> dval \<Rightarrow> bool" where
  "val_fits isnum (VInt v) = (isnum \<and> i64_ok v)"
| "val_fits isnum (VStr s) = (\<not> isnum)"

lemma canon_fits: "canon isnum s = Some x \<Longrightarrow> val_fits isnum x"
  by (auto simp: canon_def split: if_splits dest: parse_int_ok)

lemma length_dict_vals [simp]: "length (dict_vals d) = dlen d"
  by (simp add: dict_vals_def dlen_def)

lemma dict_clone_id [simp]: "dict_clone d = d"
  by (simp add: dict_clone_def)

section \<open>Invariant\<close>

text \<open>
  The map and the slice are inverse to each other: the id of a value is its position. The
  length bound is what keeps \<open>uint32(len(d.strs))\<close> from wrapping round.
\<close>

definition dict_ok :: "dict \<Rightarrow> bool" where
  "dict_ok d \<longleftrightarrow>
     dlen d \<le> 2 ^ 32 \<and>
     (\<forall>x \<in> set (dict_vals d). val_fits (numeric d) x) \<and>
     (\<forall>x i. dict_find d x = Some i \<longleftrightarrow> unat i < dlen d \<and> dict_vals d ! unat i = x) \<and>
     (if numeric d then ids d = Map.empty \<and> strs d = [] else idsN d = Map.empty \<and> vals d = [])"

lemma dict_okD [ok_dest]:
  assumes "dict_ok d"
  shows "dlen d \<le> 2 ^ 32"
    and "\<And>x i. dict_find d x = Some i \<longleftrightarrow> unat i < dlen d \<and> dict_vals d ! unat i = x"
    and "\<And>x. x \<in> set (dict_vals d) \<Longrightarrow> val_fits (numeric d) x"
  using assms by (auto simp: dict_ok_def)

lemma newDict_simps [simp]:
  "dlen (newDict b) = 0" "dict_vals (newDict b) = []" "numeric (newDict b) = b"
  by (auto simp: newDict_def dlen_def dict_vals_def)

lemma dict_ok_new [simp, intro]: "dict_ok (newDict b)"
  by (auto simp: dict_ok_def dict_find_def newDict_def dlen_def lookup_def lookupN_def
      dict_vals_def split: dval.splits)

lemma dict_distinct: "dict_ok d \<Longrightarrow> distinct (dict_vals d)"
proof (unfold distinct_conv_nth, intro allI impI)
  fix i j assume d: "dict_ok d" and ij: "i < length (dict_vals d)" "j < length (dict_vals d)" "i \<noteq> j"
  let ?w = "\<lambda>i. of_nat i :: u32"
  have u: "unat (?w i) = i" "unat (?w j) = j"
    using ij dict_okD(1) [OF d] by (auto intro!: unat_of_nat_u32)
  show "dict_vals d ! i \<noteq> dict_vals d ! j"
  proof
    assume "dict_vals d ! i = dict_vals d ! j"
    then have "dict_find d (dict_vals d ! i) = Some (?w i)"
      and "dict_find d (dict_vals d ! i) = Some (?w j)"
      using ij u by (simp_all add: dict_okD(2) [OF d])
    then have "?w i = ?w j" by simp
    with u ij(3) show False by metis
  qed
qed

lemma dict_find_None: "dict_ok d \<Longrightarrow> dict_find d x = None \<longleftrightarrow> x \<notin> set (dict_vals d)"
proof -
  assume d: "dict_ok d"
  have "x \<in> set (dict_vals d) \<longleftrightarrow> (\<exists>i. dict_find d x = Some i)"
  proof
    assume "x \<in> set (dict_vals d)"
    then obtain i where i: "i < dlen d" "dict_vals d ! i = x" by (auto simp: in_set_conv_nth)
    then have "unat (of_nat i :: u32) = i"
      using dict_okD(1) [OF d] by (auto intro!: unat_of_nat_u32)
    with i show "\<exists>i. dict_find d x = Some i" by (metis dict_okD(2) [OF d])
  next
    assume "\<exists>i. dict_find d x = Some i"
    then show "x \<in> set (dict_vals d)"
      by (auto simp: dict_okD(2) [OF d] in_set_conv_nth)
  qed
  then show ?thesis by (cases "dict_find d x") auto
qed

lemma dict_add_found:
  "dict_find d x = Some i \<Longrightarrow> dict_add d x = (i, d)"
  by (auto simp: dict_find_def dict_add_def getOrAdd_def getOrAddN_def lookup_def lookupN_def
      split: dval.splits if_splits)

lemma dict_find_simps [simp]:
  "dict_find d (VInt v) = (if numeric d then idsN d v else None)"
  "dict_find d (VStr s) = (if numeric d then None else ids d s)"
  by (simp_all add: dict_find_def lookup_def lookupN_def)

lemma dict_add_new_cases:
  assumes "dict_find d x = None" "val_fits (numeric d) x"
  shows "(\<exists>v. x = VInt v \<and> numeric d \<and>
      dict_add d x = (of_nat (length (vals d)),
        d\<lparr>idsN := (idsN d)(v \<mapsto> of_nat (length (vals d))), vals := vals d @ [v]\<rparr>)) \<or>
    (\<exists>s. x = VStr s \<and> \<not> numeric d \<and>
      dict_add d x = (of_nat (length (strs d)),
        d\<lparr>ids := (ids d)(s \<mapsto> of_nat (length (strs d))), strs := strs d @ [s]\<rparr>))"
  using assms by (cases x) (auto simp: dict_add_def getOrAdd_def getOrAddN_def Let_def)

lemma dict_add_new:
  assumes "dict_find d x = None" "val_fits (numeric d) x"
  shows "fst (dict_add d x) = of_nat (dlen d)"
    and "dict_vals (snd (dict_add d x)) = dict_vals d @ [x]"
    and "numeric (snd (dict_add d x)) = numeric d"
    and "dlen (snd (dict_add d x)) = Suc (dlen d)"
    and "dict_find (snd (dict_add d x)) y = (if y = x then Some (of_nat (dlen d)) else dict_find d y)"
  using dict_add_new_cases [OF assms]
  by (auto simp: dict_vals_def dlen_def) (cases y; simp)+

lemma dict_add_len: "dlen d \<le> dlen (snd (dict_add d x))"
  by (auto simp: dict_add_def getOrAdd_def getOrAddN_def dlen_def Let_def
      split: dval.splits option.splits)

lemma dict_add_other:
  assumes "dict_find d x = None" "val_fits (numeric d) x"
  shows "numeric d \<Longrightarrow> ids (snd (dict_add d x)) = ids d \<and> strs (snd (dict_add d x)) = strs d"
    and "\<not> numeric d \<Longrightarrow> idsN (snd (dict_add d x)) = idsN d \<and> vals (snd (dict_add d x)) = vals d"
  using dict_add_new_cases [OF assms] by auto

lemma dict_ok_add_new:
  assumes d: "dict_ok d" and x: "dict_find d x = None" "val_fits (numeric d) x"
    and len: "dlen d < 2 ^ 32"
  shows "dict_ok (snd (dict_add d x))"
proof -
  note new = dict_add_new [OF x]
  have u: "unat (of_nat (dlen d) :: u32) = dlen d" using len by (rule unat_of_nat_u32)
  have inv: "dict_find (snd (dict_add d x)) y = Some i \<longleftrightarrow>
      unat i < dlen (snd (dict_add d x)) \<and> dict_vals (snd (dict_add d x)) ! unat i = y" for y i
  proof (cases "unat i = dlen d")
    case True
    then have "i = of_nat (dlen d)" by (metis u word_unat_eq_iff)
    then show ?thesis
      using True u by (auto simp: new nth_append dict_okD(2) [OF d])
  next
    case False
    then have "i \<noteq> of_nat (dlen d)" using u by auto
    moreover have "dict_find d x \<noteq> Some i" using x(1) by simp
    ultimately show ?thesis
      using False by (auto simp: new nth_append dict_okD(2) [OF d] less_Suc_eq)
  qed
  have other: "if numeric d then ids d = Map.empty \<and> strs d = [] else idsN d = Map.empty \<and> vals d = []"
    using d by (simp add: dict_ok_def)
  show ?thesis
    using inv len x(2) dict_okD(3) [OF d] dict_add_other [OF x] other
    by (auto simp: dict_ok_def new)
qed

text \<open>Interning, found or not: the value is at the returned id, every old id keeps its value.\<close>

lemma dict_add_spec:
  assumes d: "dict_ok d" and fits: "val_fits (numeric d) x" and len: "dlen d < 2 ^ 32"
    and add: "dict_add d x = (i, d')"
  shows "dict_ok d'" "numeric d' = numeric d" "dict_find d' x = Some i"
    and "dict_vals d' = dict_vals d \<or> dict_vals d' = dict_vals d @ [x]"
    and "\<And>y. y \<noteq> x \<Longrightarrow> dict_find d' y = dict_find d y"
    and "unat i < dlen d'" "dict_vals d' ! unat i = x"
proof -
  have "dict_ok d' \<and> numeric d' = numeric d \<and> dict_find d' x = Some i \<and>
    (dict_vals d' = dict_vals d \<or> dict_vals d' = dict_vals d @ [x]) \<and>
    (\<forall>y. y \<noteq> x \<longrightarrow> dict_find d' y = dict_find d y)"
  proof (cases "dict_find d x")
    case None
    with dict_ok_add_new [OF d None fits len] dict_add_new [OF None fits] add
    show ?thesis by simp
  next
    case (Some i)
    with dict_add_found [OF Some] add d show ?thesis by simp
  qed
  then show "dict_ok d'" "numeric d' = numeric d" "dict_find d' x = Some i"
    "dict_vals d' = dict_vals d \<or> dict_vals d' = dict_vals d @ [x]"
    "\<And>y. y \<noteq> x \<Longrightarrow> dict_find d' y = dict_find d y" by auto
  then show "unat i < dlen d'" "dict_vals d' ! unat i = x" by (auto simp: dict_okD(2))
qed

lemma getOrAdd_str:
  assumes "dict_ok d" "\<not> numeric d" "dlen d < 2 ^ 32" "getOrAdd d x = (i, d1)"
  shows "dict_ok d1 \<and> lookup d1 x = Some i \<and> dict_str d1 i = x \<and>
    (dict_vals d1 = dict_vals d \<or> dict_vals d1 = dict_vals d @ [VStr x])"
proof -
  have "dict_add d (VStr x) = (i, d1)" "val_fits (numeric d) (VStr x)" using assms by (simp_all add: dict_add_def)
  note s = dict_add_spec [OF assms(1) this(2) assms(3) this(1)]
  have "strs d1 ! unat i = x" using s(2,6,7) assms(2) by (simp add: dict_vals_def dlen_def)
  then show ?thesis using s(1-4) assms(2) by (simp add: lookup_def dict_str_def)
qed

lemma dict_vals_str:
  "dict_ok d \<Longrightarrow> unat i < dlen d \<Longrightarrow>
   canon (numeric d) (dict_str d i) = Some (dict_vals d ! unat i)"
proof -
  assume d: "dict_ok d" and i: "unat i < dlen d"
  then have "val_fits (numeric d) (dict_vals d ! unat i)"
    by (intro dict_okD(3) [OF d]) (metis length_dict_vals nth_mem)
  with i show ?thesis
    by (auto simp: dict_vals_def dict_str_def canon_def dlen_def parse_format_int split: if_splits)
qed

lemma addFrom_dict_add:
  "numeric d = numeric src \<Longrightarrow> unat i < dlen src \<Longrightarrow>
   addFrom d src i = dict_add d (dict_vals src ! unat i)"
  by (auto simp: addFrom_def dict_add_def dict_vals_def dlen_def)

section \<open>The interning interface\<close>

text \<open>
  What the write path relies on, free of the two variants: \<open>find\<close> inverts \<open>content\<close>, and
  \<open>add\<close> makes a value found without moving any other.
\<close>

locale interning =
  fixes ok :: "'d \<Rightarrow> bool" and content :: "'d \<Rightarrow> 'v list"
    and find :: "'d \<Rightarrow> 'v \<Rightarrow> u32 option" and add :: "'d \<Rightarrow> 'v \<Rightarrow> u32 \<times> 'd"
    and fits :: "'d \<Rightarrow> 'v \<Rightarrow> bool"
  assumes find_content: "ok d \<Longrightarrow> find d x = Some i \<longleftrightarrow> unat i < length (content d) \<and> content d ! unat i = x"
    and add_ok: "ok d \<Longrightarrow> fits d x \<Longrightarrow> length (content d) < 2 ^ 32 \<Longrightarrow> ok (snd (add d x))"
    and add_finds: "ok d \<Longrightarrow> fits d x \<Longrightarrow> length (content d) < 2 ^ 32 \<Longrightarrow>
      find (snd (add d x)) x = Some (fst (add d x))"
    and add_content: "ok d \<Longrightarrow> fits d x \<Longrightarrow> length (content d) < 2 ^ 32 \<Longrightarrow>
      content (snd (add d x)) = content d \<or> content (snd (add d x)) = content d @ [x]"
    and add_fits: "ok d \<Longrightarrow> fits d x \<Longrightarrow> length (content d) < 2 ^ 32 \<Longrightarrow>
      fits (snd (add d x)) y = fits d y"
begin

text \<open>Interning a list of values in order.\<close>

primrec add_all :: "'d \<Rightarrow> 'v list \<Rightarrow> u32 list \<times> 'd" where
  "add_all d [] = ([], d)"
| "add_all d (x # xs) =
     (let (i, d1) = add d x; (is, d2) = add_all d1 xs in (i # is, d2))"

lemma find_inj: "ok d \<Longrightarrow> find d x = Some i \<Longrightarrow> find d y = Some i \<Longrightarrow> x = y"
  by (simp add: find_content)

lemma add_keeps:
  assumes "ok d" "fits d x" "length (content d) < 2 ^ 32" "i < length (content d)"
  shows "content (snd (add d x)) ! i = content d ! i"
  using add_content [OF assms(1-3)] assms(4) by (auto simp: nth_append)

lemma add_all_spec:
  assumes "ok d" "\<forall>x \<in> set xs. fits d x" "length (content d) + length xs \<le> 2 ^ 32"
    and "add_all d xs = (is, d')"
  shows "ok d' \<and> length is = length xs \<and> length (content d') \<le> length (content d) + length xs \<and>
    take (length (content d)) (content d') = content d \<and>
    (\<forall>k < length xs. unat (is ! k) < length (content d') \<and> content d' ! unat (is ! k) = xs ! k)"
  using assms
proof (induction xs arbitrary: d "is" d')
  case Nil
  then show ?case by simp
next
  case (Cons x xs)
  obtain i d1 where a: "add d x = (i, d1)" by (cases "add d x")
  obtain js d2 where b: "add_all d1 xs = (js, d2)" by (cases "add_all d1 xs")
  have res: "is = i # js" "d' = d2" using Cons.prems(4) a b by auto
  have len: "length (content d) < 2 ^ 32" using Cons.prems(3) by simp
  have fx: "fits d x" using Cons.prems(2) by simp
  have d1: "ok d1" "find d1 x = Some i"
    using add_ok [OF Cons.prems(1) fx len] add_finds [OF Cons.prems(1) fx len] a by auto
  have c1: "content d1 = content d \<or> content d1 = content d @ [x]"
    using add_content [OF Cons.prems(1) fx len] a by simp
  have "\<forall>y \<in> set xs. fits d1 y"
    using Cons.prems(2) add_fits [OF Cons.prems(1) fx len] a by auto
  moreover have "length (content d1) + length xs \<le> 2 ^ 32" using Cons.prems(3) c1 by auto
  ultimately have IH: "ok d2 \<and> length js = length xs \<and>
    length (content d2) \<le> length (content d1) + length xs \<and>
    take (length (content d1)) (content d2) = content d1 \<and>
    (\<forall>k < length xs. unat (js ! k) < length (content d2) \<and> content d2 ! unat (js ! k) = xs ! k)"
    by (intro Cons.IH [OF d1(1) _ _ b])
  have pre: "take (length (content d)) (content d2) = content d"
    using c1 IH by (metis append_eq_conv_conj length_append take_take min.absorb1 le_add1)
  have i: "unat i < length (content d1)" "content d1 ! unat i = x"
    using d1 by (auto simp: find_content)
  have "content d2 ! unat i = x" and "unat i < length (content d2)"
    using i IH by (metis nth_take, metis length_take min_less_iff_conj)
  then show ?case
    using IH res pre c1 i by (auto simp: less_Suc_eq_0_disj)
qed

end

interpretation dict_intern: interning dict_ok dict_vals dict_find dict_add
  "\<lambda>d. val_fits (numeric d)"
proof unfold_locales
  fix d x i assume "dict_ok d"
  then show "dict_find d x = Some i \<longleftrightarrow> unat i < length (dict_vals d) \<and> dict_vals d ! unat i = x"
    by (simp add: dict_okD(2))
next
  fix d x y assume a: "dict_ok d" "val_fits (numeric d) x" "length (dict_vals d) < 2 ^ 32"
  obtain i d' where e: "dict_add d x = (i, d')" by (cases "dict_add d x")
  note spec = dict_add_spec [OF a(1,2) _ e]
  show "dict_ok (snd (dict_add d x))" "dict_find (snd (dict_add d x)) x = Some (fst (dict_add d x))"
    "dict_vals (snd (dict_add d x)) = dict_vals d \<or> dict_vals (snd (dict_add d x)) = dict_vals d @ [x]"
    "val_fits (numeric (snd (dict_add d x))) y = val_fits (numeric d) y"
    using spec a(3) e by auto
qed

end
