(* ===== verification/Keys.thy ===== *)
theory Keys
  imports Schema
begin

text \<open>
  The packed index key of \<open>snapshot.go\<close> (\<open>dictBits\<close>, \<open>computeShifts\<close>, \<open>packKey\<close>) and
  the bitmaps and tuple keys of \<open>view.go\<close> (\<open>bitGet\<close>, \<open>bitSet\<close>, \<open>idKey\<close>). The
  packed key is shown to be the mixed-radix value of the ids, so that its order is the
  lexicographic order of the index prefix.
\<close>

section \<open>Bit widths and shifts\<close>

fun bits_len :: "nat \<Rightarrow> nat" where
  "bits_len n = (if n = 0 then 0 else Suc (bits_len (n div 2)))"

declare bits_len.simps [simp del]

definition dictBits :: "nat \<Rightarrow> nat" where
  "dictBits n = (if n \<le> 2 then 1 else bits_len (n - 1))"

text \<open>The loop \<open>for i := indexDims - 1; i >= 0; i--\<close> over the widths, last one first.\<close>

fun shift_loop :: "nat list \<Rightarrow> nat \<Rightarrow> nat list \<Rightarrow> nat list" where
  "shift_loop [] s acc = acc"
| "shift_loop (w # ws) s acc = shift_loop ws (s + w) (s # acc)"

definition shifts_of :: "nat list \<Rightarrow> nat list" where
  "shifts_of widths = shift_loop (rev widths) 0 []"

definition computeShifts :: "nat list \<Rightarrow> nat \<Rightarrow> err + nat list" where
  "computeShifts cards indexDims =
     (let widths = map (\<lambda>i. dictBits (cards ! i)) [0..<indexDims]
      in if sum_list widths > 64 then Inl ErrKeyOverflow
         else Inr (shifts_of widths))"

definition packKey :: "nat list \<Rightarrow> u32 list \<Rightarrow> u64" where
  "packKey shifts is = fold (\<lambda>(sh, i) k. k OR push_bit sh (ucast i)) (zip shifts is) 0"

lemma bits_len_upper: "n < 2 ^ bits_len n"
proof (induction n rule: bits_len.induct)
  case (1 n)
  then show ?case by (cases "n = 0") (auto simp: bits_len.simps [of n])
qed

lemma bits_len_lower: "n \<noteq> 0 \<Longrightarrow> 2 ^ (bits_len n - 1) \<le> n"
proof (induction n rule: bits_len.induct)
  case (1 n)
  show ?case
  proof (cases "n div 2 = 0")
    case True
    with 1 show ?thesis by (simp add: bits_len.simps [of n] bits_len.simps [of 0])
  next
    case False
    with 1 have "2 ^ (bits_len (n div 2) - 1) \<le> n div 2" by simp
    moreover have "0 < bits_len (n div 2)" using False by (simp add: bits_len.simps [of "n div 2"])
    ultimately have "2 ^ bits_len (n div 2) \<le> n"
      by (cases "bits_len (n div 2)") auto
    with 1 show ?thesis by (simp add: bits_len.simps [of n])
  qed
qed

lemma dictBits_fits: "i < n \<Longrightarrow> i < 2 ^ dictBits n"
proof (cases "n \<le> 2")
  case False
  assume "i < n"
  with bits_len_upper [of "n - 1"] False show ?thesis by (simp add: dictBits_def)
qed (simp add: dictBits_def)

lemma dictBits_pos [simp]: "0 < dictBits n"
  by (auto simp: dictBits_def bits_len.simps [of "n - Suc 0"])

lemma dictBits_minimal: "2 < n \<Longrightarrow> 2 ^ (dictBits n - 1) < n"
  using bits_len_lower [of "n - 1"] by (simp add: dictBits_def)

lemma dictBits_le32: "n \<le> 2 ^ 32 \<Longrightarrow> dictBits n \<le> 32"
proof (cases "2 < n")
  case True
  assume "n \<le> 2 ^ 32"
  with dictBits_minimal [OF True] have "(2::nat) ^ (dictBits n - 1) < 2 ^ 32" by linarith
  then have "dictBits n - 1 < 32" by (rule power_less_imp_less_exp [rotated]) simp
  then show ?thesis by simp
qed (simp add: dictBits_def)

lemma dictBits_mono: "m \<le> n \<Longrightarrow> dictBits m \<le> dictBits n"
proof (rule ccontr)
  assume mn: "m \<le> n" and "\<not> dictBits m \<le> dictBits n"
  then have lt: "dictBits n < dictBits m" by simp
  then have "2 < m" using dictBits_pos [of n] by (auto simp: dictBits_def split: if_splits)
  have "2 ^ dictBits n \<le> (2::nat) ^ (dictBits m - 1)" using lt by (intro power_increasing) auto
  also have "\<dots> < m" using \<open>2 < m\<close> by (rule dictBits_minimal)
  finally have "2 ^ dictBits n < m" .
  moreover have "m - 1 < 2 ^ dictBits n" using mn \<open>2 < m\<close> by (intro dictBits_fits) simp
  ultimately show False by simp
qed

lemma shift_loop_append: "shift_loop xs s acc = shift_loop xs s [] @ acc"
proof (induction xs arbitrary: s acc)
  case (Cons w ws)
  show ?case using Cons [of "s + w" "s # acc"] Cons [of "s + w" "[s]"] by simp
qed simp

lemma shift_loop_snoc: "shift_loop (xs @ [w]) s [] = (s + sum_list xs) # shift_loop xs s []"
proof (induction xs arbitrary: s)
  case Nil
  then show ?case by simp
next
  case (Cons x xs)
  show ?case
    using Cons [of "s + x"] shift_loop_append [of "xs @ [w]" "s + x" "[s]"]
      shift_loop_append [of xs "s + x" "[s]"] by (simp add: add.assoc)
qed

lemma shifts_of_Nil [simp]: "shifts_of [] = []"
  by (simp add: shifts_of_def)

lemma shifts_of_Cons [simp]: "shifts_of (w # ws) = sum_list ws # shifts_of ws"
  by (simp add: shifts_of_def shift_loop_snoc)

lemma length_shifts_of [simp]: "length (shifts_of ws) = length ws"
  by (induction ws) auto

lemma shifts_of_nth: "i < length ws \<Longrightarrow> shifts_of ws ! i = sum_list (drop (Suc i) ws)"
  by (induction ws arbitrary: i) (auto simp: nth_Cons')

section \<open>The packed key as a mixed-radix number\<close>

fun key_val :: "nat list \<Rightarrow> nat list \<Rightarrow> nat" where
  "key_val (w # ws) (i # is) = i * 2 ^ sum_list ws + key_val ws is"
| "key_val _ _ = 0"

definition key_fits :: "nat list \<Rightarrow> nat list \<Rightarrow> bool" where
  "key_fits ws is \<longleftrightarrow> list_all2 (\<lambda>w i. i < 2 ^ w) ws is"

fun lexle :: "nat list \<Rightarrow> nat list \<Rightarrow> bool" where
  "lexle [] ys = True"
| "lexle (x # xs) [] = False"
| "lexle (x # xs) (y # ys) = (x < y \<or> (x = y \<and> lexle xs ys))"

lemma key_val_less: "key_fits ws is \<Longrightarrow> key_val ws is < 2 ^ sum_list ws"
proof (induction ws "is" rule: list_induct2')
  case (4 w ws i "is")
  then have "i + 1 \<le> 2 ^ w" "key_val ws is < 2 ^ sum_list ws"
    by (auto simp: key_fits_def Suc_le_eq)
  then have "key_val (w # ws) (i # is) < (i + 1) * 2 ^ sum_list ws" by simp
  also have "\<dots> \<le> 2 ^ w * 2 ^ sum_list ws" using \<open>i + 1 \<le> 2 ^ w\<close> by (rule mult_le_mono1)
  finally show ?case by (simp add: power_add)
qed (auto simp: key_fits_def)

lemma radix_le:
  assumes "(a::nat) < B" "b < B"
  shows "i * B + a \<le> j * B + b \<longleftrightarrow> i < j \<or> (i = j \<and> a \<le> b)"
proof (cases i j rule: linorder_cases)
  case less
  then have "Suc i * B \<le> j * B" by (intro mult_le_mono1) simp
  with less assms show ?thesis by simp
next
  case greater
  then have "Suc j * B \<le> i * B" by (intro mult_le_mono1) simp
  with greater assms show ?thesis by simp
qed simp

lemma key_val_le:
  "key_fits ws is \<Longrightarrow> key_fits ws js \<Longrightarrow> key_val ws is \<le> key_val ws js \<longleftrightarrow> lexle is js"
proof (induction ws arbitrary: "is" js)
  case Nil
  then show ?case by (simp add: key_fits_def)
next
  case (Cons w ws)
  then obtain i is' j js' where e: "is = i # is'" "js = j # js'"
    and f: "key_fits ws is'" "key_fits ws js'"
    by (auto simp: key_fits_def list_all2_Cons1)
  show ?case
    using radix_le [OF key_val_less [OF f(1)] key_val_less [OF f(2)]] Cons.IH [OF f]
    by (simp add: e)
qed

lemma lexle_refl [simp]: "lexle xs xs"
  by (induction xs) auto

lemma lexle_antisym: "length xs = length ys \<Longrightarrow> lexle xs ys \<Longrightarrow> lexle ys xs \<Longrightarrow> xs = ys"
  by (induction xs ys rule: list_induct2) auto

lemma key_val_inj:
  assumes "key_fits ws is" "key_fits ws js" "key_val ws is = key_val ws js"
  shows "is = js"
proof (rule lexle_antisym)
  show "length is = length js" using assms(1,2) by (metis key_fits_def list_all2_lengthD)
  show "lexle is js" "lexle js is" using key_val_le assms by (metis le_refl)+
qed

lemma fold_pack_or:
  "fold (\<lambda>(sh, i) k. k OR push_bit sh (ucast (i::u32))) zs (k::u64) =
   k OR fold (\<lambda>(sh, i) k. k OR push_bit sh (ucast i)) zs 0"
proof (induction zs arbitrary: k)
  case (Cons z zs)
  obtain sh i where z: "z = (sh, i)" by (cases z)
  show ?case
    using Cons [of "k OR push_bit sh (ucast i)"] Cons [of "push_bit sh (ucast i)"]
    by (simp add: z or.assoc)
qed simp

lemma packKey_Nil [simp]: "packKey [] is = 0" "packKey ss [] = 0"
  by (simp_all add: packKey_def)

lemma packKey_Cons [simp]:
  "packKey (s # ss) (i # is) = push_bit s (ucast i) OR packKey ss is"
  using fold_pack_or [of "zip ss is" "push_bit s (ucast i)"] by (simp add: packKey_def)

lemma unat_or_shifted:
  fixes x k :: u64
  assumes "unat k < 2 ^ s" "unat x * 2 ^ s + unat k < 2 ^ 64"
  shows "unat (push_bit s x OR k) = unat x * 2 ^ s + unat k"
proof -
  have k: "take_bit s k = k"
    using assms(1) by (simp add: word_unat_eq_iff unsigned_take_bit_eq take_bit_nat_eq_self)
  have "\<not> bit k n" if "s \<le> n" for n
    using k that by (metis bit_take_bit_iff linorder_not_le)
  then have "push_bit s x AND k = 0"
    by (intro bit_word_eqI) (auto simp: bit_and_iff bit_push_bit_iff)
  then have "push_bit s x OR k = push_bit s x + k" by (simp add: disjunctive_add_eq_or)
  moreover have "push_bit s x = of_nat (unat x * 2 ^ s)"
    by (simp add: push_bit_eq_mult)
  ultimately have "push_bit s x OR k = of_nat (unat x * 2 ^ s + unat k)" by simp
  then show ?thesis using assms(2) by (simp only: unat_of_nat) simp
qed

lemma unat_packKey:
  assumes "sum_list ws \<le> 64" "key_fits ws (map unat is)"
  shows "unat (packKey (shifts_of ws) is) = key_val ws (map unat is)"
  using assms
proof (induction ws arbitrary: "is")
  case Nil
  then show ?case by simp
next
  case (Cons w ws)
  then obtain i is' where e: "is = i # is'" by (cases "is") (auto simp: key_fits_def)
  have f: "key_fits ws (map unat is')" using Cons.prems(2) e by (simp add: key_fits_def)
  have IH: "unat (packKey (shifts_of ws) is') = key_val ws (map unat is')"
    using Cons.IH [OF _ f] Cons.prems(1) by simp
  have i: "unat (ucast i :: u64) = unat i" by simp
  have "key_val (w # ws) (map unat is) < 2 ^ sum_list (w # ws)"
    by (rule key_val_less) (rule Cons.prems(2))
  also have "\<dots> \<le> 2 ^ 64" using Cons.prems(1) by (intro power_increasing) auto
  finally have "unat (ucast i :: u64) * 2 ^ sum_list ws + unat (packKey (shifts_of ws) is') < 2 ^ 64"
    by (simp add: e IH i)
  then have "unat (push_bit (sum_list ws) (ucast i) OR packKey (shifts_of ws) is') =
      unat (ucast i :: u64) * 2 ^ sum_list ws + unat (packKey (shifts_of ws) is')"
    using key_val_less [OF f] by (intro unat_or_shifted) (simp_all add: IH)
  then show ?case by (simp add: e i IH)
qed

section \<open>Shifts for given cardinalities\<close>

definition key_widths :: "nat list \<Rightarrow> nat \<Rightarrow> nat list" where
  "key_widths cards k = map (\<lambda>i. dictBits (cards ! i)) [0..<k]"

lemma computeShifts_Inr:
  "computeShifts cards k = Inr ss \<longleftrightarrow>
     sum_list (key_widths cards k) \<le> 64 \<and> ss = shifts_of (key_widths cards k)"
  by (auto simp: computeShifts_def key_widths_def Let_def)

lemma computeShifts_Inl:
  "computeShifts cards k = Inl e \<longleftrightarrow> e = ErrKeyOverflow \<and> 64 < sum_list (key_widths cards k)"
  by (auto simp: computeShifts_def key_widths_def Let_def)

lemma computeShifts_cases:
  obtains "computeShifts cards k = Inl ErrKeyOverflow" | ss where "computeShifts cards k = Inr ss"
  by (cases "computeShifts cards k") (auto simp: computeShifts_Inl)

lemma length_computeShifts: "computeShifts cards k = Inr ss \<Longrightarrow> length ss = k"
  by (auto simp: computeShifts_Inr key_widths_def)

text \<open>Ids within their cardinalities.\<close>

definition ids_within :: "nat list \<Rightarrow> nat \<Rightarrow> u32 list \<Rightarrow> bool" where
  "ids_within cards k is \<longleftrightarrow> length is = k \<and> (\<forall>i < k. unat (is ! i) < cards ! i)"

lemma ids_within_fits: "ids_within cards k is \<Longrightarrow> key_fits (key_widths cards k) (map unat is)"
  by (auto simp: ids_within_def key_fits_def key_widths_def list_all2_conv_all_nth dictBits_fits)

lemma packKey_le:
  assumes "computeShifts cards k = Inr ss" "ids_within cards k is" "ids_within cards k js"
  shows "packKey ss is \<le> packKey ss js \<longleftrightarrow> lexle (map unat is) (map unat js)"
  using assms ids_within_fits
  by (simp add: computeShifts_Inr word_le_nat_alt unat_packKey key_val_le)

lemma packKey_inj:
  assumes "computeShifts cards k = Inr ss" "ids_within cards k is" "ids_within cards k js"
    and "packKey ss is = packKey ss js"
  shows "is = js"
proof -
  have "map unat is = map unat js"
    using assms ids_within_fits
    by (intro key_val_inj [of "key_widths cards k"]) (auto simp: computeShifts_Inr simp flip: unat_packKey)
  moreover have "inj (unat :: u32 \<Rightarrow> nat)" by (simp add: inj_on_def word_unat_eq_iff)
  ultimately show ?thesis by (simp add: inj_map_eq_map)
qed

section \<open>Bitmaps\<close>

definition bitGet :: "u64 list \<Rightarrow> nat \<Rightarrow> bool" where
  "bitGet b i \<longleftrightarrow> length b > i div 64 \<and> (b ! (i div 64)) AND push_bit (i mod 64) 1 \<noteq> 0"

definition bitSet :: "u64 list \<Rightarrow> nat \<Rightarrow> u64 list" where
  "bitSet b i = b[i div 64 := (b ! (i div 64)) OR push_bit (i mod 64) 1]"

lemma length_bitSet [simp]: "length (bitSet b i) = length b"
  by (simp add: bitSet_def)

lemma bitGet_bit: "bitGet b i \<longleftrightarrow> i div 64 < length b \<and> bit (b ! (i div 64)) (i mod 64)"
  by (auto simp: bitGet_def bit_iff_and_push_bit_not_eq_0)

lemma bitGet_bitSet: "i div 64 < length b \<Longrightarrow> bitGet (bitSet b i) j \<longleftrightarrow> j = i \<or> bitGet b j"
proof -
  assume i: "i div 64 < length b"
  have "j = i \<longleftrightarrow> j div 64 = i div 64 \<and> j mod 64 = i mod 64"
    by (metis div_mod_decomp)
  with i show ?thesis
    by (auto simp: bitGet_bit bitSet_def nth_list_update bit_or_iff bit_exp_iff)
qed

lemma bitGet_Nil [simp]: "\<not> bitGet [] i"
  by (simp add: bitGet_def)

lemma bitGet_replicate_0 [simp]: "\<not> bitGet (replicate n 0) i"
  by (simp add: bitGet_bit)

lemma bitmap_word: "(i::nat) < n \<Longrightarrow> i div 64 < (n + 63) div 64"
  by linarith

section \<open>Tuple keys\<close>

definition idKey :: "u32 list \<Rightarrow> byte list" where
  "idKey is = concat (map le32 is)"

lemma idKey_inject [simp]: "idKey xs = idKey ys \<longleftrightarrow> xs = ys"
proof
  assume "idKey xs = idKey ys"
  then show "xs = ys"
  proof (induction xs arbitrary: ys)
    case Nil
    then show ?case by (cases ys) (auto simp: idKey_def le32_def)
  next
    case (Cons x xs)
    then obtain y ys' where "ys = y # ys'" by (cases ys) (auto simp: idKey_def le32_def)
    with Cons show ?case by (auto simp: idKey_def append_eq_append_conv)
  qed
qed simp

end
