(* ===== verification/Snapshot.thy ===== *)
theory Snapshot
  imports Dict Keys
begin

text \<open>
  \<open>snapshot.go\<close>, the data: the immutable columnar base with its packed keys and minima,
  the empty snapshot, and the invariant \<open>snap_ok\<close> that a base keeps from its construction
  on. Rows are read off as an id tuple and its contents; \<open>decode\<close> turns an id tuple into
  the values it stands for.
\<close>

section \<open>State\<close>

record snapshot =
  s_sc :: schema
  s_dicts :: "dict list"
  s_dims :: "u32 list list"
  s_mets :: "f64 list list"
  s_updated :: "i64 list"
  s_expire :: "i64 list"
  s_keys :: "u64 list"
  s_shifts :: "nat list"
  s_maxUpdated :: i64
  s_minUpdated :: i64
  s_minExpire :: i64

definition srows :: "snapshot \<Rightarrow> nat" where
  "srows s = length (s_updated s)"

definition trackMin :: "snapshot \<Rightarrow> i64 \<Rightarrow> i64 \<Rightarrow> snapshot" where
  "trackMin s upd exp =
     (let s1 = (if s_minUpdated s = 0 \<or> upd < s_minUpdated s then s\<lparr>s_minUpdated := upd\<rparr> else s)
      in if exp \<noteq> 0 \<and> (s_minExpire s1 = 0 \<or> exp < s_minExpire s1)
         then s1\<lparr>s_minExpire := exp\<rparr> else s1)"

definition expireMilli :: "instant \<Rightarrow> i64" where
  "expireMilli t = (if is_zero t then 0 else unix_milli t)"

definition rowExpired :: "i64 \<Rightarrow> i64 \<Rightarrow> bool" where
  "rowExpired e now \<longleftrightarrow> e \<noteq> 0 \<and> e \<le> now"

definition emptySnapshot :: "schema \<Rightarrow> snapshot" where
  "emptySnapshot sc =
     \<lparr>s_sc = sc,
      s_dicts = map (\<lambda>i. newDict (isInt sc i)) [0..<ndims sc],
      s_dims = replicate (ndims sc) [],
      s_mets = replicate (nmets sc) [],
      s_updated = [], s_expire = [], s_keys = [],
      s_shifts = (case computeShifts (replicate (idx_dims sc) 0) (idx_dims sc) of
                    Inl _ \<Rightarrow> [] | Inr ss \<Rightarrow> ss),
      s_maxUpdated = 0, s_minUpdated = 0, s_minExpire = 0\<rparr>"

section \<open>Rows and the values they stand for\<close>

record arow =
  a_mets :: "f64 list"
  a_upd :: i64
  a_exp :: i64

definition snap_row :: "snapshot \<Rightarrow> nat \<Rightarrow> u32 list \<times> arow" where
  "snap_row s r = (row_of (s_dims s) r,
     \<lparr>a_mets = row_of (s_mets s) r, a_upd = s_updated s ! r, a_exp = s_expire s ! r\<rparr>)"

definition snap_vals :: "snapshot \<Rightarrow> dval list list" where
  "snap_vals s = map dict_vals (s_dicts s)"

text \<open>\<open>ids_ok vss is\<close>: every id indexes its column of values.\<close>

definition ids_ok :: "'v list list \<Rightarrow> u32 list \<Rightarrow> bool" where
  "ids_ok vss is \<longleftrightarrow> list_all2 (\<lambda>vs i. unat i < length vs) vss is"

definition decode :: "'v list list \<Rightarrow> u32 list \<Rightarrow> 'v list" where
  "decode vss is = map2 (\<lambda>vs i. vs ! unat i) vss is"

lemma ids_okD:
  assumes "ids_ok vss is"
  shows "length is = length vss" and "\<And>d. d < length vss \<Longrightarrow> unat (is ! d) < length (vss ! d)"
  using assms by (auto simp: ids_ok_def list_all2_conv_all_nth)

lemma ids_okI:
  assumes "length is = length vss" "\<And>d. d < length vss \<Longrightarrow> unat (is ! d) < length (vss ! d)"
  shows "ids_ok vss is"
  using assms by (auto simp: ids_ok_def list_all2_conv_all_nth)

lemma length_decode [simp]: "length is = length vss \<Longrightarrow> length (decode vss is) = length vss"
  by (simp add: decode_def)

lemma decode_nth: "d < length vss \<Longrightarrow> d < length is \<Longrightarrow> decode vss is ! d = vss ! d ! unat (is ! d)"
  by (simp add: decode_def)

lemma decode_inj:
  assumes "\<And>vs. vs \<in> set vss \<Longrightarrow> distinct vs" "ids_ok vss is" "ids_ok vss js"
    and "decode vss is = decode vss js"
  shows "is = js"
proof (rule nth_equalityI)
  show "length is = length js" using assms(2,3) by (simp add: ids_okD(1))
  fix d assume "d < length is"
  then have d: "d < length vss" using assms(2) by (simp add: ids_okD(1))
  then have "vss ! d ! unat (is ! d) = vss ! d ! unat (js ! d)"
    using assms(2-4) by (metis decode_nth ids_okD(1))
  moreover have "distinct (vss ! d)" using d assms(1) by simp
  ultimately have "unat (is ! d) = unat (js ! d)"
    using d assms(2,3) by (simp add: nth_eq_iff_index_eq ids_okD(2))
  then show "is ! d = js ! d" by (simp add: word_unat_eq_iff)
qed

text \<open>\<open>extends vss vss'\<close>: every column of values has grown at its end.\<close>

definition extends :: "'v list list \<Rightarrow> 'v list list \<Rightarrow> bool" where
  "extends vss vss' \<longleftrightarrow> list_all2 (\<lambda>vs vs'. \<exists>t. vs' = vs @ t) vss vss'"

lemma extends_refl [simp]: "extends vss vss"
  by (simp add: extends_def list_all2_same)

lemma extends_nth:
  "extends vss vss' \<Longrightarrow> d < length vss \<Longrightarrow> \<exists>t. vss' ! d = vss ! d @ t"
  by (auto simp: extends_def list_all2_conv_all_nth)

lemma extends_length: "extends vss vss' \<Longrightarrow> length vss' = length vss"
  by (auto simp: extends_def dest: list_all2_lengthD)

lemma extends_trans:
  assumes "extends a b" "extends b c" shows "extends a c"
  using assms unfolding extends_def
  by (rule list_all2_trans [rotated -2]) auto

lemma extends_ids_ok: "extends vss vss' \<Longrightarrow> ids_ok vss is \<Longrightarrow> ids_ok vss' is"
proof (rule ids_okI)
  assume e: "extends vss vss'" and o: "ids_ok vss is"
  show "length is = length vss'" using e o by (simp add: extends_length ids_okD(1))
  fix d assume d: "d < length vss'"
  with e have "\<exists>t. vss' ! d = vss ! d @ t" by (auto simp: extends_length intro: extends_nth)
  with d show "unat (is ! d) < length (vss' ! d)"
    using ids_okD(2) [OF o, of d] e by (auto simp: extends_length)
qed

lemma extends_decode: "extends vss vss' \<Longrightarrow> ids_ok vss is \<Longrightarrow> decode vss' is = decode vss is"
proof (rule nth_equalityI)
  assume e: "extends vss vss'" and o: "ids_ok vss is"
  show len: "length (decode vss' is) = length (decode vss is)"
    using e o by (simp add: extends_length ids_okD(1))
  fix d assume "d < length (decode vss' is)"
  with e o have d: "d < length vss" by (simp add: extends_length ids_okD(1))
  with e obtain t where "vss' ! d = vss ! d @ t" by (auto dest: extends_nth)
  with d show "decode vss' is ! d = decode vss is ! d"
    using ids_okD(2) [OF o d] e o by (simp add: decode_nth extends_length ids_okD(1) nth_append)
qed

section \<open>Minima and maxima of the row times\<close>

definition min_upd_step :: "i64 \<Rightarrow> i64 \<Rightarrow> i64" where
  "min_upd_step u m = (if m = 0 \<or> u < m then u else m)"

definition min_exp_step :: "i64 \<Rightarrow> i64 \<Rightarrow> i64" where
  "min_exp_step e m = (if e \<noteq> 0 \<and> (m = 0 \<or> e < m) then e else m)"

lemma trackMin_simps [simp]:
  "s_minUpdated (trackMin s u e) = min_upd_step u (s_minUpdated s)"
  "s_minExpire (trackMin s u e) = min_exp_step e (s_minExpire s)"
  "s_sc (trackMin s u e) = s_sc s" "s_dicts (trackMin s u e) = s_dicts s"
  "s_dims (trackMin s u e) = s_dims s" "s_mets (trackMin s u e) = s_mets s"
  "s_updated (trackMin s u e) = s_updated s" "s_expire (trackMin s u e) = s_expire s"
  "s_keys (trackMin s u e) = s_keys s" "s_shifts (trackMin s u e) = s_shifts s"
  "s_maxUpdated (trackMin s u e) = s_maxUpdated s"
  by (auto simp: trackMin_def Let_def min_upd_step_def min_exp_step_def)

text \<open>\<open>minExpire\<close> is the smallest non-zero expiry, \<open>0\<close> exactly when there is none.\<close>

lemma min_exp_fold:
  "fold min_exp_step es m = 0 \<longleftrightarrow> m = 0 \<and> set es \<subseteq> {0}"
  "e \<in> set es \<Longrightarrow> e \<noteq> 0 \<Longrightarrow> fold min_exp_step es m \<le> e"
proof -
  show zero: "fold min_exp_step es m = 0 \<longleftrightarrow> m = 0 \<and> set es \<subseteq> {0}" for m
    by (induction es arbitrary: m) (auto simp: min_exp_step_def)
  have down: "m \<noteq> 0 \<Longrightarrow> fold min_exp_step es m \<le> m" for es m
    by (induction es arbitrary: m) (force simp: min_exp_step_def)+
  have first: "e \<noteq> 0 \<Longrightarrow> min_exp_step e m \<noteq> 0 \<and> min_exp_step e m \<le> e" for m
    by (auto simp: min_exp_step_def)
  show "e \<in> set es \<Longrightarrow> e \<noteq> 0 \<Longrightarrow> fold min_exp_step es m \<le> e"
  proof (induction es arbitrary: m)
    case (Cons x xs)
    show ?case
    proof (cases "e = x")
      case True
      with Cons.prems(2) first [of m] down [of "min_exp_step x m" xs] show ?thesis by simp
    next
      case False
      with Cons show ?thesis by simp
    qed
  qed simp
qed

text \<open>\<open>minUpdated\<close> is the smallest time where no time is zero or negative.\<close>

lemma min_upd_fold:
  assumes "\<forall>u \<in> set us. 0 < u" "us \<noteq> []"
  shows "fold min_upd_step us 0 = Min (set us)"
proof -
  have "fold min_upd_step us m = Min (insert m (set us))" if "0 < m" "\<forall>u \<in> set us. 0 < u" for us m
    using that
  proof (induction us arbitrary: m)
    case (Cons u us)
    then have "min_upd_step u m = min u m" "0 < min u m" by (auto simp: min_upd_step_def)
    with Cons have "fold min_upd_step (u # us) m = Min (insert (min u m) (set us))" by simp
    also have "\<dots> = Min (insert m (set (u # us)))"
      by (cases "us = []") (auto simp: min_def)
    finally show ?case .
  qed simp
  with assms show ?thesis by (cases us) (auto simp: min_upd_step_def)
qed

section \<open>Invariant\<close>

definition dicts_ok :: "schema \<Rightarrow> dict list \<Rightarrow> bool" where
  "dicts_ok sc ds \<longleftrightarrow> length ds = ndims sc \<and>
     (\<forall>d < ndims sc. dict_ok (ds ! d) \<and> numeric (ds ! d) = isInt sc d)"

definition rows_ok :: "schema \<Rightarrow> dval list list \<Rightarrow> u32 list list \<Rightarrow> f64 list list \<Rightarrow> i64 list \<Rightarrow> i64 list \<Rightarrow> bool"
where
  "rows_ok sc vss dims mets upds exps \<longleftrightarrow>
     length dims = ndims sc \<and> cols_len dims (length upds) \<and>
     length mets = nmets sc \<and> cols_len mets (length upds) \<and>
     length exps = length upds \<and>
     (\<forall>r < length upds. ids_ok vss (row_of dims r)) \<and>
     distinct (map (row_of dims) [0..<length upds]) \<and>
     (\<forall>u \<in> set upds. i64_ok u) \<and> (\<forall>e \<in> set exps. i64_ok e)"

definition keys_ok :: "snapshot \<Rightarrow> bool" where
  "keys_ok s \<longleftrightarrow>
     computeShifts (map dlen (s_dicts s)) (idx_dims (s_sc s)) = Inr (s_shifts s) \<and>
     s_keys s = map (\<lambda>r. packKey (s_shifts s) (take (idx_dims (s_sc s)) (row_of (s_dims s) r)))
                  [0..<srows s] \<and>
     sorted (s_keys s)"

definition minmax_ok :: "snapshot \<Rightarrow> bool" where
  "minmax_ok s \<longleftrightarrow>
     s_maxUpdated s = fold max (s_updated s) 0 \<and>
     s_minUpdated s = fold min_upd_step (s_updated s) 0 \<and>
     s_minExpire s = fold min_exp_step (s_expire s) 0"

definition snap_ok :: "schema \<Rightarrow> snapshot \<Rightarrow> bool" where
  "snap_ok sc s \<longleftrightarrow> schema_ok sc \<and> s_sc s = sc \<and> dicts_ok sc (s_dicts s) \<and>
     rows_ok sc (snap_vals s) (s_dims s) (s_mets s) (s_updated s) (s_expire s) \<and>
     keys_ok s \<and> minmax_ok s"

lemma dicts_okD:
  assumes "dicts_ok sc ds"
  shows "length ds = ndims sc"
    and "\<And>d. d < ndims sc \<Longrightarrow> dict_ok (ds ! d)"
    and "\<And>d. d < ndims sc \<Longrightarrow> numeric (ds ! d) = isInt sc d"
  using assms by (auto simp: dicts_ok_def)

lemma dicts_ok_distinct: "dicts_ok sc ds \<Longrightarrow> vs \<in> set (map dict_vals ds) \<Longrightarrow> distinct vs"
  by (auto simp: dicts_ok_def in_set_conv_nth intro!: dict_distinct)

lemma rows_okD:
  assumes "rows_ok sc vss dims mets upds exps"
  shows "length dims = ndims sc" "cols_len dims (length upds)"
    "length mets = nmets sc" "cols_len mets (length upds)" "length exps = length upds"
    and "\<And>r. r < length upds \<Longrightarrow> ids_ok vss (row_of dims r)"
    and "\<And>r q. r < length upds \<Longrightarrow> q < length upds \<Longrightarrow> row_of dims r = row_of dims q \<Longrightarrow> r = q"
proof -
  show "\<And>r q. r < length upds \<Longrightarrow> q < length upds \<Longrightarrow> row_of dims r = row_of dims q \<Longrightarrow> r = q"
    using assms by (fastforce simp: rows_ok_def distinct_conv_nth)
qed (use assms in \<open>auto simp: rows_ok_def\<close>)

lemma snap_okD:
  assumes "snap_ok sc s"
  shows "schema_ok sc" "s_sc s = sc" "dicts_ok sc (s_dicts s)"
    "rows_ok sc (snap_vals s) (s_dims s) (s_mets s) (s_updated s) (s_expire s)"
    "keys_ok s" "minmax_ok s"
  using assms by (auto simp: snap_ok_def)

lemma length_snap_vals [simp]: "length (snap_vals s) = length (s_dicts s)"
  by (simp add: snap_vals_def)

lemma snap_vals_nth [simp]: "d < length (s_dicts s) \<Longrightarrow> snap_vals s ! d = dict_vals (s_dicts s ! d)"
  by (simp add: snap_vals_def)

text \<open>A row's index prefix lies within the dictionaries, so packed keys order it.\<close>

lemma ids_ok_within:
  assumes "ids_ok (map dict_vals ds) is" "k \<le> length ds"
  shows "ids_within (map dlen ds) k (take k is)"
  using assms ids_okD [OF assms(1)] by (auto simp: ids_within_def)

lemma sum_list_ones: "sum_list (map (\<lambda>i. Suc 0) xs) = length xs"
  by (induction xs) auto

lemma emptySnapshot_shifts:
  assumes "schema_ok sc"
  shows "computeShifts (replicate (idx_dims sc) 0) (idx_dims sc) =
    Inr (shifts_of (key_widths (replicate (ndims sc) 0) (idx_dims sc)))"
    and "key_widths (replicate (idx_dims sc) 0) (idx_dims sc) =
      key_widths (replicate (ndims sc) 0) (idx_dims sc)"
proof -
  have k: "idx_dims sc \<le> ndims sc" "ndims sc \<le> 16" using assms by (auto dest: schema_okD)
  show e: "key_widths (replicate (idx_dims sc) 0) (idx_dims sc) =
      key_widths (replicate (ndims sc) 0) (idx_dims sc)"
    using k by (auto simp: key_widths_def)
  have "map (\<lambda>i. dictBits (replicate (ndims sc) 0 ! i)) [0..<idx_dims sc] =
      map (\<lambda>i. Suc 0) [0..<idx_dims sc]"
    using k by (intro map_cong) (auto simp: dictBits_def)
  then have "sum_list (key_widths (replicate (ndims sc) 0) (idx_dims sc)) = idx_dims sc"
    unfolding key_widths_def by (simp only: sum_list_ones) simp
  then have "sum_list (key_widths (replicate (ndims sc) 0) (idx_dims sc)) \<le> 64"
    using k by simp
  then show "computeShifts (replicate (idx_dims sc) 0) (idx_dims sc) =
    Inr (shifts_of (key_widths (replicate (ndims sc) 0) (idx_dims sc)))"
    by (simp add: computeShifts_Inr e)
qed

lemma snap_ok_empty: "schema_ok sc \<Longrightarrow> snap_ok sc (emptySnapshot sc)"
proof -
  assume sc: "schema_ok sc"
  have "map dlen (s_dicts (emptySnapshot sc)) = replicate (ndims sc) 0"
    by (auto simp: emptySnapshot_def comp_def map_replicate_const)
  moreover have "s_shifts (emptySnapshot sc) = shifts_of (key_widths (replicate (ndims sc) 0) (idx_dims sc))"
    using emptySnapshot_shifts(1) [OF sc] by (simp add: emptySnapshot_def)
  moreover have "sum_list (key_widths (replicate (ndims sc) 0) (idx_dims sc)) \<le> 64"
    using emptySnapshot_shifts [OF sc] by (simp add: computeShifts_Inr)
  ultimately have "keys_ok (emptySnapshot sc)"
    by (simp add: keys_ok_def computeShifts_Inr) (simp add: emptySnapshot_def srows_def)
  with sc show ?thesis
    by (auto simp: snap_ok_def emptySnapshot_def dicts_ok_def rows_ok_def minmax_ok_def)
qed

end
