(* ===== verification/View.thy ===== *)
theory View
  imports Snapshot
begin

text \<open>
  \<open>view.go\<close>, the data: the delta overlay, the view readers load, and the lookups across
  the base and extra dictionaries. The abstraction \<open>abs_view\<close> is the table a view stands
  for, a map from value tuples to row contents; \<open>view_ok\<close> is the invariant under which
  every column, index and bitmap of the view agrees with it.
\<close>

section \<open>State\<close>

record delta =
  d_dims :: "u32 list list"
  d_mets :: "f64 list list"
  d_updated :: "i64 list"
  d_expire :: "i64 list"
  d_index :: "byte list \<rightharpoonup> nat"
  d_maxUpdated :: i64
  d_hasExpiry :: bool

record view =
  v_base :: snapshot
  v_delta :: delta
  v_extras :: "dict list"
  v_overridden :: "u64 list"

definition emptyDelta :: "schema \<Rightarrow> delta" where
  "emptyDelta sc =
     \<lparr>d_dims = replicate (ndims sc) [], d_mets = replicate (nmets sc) [],
      d_updated = [], d_expire = [], d_index = Map.empty, d_maxUpdated = 0, d_hasExpiry = False\<rparr>"

definition drows :: "delta \<Rightarrow> nat" where
  "drows d = length (d_updated d)"

definition newView :: "snapshot \<Rightarrow> view" where
  "newView base =
     \<lparr>v_base = base, v_delta = emptyDelta (s_sc base),
      v_extras = map (\<lambda>i. newDict (isInt (s_sc base) i)) [0..<ndims (s_sc base)],
      v_overridden = []\<rparr>"

text \<open>\<open>lookupID\<close> returns the id and whether it was found; \<open>lookupNumID\<close> also whether the value parses.\<close>

definition lookupID :: "view \<Rightarrow> nat \<Rightarrow> string \<Rightarrow> u32 \<times> bool" where
  "lookupID v d s =
     (case lookup (s_dicts (v_base v) ! d) s of
        Some i \<Rightarrow> (i, True)
      | None \<Rightarrow>
          (case lookup (v_extras v ! d) s of
             Some i \<Rightarrow> (of_nat (dlen (s_dicts (v_base v) ! d)) + i, True)
           | None \<Rightarrow> (0, False)))"

definition lookupNumID :: "view \<Rightarrow> nat \<Rightarrow> string \<Rightarrow> u32 \<times> bool \<times> bool" where
  "lookupNumID v d s =
     (case parse_int s of
        None \<Rightarrow> (0, False, False)
      | Some f \<Rightarrow>
          (case lookupN (s_dicts (v_base v) ! d) f of
             Some i \<Rightarrow> (i, True, True)
           | None \<Rightarrow>
               (case lookupN (v_extras v ! d) f of
                  Some i \<Rightarrow> (of_nat (dlen (s_dicts (v_base v) ! d)) + i, True, True)
                | None \<Rightarrow> (0, False, True))))"

definition dimString :: "view \<Rightarrow> nat \<Rightarrow> u32 \<Rightarrow> string" where
  "dimString v d i =
     (let n = of_nat (dlen (s_dicts (v_base v) ! d))
      in if i \<ge> n then dict_str (v_extras v ! d) (i - n)
         else dict_str (s_dicts (v_base v) ! d) i)"

definition view_maxUpdated :: "view \<Rightarrow> i64" where
  "view_maxUpdated v =
     (if d_maxUpdated (v_delta v) > s_maxUpdated (v_base v)
      then d_maxUpdated (v_delta v) else s_maxUpdated (v_base v))"

text \<open>\<open>findRow\<close>: binary search for the packed key, then a scan of the rows that share it.\<close>

function findRow_from :: "snapshot \<Rightarrow> u32 list \<Rightarrow> u64 \<Rightarrow> nat \<Rightarrow> nat option" where
  "findRow_from s is key r =
     (if r < length (s_keys s) \<and> s_keys s ! r = key then
        if list_all (\<lambda>d. s_dims s ! d ! r = is ! d) [0..<length is] then Some r
        else findRow_from s is key (r + 1)
      else None)"
  by pat_completeness auto
termination
  by (relation "measure (\<lambda>(s, is, key, r). length (s_keys s) - r)") auto

declare findRow_from.simps [simp del]

definition findRow :: "snapshot \<Rightarrow> u32 list \<Rightarrow> nat option" where
  "findRow s is =
     (let key = packKey (s_shifts s) (take (idx_dims (s_sc s)) is);
          lo = sort_search (length (s_keys s)) (\<lambda>i. s_keys s ! i \<ge> key)
      in findRow_from s is key lo)"

section \<open>The combined id space\<close>

definition comb_ok :: "dict \<Rightarrow> dict \<Rightarrow> bool" where
  "comb_ok b e \<longleftrightarrow> dict_ok b \<and> dict_ok e \<and> numeric b = numeric e \<and>
     set (dict_vals b) \<inter> set (dict_vals e) = {} \<and> dlen b + dlen e < 2 ^ 32"

definition comb_find :: "dict \<Rightarrow> dict \<Rightarrow> dval \<Rightarrow> u32 option" where
  "comb_find b e x =
     (case dict_find b x of
        Some i \<Rightarrow> Some i
      | None \<Rightarrow> map_option (\<lambda>i. of_nat (dlen b) + i) (dict_find e x))"

definition view_vals :: "view \<Rightarrow> dval list list" where
  "view_vals v = map2 (\<lambda>b e. dict_vals b @ dict_vals e) (s_dicts (v_base v)) (v_extras v)"

lemma unat_comb_id:
  "n + unat i < 2 ^ 32 \<Longrightarrow> unat (of_nat n + i :: u32) = n + unat i"
proof -
  assume a: "n + unat i < 2 ^ 32"
  have "of_nat n + i = (of_nat (n + unat i) :: u32)" by simp
  with a show ?thesis by (simp only: unat_of_nat_u32)
qed

lemma comb_find_iff:
  assumes "comb_ok b e"
  shows "comb_find b e x = Some i \<longleftrightarrow>
    unat i < dlen b + dlen e \<and> (dict_vals b @ dict_vals e) ! unat i = x"
proof -
  have b: "dict_ok b" and e: "dict_ok e" and len: "dlen b + dlen e < 2 ^ 32"
    and dis: "set (dict_vals b) \<inter> set (dict_vals e) = {}"
    using assms by (auto simp: comb_ok_def)
  show ?thesis
  proof (cases "dict_find b x")
    case (Some j)
    then have j: "unat j < dlen b" "dict_vals b ! unat j = x" by (auto simp: dict_okD(2) [OF b])
    have dist: "distinct (dict_vals b @ dict_vals e)" using b e dis by (simp add: dict_distinct)
    have jx: "(dict_vals b @ dict_vals e) ! unat j = x" using j by (simp add: nth_append)
    have "(dict_vals b @ dict_vals e) ! unat i = x \<longleftrightarrow> i = j" if "unat i < dlen b + dlen e"
      using that j jx nth_eq_iff_index_eq [OF dist, of "unat i" "unat j"]
      by (auto simp: word_unat_eq_iff)
    with Some j show ?thesis by (auto simp: comb_find_def nth_append)
  next
    case None
    then have nb: "x \<notin> set (dict_vals b)" by (simp add: dict_find_None b)
    show ?thesis
    proof
      assume "comb_find b e x = Some i"
      with None obtain k where k: "dict_find e x = Some k" "i = of_nat (dlen b) + k"
        by (auto simp: comb_find_def)
      then have "unat k < dlen e" "dict_vals e ! unat k = x" by (auto simp: dict_okD(2) [OF e])
      moreover from this have "unat i = dlen b + unat k"
        using k(2) len by (simp add: unat_comb_id)
      ultimately show "unat i < dlen b + dlen e \<and> (dict_vals b @ dict_vals e) ! unat i = x"
        by (simp add: nth_append)
    next
      assume a: "unat i < dlen b + dlen e \<and> (dict_vals b @ dict_vals e) ! unat i = x"
      then have ge: "dlen b \<le> unat i"
        using nb by (metis length_dict_vals linorder_not_le nth_append nth_mem)
      define k :: u32 where "k = of_nat (unat i - dlen b)"
      have k: "unat k = unat i - dlen b" unfolding k_def using a len by (intro unat_of_nat_u32) linarith
      then have "dict_find e x = Some k" using a ge by (auto simp: dict_okD(2) [OF e] nth_append)
      moreover have "of_nat (dlen b) + k = i"
        using k ge a len by (simp add: word_unat_eq_iff unat_comb_id)
      ultimately show "comb_find b e x = Some i" using None by (simp add: comb_find_def)
    qed
  qed
qed

lemma comb_find_None:
  "comb_ok b e \<Longrightarrow> comb_find b e x = None \<longleftrightarrow> x \<notin> set (dict_vals b @ dict_vals e)"
  by (auto simp: comb_find_def comb_ok_def dict_find_None split: option.splits)
     (metis dict_find_None option.distinct(1))+

lemma comb_distinct: "comb_ok b e \<Longrightarrow> distinct (dict_vals b @ dict_vals e)"
  by (auto simp: comb_ok_def dict_distinct)

lemma length_view_vals [simp]:
  "length (view_vals v) = min (length (s_dicts (v_base v))) (length (v_extras v))"
  by (simp add: view_vals_def)

section \<open>Rows of a view and the table it stands for\<close>

definition delta_row :: "delta \<Rightarrow> nat \<Rightarrow> u32 list \<times> arow" where
  "delta_row d r = (row_of (d_dims d) r,
     \<lparr>a_mets = row_of (d_mets d) r, a_upd = d_updated d ! r, a_exp = d_expire d ! r\<rparr>)"

definition base_rows :: "view \<Rightarrow> (u32 list \<times> arow) list" where
  "base_rows v = map (snap_row (v_base v))
     (filter (\<lambda>r. \<not> bitGet (v_overridden v) r) [0..<srows (v_base v)])"

definition delta_rows :: "view \<Rightarrow> (u32 list \<times> arow) list" where
  "delta_rows v = map (delta_row (v_delta v)) [0..<drows (v_delta v)]"

definition view_rows :: "view \<Rightarrow> (u32 list \<times> arow) list" where
  "view_rows v = base_rows v @ delta_rows v"

definition abs_view :: "view \<Rightarrow> dval list \<rightharpoonup> arow" where
  "abs_view v = map_of (map (\<lambda>(is, row). (decode (view_vals v) is, row)) (view_rows v))"

section \<open>Invariant\<close>

definition extras_ok :: "schema \<Rightarrow> snapshot \<Rightarrow> dict list \<Rightarrow> bool" where
  "extras_ok sc base es \<longleftrightarrow> length es = ndims sc \<and>
     (\<forall>d < ndims sc. comb_ok (s_dicts base ! d) (es ! d) \<and> numeric (es ! d) = isInt sc d)"

definition index_ok :: "delta \<Rightarrow> bool" where
  "index_ok d \<longleftrightarrow> (\<forall>k r. d_index d k = Some r \<longleftrightarrow> r < drows d \<and> k = idKey (row_of (d_dims d) r))"

definition over_ok :: "view \<Rightarrow> bool" where
  "over_ok v \<longleftrightarrow>
     (v_overridden v = [] \<or> length (v_overridden v) = (srows (v_base v) + 63) div 64) \<and>
     (\<forall>r < srows (v_base v). bitGet (v_overridden v) r \<longleftrightarrow>
        (\<exists>q < drows (v_delta v). row_of (d_dims (v_delta v)) q = row_of (s_dims (v_base v)) r))"

definition delta_times_ok :: "delta \<Rightarrow> bool" where
  "delta_times_ok d \<longleftrightarrow>
     0 \<le> d_maxUpdated d \<and> (\<forall>u \<in> set (d_updated d). u \<le> d_maxUpdated d) \<and>
     (d_maxUpdated d = 0 \<or> d_maxUpdated d \<in> set (d_updated d)) \<and>
     ((\<exists>e \<in> set (d_expire d). e \<noteq> 0) \<longrightarrow> d_hasExpiry d)"

definition view_ok :: "schema \<Rightarrow> view \<Rightarrow> bool" where
  "view_ok sc v \<longleftrightarrow>
     snap_ok sc (v_base v) \<and> extras_ok sc (v_base v) (v_extras v) \<and>
     rows_ok sc (view_vals v) (d_dims (v_delta v)) (d_mets (v_delta v))
       (d_updated (v_delta v)) (d_expire (v_delta v)) \<and>
     index_ok (v_delta v) \<and> over_ok v \<and> delta_times_ok (v_delta v)"

lemma view_okD:
  assumes "view_ok sc v"
  shows "snap_ok sc (v_base v)" "extras_ok sc (v_base v) (v_extras v)"
    "rows_ok sc (view_vals v) (d_dims (v_delta v)) (d_mets (v_delta v))
       (d_updated (v_delta v)) (d_expire (v_delta v))"
    "index_ok (v_delta v)" "over_ok v" "delta_times_ok (v_delta v)"
  using assms by (auto simp: view_ok_def)

lemma extras_okD:
  assumes "extras_ok sc base es"
  shows "length es = ndims sc"
    and "\<And>d. d < ndims sc \<Longrightarrow> comb_ok (s_dicts base ! d) (es ! d)"
    and "\<And>d. d < ndims sc \<Longrightarrow> numeric (es ! d) = isInt sc d"
  using assms by (auto simp: extras_ok_def)

lemma view_ok_lengths:
  assumes "view_ok sc v"
  shows "length (s_dicts (v_base v)) = ndims sc" "length (v_extras v) = ndims sc"
    "length (view_vals v) = ndims sc"
proof -
  show *: "length (s_dicts (v_base v)) = ndims sc" "length (v_extras v) = ndims sc"
    using view_okD(1,2) [OF assms] by (auto dest: snap_okD dicts_okD extras_okD)
  then show "length (view_vals v) = ndims sc" by simp
qed

lemma view_vals_nth:
  "d < length (view_vals v) \<Longrightarrow>
   view_vals v ! d = dict_vals (s_dicts (v_base v) ! d) @ dict_vals (v_extras v ! d)"
  by (simp add: view_vals_def)

lemma view_vals_extends:
  assumes "length (v_extras v) = length (s_dicts (v_base v))"
  shows "extends (snap_vals (v_base v)) (view_vals v)"
  using assms
  by (auto simp: extends_def list_all2_conv_all_nth snap_vals_def view_vals_nth)

lemma view_vals_distinct:
  assumes "view_ok sc v" "vs \<in> set (view_vals v)"
  shows "distinct vs"
proof -
  obtain d where d: "d < ndims sc" "vs = view_vals v ! d"
    using assms(2) view_ok_lengths [OF assms(1)] by (auto simp: in_set_conv_nth)
  then show ?thesis
    using comb_distinct [OF extras_okD(2) [OF view_okD(2) [OF assms(1)] d(1)]]
      view_ok_lengths [OF assms(1)] by (simp only: view_vals_nth)
qed

lemma base_row_ids_ok:
  assumes "view_ok sc v" "r < srows (v_base v)"
  shows "ids_ok (snap_vals (v_base v)) (row_of (s_dims (v_base v)) r)"
    and "ids_ok (view_vals v) (row_of (s_dims (v_base v)) r)"
proof -
  show *: "ids_ok (snap_vals (v_base v)) (row_of (s_dims (v_base v)) r)"
    using assms by (auto simp: srows_def dest!: view_okD(1) snap_okD(4) intro: rows_okD(6))
  show "ids_ok (view_vals v) (row_of (s_dims (v_base v)) r)"
    using view_ok_lengths [OF assms(1)] by (intro extends_ids_ok [OF view_vals_extends *]) simp
qed

lemma delta_row_ids_ok:
  "view_ok sc v \<Longrightarrow> r < drows (v_delta v) \<Longrightarrow> ids_ok (view_vals v) (row_of (d_dims (v_delta v)) r)"
  by (auto simp: drows_def dest!: view_okD(3) intro: rows_okD(6))

lemma view_rows_ids_ok:
  "view_ok sc v \<Longrightarrow> (is, row) \<in> set (view_rows v) \<Longrightarrow> ids_ok (view_vals v) is"
  by (auto simp: view_rows_def base_rows_def delta_rows_def snap_row_def delta_row_def
      intro: base_row_ids_ok delta_row_ids_ok)

text \<open>No tuple is listed twice: the delta row of a tuple masks its base row.\<close>

lemma view_rows_distinct:
  assumes v: "view_ok sc v"
  shows "distinct (map fst (view_rows v))"
proof -
  let ?b = "v_base v" and ?d = "v_delta v"
  have b: "distinct (map (row_of (s_dims ?b)) [0..<srows ?b])"
    using v by (auto simp: srows_def rows_ok_def dest!: view_okD(1) snap_okD(4))
  have d: "distinct (map (row_of (d_dims ?d)) [0..<drows ?d])"
    using v by (auto simp: drows_def rows_ok_def dest!: view_okD(3))
  have fb: "map fst (base_rows v) =
      map (row_of (s_dims ?b)) (filter (\<lambda>r. \<not> bitGet (v_overridden v) r) [0..<srows ?b])"
    by (simp add: base_rows_def snap_row_def)
  have fd: "map fst (delta_rows v) = map (row_of (d_dims ?d)) [0..<drows ?d]"
    by (simp add: delta_rows_def delta_row_def)
  have "set (map fst (base_rows v)) \<inter> set (map fst (delta_rows v)) = {}"
    using view_okD(5) [OF v] unfolding fb fd over_ok_def by fastforce
  with b d show ?thesis
    by (simp add: view_rows_def fd fb distinct_map_filter)
qed

text \<open>Reading the table at a tuple of values is reading the rows at its ids.\<close>

definition id_table :: "view \<Rightarrow> u32 list \<rightharpoonup> arow" where
  "id_table v = map_of (view_rows v)"

lemma map_of_decode:
  assumes "\<And>is row. (is, row) \<in> set xs \<Longrightarrow> ids_ok vss is" "\<And>vs. vs \<in> set vss \<Longrightarrow> distinct vs"
    and "ids_ok vss js"
  shows "map_of (map (\<lambda>(is, row). (decode vss is, row)) xs) (decode vss js) = map_of xs js"
  using assms(1)
proof (induction xs)
  case (Cons x xs)
  obtain "is" row where x: "x = (is, row)" by (cases x)
  have "decode vss is = decode vss js \<longleftrightarrow> is = js"
    using decode_inj [OF assms(2) _ assms(3)] Cons.prems x by auto
  with Cons x show ?case by auto
qed simp

lemma abs_view_decode:
  assumes "view_ok sc v" "ids_ok (view_vals v) is"
  shows "abs_view v (decode (view_vals v) is) = id_table v is"
  unfolding abs_view_def id_table_def
  using assms by (intro map_of_decode) (auto intro: view_rows_ids_ok view_vals_distinct)

lemma abs_view_Some:
  assumes v: "view_ok sc v"
  shows "abs_view v key = Some row \<longleftrightarrow>
    (\<exists>is. ids_ok (view_vals v) is \<and> key = decode (view_vals v) is \<and> (is, row) \<in> set (view_rows v))"
proof
  assume "abs_view v key = Some row"
  then have "(key, row) \<in> set (map (\<lambda>(is, row). (decode (view_vals v) is, row)) (view_rows v))"
    unfolding abs_view_def by (rule map_of_SomeD)
  then show "\<exists>is. ids_ok (view_vals v) is \<and> key = decode (view_vals v) is \<and> (is, row) \<in> set (view_rows v)"
    using view_rows_ids_ok [OF v] by auto
next
  assume "\<exists>is. ids_ok (view_vals v) is \<and> key = decode (view_vals v) is \<and> (is, row) \<in> set (view_rows v)"
  then show "abs_view v key = Some row"
    using abs_view_decode [OF v] view_rows_distinct [OF v] by (auto simp: id_table_def)
qed

section \<open>Finding a base row\<close>

lemma findRow_from_Some:
  "findRow_from s is key r = Some q \<Longrightarrow>
   r \<le> q \<and> q < length (s_keys s) \<and> (\<forall>d < length is. s_dims s ! d ! q = is ! d)"
proof (induction s "is" key r rule: findRow_from.induct)
  case (1 s "is" key r)
  then show ?case
    by (subst (asm) (2) findRow_from.simps)
       (fastforce simp: list_all_iff split: if_splits)
qed

lemma findRow_from_finds:
  assumes "r \<le> q" "q < length (s_keys s)" "\<forall>j. r \<le> j \<and> j \<le> q \<longrightarrow> s_keys s ! j = key"
    and "\<forall>d < length is. s_dims s ! d ! q = is ! d"
  shows "findRow_from s is key r \<noteq> None"
  using assms
proof (induction s "is" key r rule: findRow_from.induct)
  case (1 s "is" key r)
  have r: "r < length (s_keys s) \<and> s_keys s ! r = key" using "1.prems" by simp
  show ?case
  proof (cases "list_all (\<lambda>d. s_dims s ! d ! r = is ! d) [0..<length is]")
    case True
    with r show ?thesis by (simp add: findRow_from.simps [of s "is" key r])
  next
    case False
    then have "r \<noteq> q" using "1.prems"(4) by (auto simp: list_all_iff)
    then have "findRow_from s is key (r + 1) \<noteq> None"
      using "1.IH" [OF r False] "1.prems" by auto
    with r False show ?thesis by (simp add: findRow_from.simps [of s "is" key r])
  qed
qed

lemma snap_keys_nth:
  "snap_ok sc s \<Longrightarrow> r < srows s \<Longrightarrow>
   s_keys s ! r = packKey (s_shifts s) (take (idx_dims sc) (row_of (s_dims s) r))"
  using snap_okD(2,5) [of sc s] by (auto simp: keys_ok_def)

lemma length_snap_keys: "snap_ok sc s \<Longrightarrow> length (s_keys s) = srows s"
  by (auto simp: keys_ok_def dest!: snap_okD(5))

lemma findRow_iff:
  assumes s: "snap_ok sc s" and "is": "length is = ndims sc"
  shows "findRow s is = Some r \<longleftrightarrow> r < srows s \<and> row_of (s_dims s) r = is"
proof -
  define key where "key = packKey (s_shifts s) (take (idx_dims sc) is)"
  define lo where "lo = sort_search (length (s_keys s)) (\<lambda>i. s_keys s ! i \<ge> key)"
  have find: "findRow s is = findRow_from s is key lo"
    using snap_okD(2) [OF s] by (simp add: findRow_def key_def lo_def Let_def)
  have dims: "length (s_dims s) = ndims sc" using rows_okD(1) [OF snap_okD(4) [OF s]] .
  have eq: "row_of (s_dims s) q = is \<longleftrightarrow> (\<forall>d < length is. s_dims s ! d ! q = is ! d)" for q
    using dims "is" by (auto simp: list_eq_iff_nth_eq)
  have inj: "q = q'" if "q < srows s" "q' < srows s" "row_of (s_dims s) q = row_of (s_dims s) q'" for q q'
    using rows_okD(7) [OF snap_okD(4) [OF s]] that by (auto simp: srows_def)
  have srt: "sorted (s_keys s)" using snap_okD(5) [OF s] unfolding keys_ok_def by blast
  have hit: "findRow_from s is key lo \<noteq> None" if q: "q < srows s" "row_of (s_dims s) q = is" for q
  proof (rule findRow_from_finds)
    have kq: "s_keys s ! q = key" using snap_keys_nth [OF s q(1)] q(2) by (simp add: key_def)
    have bnd: "lo \<le> j \<longleftrightarrow> key \<le> s_keys s ! j" if "j < length (s_keys s)" for j
      unfolding lo_def using that
      by (intro sort_search_iff) (auto dest: sorted_nth_mono [OF srt])
    show "q < length (s_keys s)" using q(1) by (simp add: length_snap_keys [OF s])
    with kq show "lo \<le> q" by (simp add: bnd)
    show "\<forall>j. lo \<le> j \<and> j \<le> q \<longrightarrow> s_keys s ! j = key"
    proof (intro allI impI)
      fix j assume j: "lo \<le> j \<and> j \<le> q"
      then have "key \<le> s_keys s ! j" using bnd [of j] \<open>q < length (s_keys s)\<close> by simp
      moreover have "s_keys s ! j \<le> key"
        using sorted_nth_mono [OF srt, of j q] j \<open>q < length (s_keys s)\<close> kq by simp
      ultimately show "s_keys s ! j = key" by simp
    qed
    show "\<forall>d < length is. s_dims s ! d ! q = is ! d" using eq q(2) by blast
  qed
  show ?thesis
  proof
    assume "findRow s is = Some r"
    then show "r < srows s \<and> row_of (s_dims s) r = is"
      using findRow_from_Some [of s "is" key lo r] find eq by (simp add: length_snap_keys [OF s])
  next
    assume r: "r < srows s \<and> row_of (s_dims s) r = is"
    with hit obtain q where q: "findRow_from s is key lo = Some q" by auto
    with findRow_from_Some [OF q] have "q < srows s \<and> row_of (s_dims s) q = is"
      by (simp add: length_snap_keys [OF s] eq)
    with inj [of q r] r have "q = r" by simp
    with q find show "findRow s is = Some r" by simp
  qed
qed

section \<open>A fresh view\<close>

lemma view_vals_newView:
  assumes "dicts_ok (s_sc s) (s_dicts s)"
  shows "view_vals (newView s) = snap_vals s"
proof (rule nth_equalityI)
  have len: "length (s_dicts s) = ndims (s_sc s)" using assms by (rule dicts_okD(1))
  then show "length (view_vals (newView s)) = length (snap_vals s)" by (simp add: newView_def)
  fix d assume "d < length (view_vals (newView s))"
  with len show "view_vals (newView s) ! d = snap_vals s ! d"
    by (simp add: view_vals_nth) (simp add: newView_def)
qed

lemma view_ok_newView:
  assumes s: "snap_ok sc s" and small: "\<And>d. d < ndims sc \<Longrightarrow> dlen (s_dicts s ! d) < 2 ^ 32"
  shows "view_ok sc (newView s)"
proof -
  have sc: "s_sc s = sc" and ds: "dicts_ok sc (s_dicts s)" using s by (auto dest: snap_okD)
  have "extras_ok sc s (v_extras (newView s))"
    using ds small sc by (auto simp: extras_ok_def newView_def comb_ok_def dicts_ok_def)
  then show ?thesis
    using s sc
    by (auto simp: view_ok_def newView_def emptyDelta_def rows_ok_def index_ok_def over_ok_def
        delta_times_ok_def drows_def)
qed

lemma view_rows_newView: "view_rows (newView s) = map (snap_row s) [0..<srows s]"
  by (simp add: view_rows_def base_rows_def delta_rows_def newView_def emptyDelta_def drows_def)

lemma abs_view_empty: "abs_view (newView (emptySnapshot sc)) = Map.empty"
  by (simp add: abs_view_def view_rows_newView) (simp add: srows_def emptySnapshot_def)

section \<open>The table of a fresh base\<close>

lemma abs_newView_Some:
  assumes "snap_ok sc s" "\<And>d. d < ndims sc \<Longrightarrow> dlen (s_dicts s ! d) < 2 ^ 32"
  shows "abs_view (newView s) key = Some row \<longleftrightarrow>
    (\<exists>r < srows s. key = decode (snap_vals s) (row_of (s_dims s) r) \<and> row = snd (snap_row s r))"
proof -
  have v: "view_ok sc (newView s)" using assms by (rule view_ok_newView)
  have vv: "view_vals (newView s) = snap_vals s"
    using snap_okD(2,3) [OF assms(1)] by (intro view_vals_newView) simp
  have "ids_ok (snap_vals s) (row_of (s_dims s) r)" if "r < srows s" for r
    using that by (auto simp: srows_def intro: rows_okD(6) [OF snap_okD(4) [OF assms(1)]])
  note ids = this
  have rows: "(is, row) \<in> set (map (snap_row s) [0..<srows s]) \<longleftrightarrow>
      (\<exists>r < srows s. is = row_of (s_dims s) r \<and> row = snd (snap_row s r))" for "is"
  proof -
    have "(is, row) = snap_row s r \<longleftrightarrow> is = row_of (s_dims s) r \<and> row = snd (snap_row s r)" for r
      by (simp add: snap_row_def)
    then show ?thesis by fastforce
  qed
  show ?thesis
    unfolding abs_view_Some [OF v] vv view_rows_newView rows
  proof (safe, goal_cases)
    case (2 r)
    then show ?case by (intro exI [of _ "row_of (s_dims s) r"]) (auto simp: ids)
  qed auto
qed

end
