(* ===== verification/Apply.thy ===== *)
theory Apply
  imports View
begin

text \<open>
  \<open>applyDelta\<close> of \<open>view.go\<close>: upserting a batch of records into a copy of the delta. The
  specification \<open>spec_apply\<close> is the same batch on the table a view stands for; the
  refinement says that the columns, dictionaries, index and bitmap of the view follow it
  record by record, errors included.
\<close>

section \<open>Resolving a record's dimensions\<close>

text \<open>
  One dimension of one record: its id in the combined space, whether the base knows the
  value, and the extra dictionary afterwards. \<open>None\<close> is the \<open>ParseInt\<close> error. The code
  clones the extra dictionary before the first insertion of a batch, so that readers of the
  previous view never see it grow; here the previous view keeps its own value.
\<close>

definition resolveDim :: "schema \<Rightarrow> snapshot \<Rightarrow> nat \<Rightarrow> string \<Rightarrow> dict \<Rightarrow> (u32 \<times> bool \<times> dict) option" where
  "resolveDim sc base d sv ext =
     (let baseLen = of_nat (dlen (s_dicts base ! d)) in
      if isInt sc d then
        (case parse_int sv of
           None \<Rightarrow> None
         | Some n64 \<Rightarrow>
             (case lookupN (s_dicts base ! d) n64 of
                Some i \<Rightarrow> Some (i, True, ext)
              | None \<Rightarrow>
                  (case lookupN ext n64 of
                     Some i \<Rightarrow> Some (baseLen + i, False, ext)
                   | None \<Rightarrow>
                       (let (i, ext') = getOrAddN (dict_clone ext) n64
                        in Some (baseLen + i, False, ext')))))
      else
        (case lookup (s_dicts base ! d) sv of
           Some i \<Rightarrow> Some (i, True, ext)
         | None \<Rightarrow>
             (case lookup ext sv of
                Some i \<Rightarrow> Some (baseLen + i, False, ext)
              | None \<Rightarrow>
                  (let (i, ext') = getOrAdd (dict_clone ext) sv
                   in Some (baseLen + i, False, ext')))))"

text \<open>The loop over the dimensions: the id tuple, \<open>allInBase\<close>, and the extras.\<close>

fun resolveDims :: "schema \<Rightarrow> snapshot \<Rightarrow> nat \<Rightarrow> rec \<Rightarrow> nat list \<Rightarrow> dict list
    \<Rightarrow> err + (u32 list \<times> bool \<times> dict list)" where
  "resolveDims sc base n rc [] ex = Inr ([], True, ex)"
| "resolveDims sc base n rc (d # ds) ex =
     (case resolveDim sc base d (rDims rc ! d) (ex ! d) of
        None \<Rightarrow> Inl (ErrRecNonInteger n (rDims rc ! d) (dimName (Dims sc ! d)))
      | Some (i, inBase, e') \<Rightarrow>
          (case resolveDims sc base n rc ds (ex[d := e']) of
             Inl e \<Rightarrow> Inl e
           | Inr (is, allInBase, ex') \<Rightarrow> Inr (i # is, inBase \<and> allInBase, ex')))"

section \<open>Upserting one record\<close>

definition bumpMax :: "i64 \<Rightarrow> delta \<Rightarrow> delta" where
  "bumpMax u d = (if u > d_maxUpdated d then d\<lparr>d_maxUpdated := u\<rparr> else d)"

definition replaceRow :: "nat \<Rightarrow> f64 list \<Rightarrow> i64 \<Rightarrow> i64 \<Rightarrow> delta \<Rightarrow> delta" where
  "replaceRow r ms u e d =
     (if d_updated d ! r \<le> u then
        d\<lparr>d_mets := set_row (d_mets d) r ms,
          d_updated := (d_updated d)[r := u],
          d_expire := (d_expire d)[r := e],
          d_hasExpiry := (if e \<noteq> 0 then True else d_hasExpiry d)\<rparr>
      else d)"

definition appendRow :: "u32 list \<Rightarrow> f64 list \<Rightarrow> i64 \<Rightarrow> i64 \<Rightarrow> delta \<Rightarrow> delta" where
  "appendRow is ms u e d =
     d\<lparr>d_dims := append_row (d_dims d) is,
       d_mets := append_row (d_mets d) ms,
       d_updated := d_updated d @ [u],
       d_expire := d_expire d @ [e],
       d_index := (d_index d)(idKey is \<mapsto> drows d),
       d_hasExpiry := (if e \<noteq> 0 then True else d_hasExpiry d)\<rparr>"

text \<open>
  The body of the record loop. The state is the view under construction and the count of
  dropped records; the base is never written. \<open>None\<close> of \<open>findRow\<close> is its \<open>-1\<close>.
\<close>

definition applyRec :: "schema \<Rightarrow> i64 \<Rightarrow> bool \<Rightarrow> nat \<times> rec \<Rightarrow> view \<times> nat \<Rightarrow> err + (view \<times> nat)" where
  "applyRec sc ttlCutoff capBlocked nr st =
     (let (n, rc) = nr; (nv, dropped) = st; base = v_base nv in
      if length (rDims rc) \<noteq> ndims sc \<or> length (rMetrics rc) \<noteq> nmets sc then Inl (ErrArity n)
      else
        let u = unix_milli (UpdatedAt rc) in
        if u < ttlCutoff then Inr (nv, dropped)
        else
          let e = expireMilli (ExpireAt rc) in
          (case resolveDims sc base n rc [0..<ndims sc] (v_extras nv) of
             Inl er \<Rightarrow> Inl er
           | Inr (is, allInBase, ex) \<Rightarrow>
               let nv1 = nv\<lparr>v_extras := ex\<rparr>; nd2 = v_delta nv1 in
               (case d_index nd2 (idKey is) of
                  Some r \<Rightarrow>
                    Inr (nv1\<lparr>v_delta := bumpMax u (replaceRow r (rMetrics rc) u e nd2)\<rparr>, dropped)
                | None \<Rightarrow>
                    let br = (if allInBase then findRow base is else None) in
                    if (case br of Some b \<Rightarrow> s_updated base ! b > u | None \<Rightarrow> False)
                    then Inr (nv1, dropped)
                    else if capBlocked \<and> br = None then Inr (nv1, dropped + 1)
                    else
                      Inr (nv1\<lparr>v_delta := bumpMax u (appendRow is (rMetrics rc) u e nd2),
                               v_overridden :=
                                 (case br of Some b \<Rightarrow> bitSet (v_overridden nv1) b
                                  | None \<Rightarrow> v_overridden nv1)\<rparr>, dropped))))"

fun applyRecs :: "schema \<Rightarrow> i64 \<Rightarrow> bool \<Rightarrow> (nat \<times> rec) list \<Rightarrow> view \<times> nat \<Rightarrow> err + (view \<times> nat)" where
  "applyRecs sc ttlCutoff capBlocked [] st = Inr st"
| "applyRecs sc ttlCutoff capBlocked (r # rs) st =
     (case applyRec sc ttlCutoff capBlocked r st of
        Inl e \<Rightarrow> Inl e
      | Inr st' \<Rightarrow> applyRecs sc ttlCutoff capBlocked rs st')"

definition allocOver :: "view \<Rightarrow> view" where
  "allocOver v =
     (if v_overridden v = [] \<and> srows (v_base v) > 0
      then v\<lparr>v_overridden := replicate ((srows (v_base v) + 63) div 64) 0\<rparr> else v)"

definition applyDelta :: "schema \<Rightarrow> view \<Rightarrow> rec list \<Rightarrow> i64 \<Rightarrow> bool \<Rightarrow> err + (view \<times> nat)" where
  "applyDelta sc v recs ttlCutoff capBlocked =
     applyRecs sc ttlCutoff capBlocked (zip [0..<length recs] recs) (allocOver v, 0)"

section \<open>The specification: the same batch on a table\<close>

fun canon_dims :: "schema \<Rightarrow> nat \<Rightarrow> rec \<Rightarrow> nat list \<Rightarrow> err + dval list" where
  "canon_dims sc n rc [] = Inr []"
| "canon_dims sc n rc (d # ds) =
     (case canon (isInt sc d) (rDims rc ! d) of
        None \<Rightarrow> Inl (ErrRecNonInteger n (rDims rc ! d) (dimName (Dims sc ! d)))
      | Some x \<Rightarrow> (case canon_dims sc n rc ds of Inl e \<Rightarrow> Inl e | Inr xs \<Rightarrow> Inr (x # xs)))"

definition rec_row :: "rec \<Rightarrow> arow" where
  "rec_row rc = \<lparr>a_mets = rMetrics rc, a_upd = unix_milli (UpdatedAt rc),
                 a_exp = expireMilli (ExpireAt rc)\<rparr>"

text \<open>
  Upserting into the table: a newer row stays, an equal or older one is replaced whole, and
  a tuple the table does not hold is added unless the row cap blocks it.
\<close>

definition spec_upsert :: "bool \<Rightarrow> dval list \<Rightarrow> arow \<Rightarrow> (dval list \<rightharpoonup> arow) \<times> nat \<Rightarrow> (dval list \<rightharpoonup> arow) \<times> nat" where
  "spec_upsert capBlocked key row st =
     (case fst st key of
        Some old \<Rightarrow> if a_upd old \<le> a_upd row then ((fst st)(key \<mapsto> row), snd st) else st
      | None \<Rightarrow> if capBlocked then (fst st, snd st + 1) else ((fst st)(key \<mapsto> row), snd st))"

definition spec_rec :: "schema \<Rightarrow> i64 \<Rightarrow> bool \<Rightarrow> nat \<times> rec \<Rightarrow> (dval list \<rightharpoonup> arow) \<times> nat
    \<Rightarrow> err + ((dval list \<rightharpoonup> arow) \<times> nat)" where
  "spec_rec sc ttlCutoff capBlocked nr st =
     (let (n, rc) = nr in
      if length (rDims rc) \<noteq> ndims sc \<or> length (rMetrics rc) \<noteq> nmets sc then Inl (ErrArity n)
      else if unix_milli (UpdatedAt rc) < ttlCutoff then Inr st
      else case canon_dims sc n rc [0..<ndims sc] of
        Inl e \<Rightarrow> Inl e
      | Inr key \<Rightarrow> Inr (spec_upsert capBlocked key (rec_row rc) st))"

fun spec_recs :: "schema \<Rightarrow> i64 \<Rightarrow> bool \<Rightarrow> (nat \<times> rec) list \<Rightarrow> (dval list \<rightharpoonup> arow) \<times> nat
    \<Rightarrow> err + ((dval list \<rightharpoonup> arow) \<times> nat)" where
  "spec_recs sc ttlCutoff capBlocked [] st = Inr st"
| "spec_recs sc ttlCutoff capBlocked (r # rs) st =
     (case spec_rec sc ttlCutoff capBlocked r st of
        Inl e \<Rightarrow> Inl e
      | Inr st' \<Rightarrow> spec_recs sc ttlCutoff capBlocked rs st')"

definition spec_apply :: "schema \<Rightarrow> (dval list \<rightharpoonup> arow) \<Rightarrow> rec list \<Rightarrow> i64 \<Rightarrow> bool
    \<Rightarrow> err + ((dval list \<rightharpoonup> arow) \<times> nat)" where
  "spec_apply sc A recs ttlCutoff capBlocked =
     spec_recs sc ttlCutoff capBlocked (zip [0..<length recs] recs) (A, 0)"

section \<open>Resolving is interning in the combined id space\<close>

definition resolve_val :: "dict \<Rightarrow> dict \<Rightarrow> dval \<Rightarrow> u32 \<times> bool \<times> dict" where
  "resolve_val b e x =
     (case dict_find b x of
        Some i \<Rightarrow> (i, True, e)
      | None \<Rightarrow> let (i, e') = dict_add e x in (of_nat (dlen b) + i, False, e'))"

lemma resolveDim_val:
  assumes "numeric (s_dicts base ! d) = isInt sc d" "numeric ext = isInt sc d"
  shows "resolveDim sc base d sv ext =
    map_option (resolve_val (s_dicts base ! d) ext) (canon (isInt sc d) sv)"
  using assms
  by (auto simp: resolveDim_def resolve_val_def canon_def dict_add_def getOrAdd_def getOrAddN_def
      lookup_def lookupN_def Let_def split: option.splits)

lemma resolve_val_spec:
  assumes c: "comb_ok b e" and x: "val_fits (numeric e) x" and len: "dlen b + dlen e + 1 < 2 ^ 32"
    and r: "resolve_val b e x = (i, inb, e')"
  shows "comb_ok b e'" "numeric e' = numeric e"
    "dict_vals e' = dict_vals e \<or> dict_vals e' = dict_vals e @ [x]"
    "unat i < dlen b + dlen e'" "(dict_vals b @ dict_vals e') ! unat i = x"
    "inb \<longleftrightarrow> unat i < dlen b"
proof -
  have b: "dict_ok b" and e: "dict_ok e" using c by (auto simp: comb_ok_def)
  have "comb_ok b e' \<and> numeric e' = numeric e \<and>
    (dict_vals e' = dict_vals e \<or> dict_vals e' = dict_vals e @ [x]) \<and>
    unat i < dlen b + dlen e' \<and> (dict_vals b @ dict_vals e') ! unat i = x \<and> (inb \<longleftrightarrow> unat i < dlen b)"
  proof (cases "dict_find b x")
    case (Some j)
    with r c show ?thesis by (auto simp: resolve_val_def nth_append dict_okD(2) [OF b])
  next
    case None
    then obtain k where k: "dict_add e x = (k, e')" "i = of_nat (dlen b) + k" "\<not> inb"
      using r by (auto simp: resolve_val_def split: prod.splits)
    note spec = dict_add_spec [OF e x _ k(1)]
    have len': "dlen e' \<le> dlen e + 1"
      using spec(4) len by (auto dest: arg_cong [where f = length])
    have k': "unat k < dlen e'" "dict_vals e' ! unat k = x" using spec(6,7) len by auto
    have i: "unat i = dlen b + unat k"
      unfolding k(2) using k' len len' by (intro unat_comb_id) linarith
    have "x \<notin> set (dict_vals b)" using None by (simp add: dict_find_None b)
    then have "comb_ok b e'"
      using spec(1,2,4) c len len' by (auto simp: comb_ok_def)
    with spec(2,4) k k' i len show ?thesis by (auto simp: nth_append)
  qed
  then show "comb_ok b e'" "numeric e' = numeric e"
    "dict_vals e' = dict_vals e \<or> dict_vals e' = dict_vals e @ [x]"
    "unat i < dlen b + dlen e'" "(dict_vals b @ dict_vals e') ! unat i = x"
    "inb \<longleftrightarrow> unat i < dlen b" by auto
qed

text \<open>
  The state of the resolution after some dimensions: extras grown by at most one value each,
  on those dimensions only, and every id naming its value.
\<close>

definition resolved :: "snapshot \<Rightarrow> nat list \<Rightarrow> dict list \<Rightarrow> dict list \<Rightarrow> u32 list \<Rightarrow> dval list \<Rightarrow> bool \<Rightarrow> bool" where
  "resolved base ds ex ex' is xs allb \<longleftrightarrow>
     length is = length ds \<and> length xs = length ds \<and> length ex' = length ex \<and>
     (\<forall>d < length ex. \<exists>t. dict_vals (ex' ! d) = dict_vals (ex ! d) @ t \<and> length t \<le> 1) \<and>
     (\<forall>d < length ex. d \<notin> set ds \<longrightarrow> ex' ! d = ex ! d) \<and>
     (\<forall>k < length ds. unat (is ! k) < dlen (s_dicts base ! (ds ! k)) + dlen (ex' ! (ds ! k)) \<and>
        (dict_vals (s_dicts base ! (ds ! k)) @ dict_vals (ex' ! (ds ! k))) ! unat (is ! k) = xs ! k) \<and>
     (allb \<longleftrightarrow> (\<forall>k < length ds. unat (is ! k) < dlen (s_dicts base ! (ds ! k))))"

lemma extras_ok_update:
  assumes "extras_ok sc base ex" "d < ndims sc" "comb_ok (s_dicts base ! d) e'"
    and "numeric e' = numeric (ex ! d)"
  shows "extras_ok sc base (ex[d := e'])"
  using assms by (auto simp: extras_ok_def nth_list_update)

lemma resolved_Cons:
  assumes "length is = length ds" "d \<notin> set ds" "d < length ex"
    and "dict_vals e' = dict_vals (ex ! d) \<or> dict_vals e' = dict_vals (ex ! d) @ [x]"
    and "unat i < dlen (s_dicts base ! d) + dlen e'"
    and "(dict_vals (s_dicts base ! d) @ dict_vals e') ! unat i = x"
    and "inb \<longleftrightarrow> unat i < dlen (s_dicts base ! d)"
    and "resolved base ds (ex[d := e']) ex' is xs allb"
  shows "resolved base (d # ds) ex ex' (i # is) (x # xs) (inb \<and> allb)"
proof -
  have d: "ex' ! d = e'" using assms(2,3,8) by (simp add: resolved_def)
  have "\<exists>t. dict_vals (ex' ! k) = dict_vals (ex ! k) @ t \<and> length t \<le> 1" if k: "k < length ex" for k
  proof (cases "k = d")
    case True
    with assms(4) d show ?thesis by auto
  next
    case False
    with assms(8) k have "\<exists>t. dict_vals (ex' ! k) = dict_vals (ex[d := e'] ! k) @ t \<and> length t \<le> 1"
      unfolding resolved_def length_list_update by blast
    with False show ?thesis by simp
  qed
  then show ?thesis
    using assms d unfolding resolved_def by (auto simp: less_Suc_eq_0_disj)
qed

lemma resolveDims_spec:
  assumes "dicts_ok sc (s_dicts base)" "extras_ok sc base ex"
    and "distinct ds" "\<forall>d \<in> set ds. d < ndims sc"
    and "\<forall>d \<in> set ds. dlen (s_dicts base ! d) + dlen (ex ! d) + 1 < 2 ^ 32"
  shows "case resolveDims sc base n rc ds ex of
      Inl er \<Rightarrow> canon_dims sc n rc ds = Inl er
    | Inr (is, allb, ex') \<Rightarrow> \<exists>xs. canon_dims sc n rc ds = Inr xs \<and> extras_ok sc base ex' \<and>
        resolved base ds ex ex' is xs allb"
  using assms
proof (induction ds arbitrary: ex)
  case Nil
  then show ?case by (auto simp: resolved_def)
next
  case (Cons d ds)
  have d: "d < ndims sc" "d \<notin> set ds" using Cons.prems by auto
  have ex: "length ex = ndims sc" "comb_ok (s_dicts base ! d) (ex ! d)" "numeric (ex ! d) = isInt sc d"
    using Cons.prems(2) d(1) by (auto dest: extras_okD)
  have nb: "numeric (s_dicts base ! d) = isInt sc d" using Cons.prems(1) d(1) by (auto dest: dicts_okD)
  note rd = resolveDim_val [OF nb ex(3), of "rDims rc ! d"]
  show ?case
  proof (cases "canon (isInt sc d) (rDims rc ! d)")
    case None
    then show ?thesis by (simp add: rd)
  next
    case (Some x)
    obtain i inb e' where r: "resolve_val (s_dicts base ! d) (ex ! d) x = (i, inb, e')"
      by (cases "resolve_val (s_dicts base ! d) (ex ! d) x")
    have fits: "val_fits (numeric (ex ! d)) x" using canon_fits [OF Some] ex(3) by simp
    have len: "dlen (s_dicts base ! d) + dlen (ex ! d) + 1 < 2 ^ 32" using Cons.prems(5) by simp
    note spec = resolve_val_spec [OF ex(2) fits len r]
    have ok1: "extras_ok sc base (ex[d := e'])"
      using Cons.prems(2) d(1) spec(1,2) by (rule extras_ok_update)
    have IH: "case resolveDims sc base n rc ds (ex[d := e']) of
        Inl er \<Rightarrow> canon_dims sc n rc ds = Inl er
      | Inr (is, allb, ex') \<Rightarrow> \<exists>xs. canon_dims sc n rc ds = Inr xs \<and> extras_ok sc base ex' \<and>
          resolved base ds (ex[d := e']) ex' is xs allb"
      using Cons.prems d ex(1) ok1 by (intro Cons.IH) (auto simp: nth_list_update)
    show ?thesis
    proof (cases "resolveDims sc base n rc ds (ex[d := e'])")
      case (Inl er)
      with IH Some r show ?thesis by (simp add: rd)
    next
      case (Inr res)
      obtain "is" allb ex' where res: "res = (is, allb, ex')" by (cases res)
      with IH Inr obtain xs where xs: "canon_dims sc n rc ds = Inr xs" "extras_ok sc base ex'"
        "resolved base ds (ex[d := e']) ex' is xs allb" by auto
      have "resolved base (d # ds) ex ex' (i # is) (x # xs) (inb \<and> allb)"
        using d ex(1) spec xs(3) by (intro resolved_Cons) (auto simp: resolved_def)
      with Inr res Some r xs show ?thesis by (simp add: rd)
    qed
  qed
qed

section \<open>Growing the extras leaves the table as it is\<close>

definition comb_vals :: "snapshot \<Rightarrow> dict list \<Rightarrow> dval list list" where
  "comb_vals base ex = map2 (\<lambda>b e. dict_vals b @ dict_vals e) (s_dicts base) ex"

lemma view_vals_comb: "view_vals v = comb_vals (v_base v) (v_extras v)"
  by (simp add: view_vals_def comb_vals_def)

lemma comb_vals_nth:
  "d < length (s_dicts base) \<Longrightarrow> d < length ex \<Longrightarrow>
   comb_vals base ex ! d = dict_vals (s_dicts base ! d) @ dict_vals (ex ! d)"
  by (simp add: comb_vals_def)

lemma length_comb_vals [simp]: "length (comb_vals base ex) = min (length (s_dicts base)) (length ex)"
  by (simp add: comb_vals_def)

text \<open>All dimensions of one record resolved.\<close>

lemma resolved_all:
  assumes r: "resolved base [0..<nd] ex ex' is xs allb"
    and len: "length (s_dicts base) = nd" "length ex = nd"
  shows "ids_ok (comb_vals base ex') is" "decode (comb_vals base ex') is = xs"
    "extends (comb_vals base ex) (comb_vals base ex')" "length is = nd"
    "\<And>d. d < nd \<Longrightarrow> dlen (ex' ! d) \<le> dlen (ex ! d) + 1"
    "allb \<longleftrightarrow> ids_ok (snap_vals base) is"
proof -
  have ex': "length ex' = nd" and "is": "length is = nd" "length xs = nd"
    and at: "\<And>k. k < nd \<Longrightarrow> unat (is ! k) < dlen (s_dicts base ! k) + dlen (ex' ! k) \<and>
        (dict_vals (s_dicts base ! k) @ dict_vals (ex' ! k)) ! unat (is ! k) = xs ! k"
    and all: "allb \<longleftrightarrow> (\<forall>k < nd. unat (is ! k) < dlen (s_dicts base ! k))"
    and grow: "\<And>d. d < nd \<Longrightarrow> \<exists>t. dict_vals (ex' ! d) = dict_vals (ex ! d) @ t \<and> length t \<le> 1"
    using r len(2) unfolding resolved_def by auto
  show "length is = nd" by (rule "is")
  show "ids_ok (comb_vals base ex') is"
    using ex' "is" at len by (intro ids_okI) (simp_all add: comb_vals_nth)
  show "decode (comb_vals base ex') is = xs"
    using ex' "is" at len by (intro nth_equalityI) (simp_all add: decode_nth comb_vals_nth)
  show "extends (comb_vals base ex) (comb_vals base ex')"
    unfolding extends_def list_all2_conv_all_nth
  proof (intro conjI allI impI)
    show "length (comb_vals base ex) = length (comb_vals base ex')" using ex' len by simp
    fix d assume "d < length (comb_vals base ex)"
    then have "d < nd" using len by simp
    then show "\<exists>t. comb_vals base ex' ! d = comb_vals base ex ! d @ t"
      using grow [of d] ex' len by (auto simp: comb_vals_nth)
  qed
  show "dlen (ex' ! d) \<le> dlen (ex ! d) + 1" if "d < nd" for d
    using grow [OF that] by (auto dest: arg_cong [where f = length])
  show "allb \<longleftrightarrow> ids_ok (snap_vals base) is"
    using all "is" len by (auto simp: ids_ok_def list_all2_conv_all_nth)
qed

lemma view_ok_extras:
  assumes v: "view_ok sc v" and ex: "extras_ok sc (v_base v) ex'"
    and ext: "extends (view_vals v) (comb_vals (v_base v) ex')"
  shows "view_ok sc (v\<lparr>v_extras := ex'\<rparr>)" "abs_view (v\<lparr>v_extras := ex'\<rparr>) = abs_view v"
proof -
  let ?v = "v\<lparr>v_extras := ex'\<rparr>"
  have vals: "view_vals ?v = comb_vals (v_base v) ex'" by (simp add: view_vals_comb)
  have rows: "view_rows ?v = view_rows v"
    by (simp add: view_rows_def base_rows_def delta_rows_def)
  have "rows_ok sc (view_vals ?v) (d_dims (v_delta v)) (d_mets (v_delta v))
      (d_updated (v_delta v)) (d_expire (v_delta v))"
    using view_okD(3) [OF v] ext by (auto simp: rows_ok_def vals intro: extends_ids_ok)
  then show "view_ok sc ?v"
    using v ex by (auto simp: view_ok_def over_ok_def)
  show "abs_view ?v = abs_view v"
    unfolding abs_view_def rows
    by (intro arg_cong [where f = map_of] map_cong refl)
       (auto simp: vals extends_decode [OF ext] dest: view_rows_ids_ok [OF v])
qed

section \<open>Writing one row\<close>

text \<open>Changing the row of one id tuple changes the table at the values of that tuple.\<close>

lemma abs_view_update:
  assumes v: "view_ok sc v" and v': "view_ok sc v'" and vals: "view_vals v' = view_vals v"
    and ok: "ids_ok (view_vals v) is" and tab: "id_table v' = (id_table v)(is \<mapsto> row)"
  shows "abs_view v' = (abs_view v)(decode (view_vals v) is \<mapsto> row)"
proof
  fix key
  show "abs_view v' key = ((abs_view v)(decode (view_vals v) is \<mapsto> row)) key"
  proof (cases "\<exists>js. ids_ok (view_vals v) js \<and> key = decode (view_vals v) js")
    case True
    then obtain js where js: "ids_ok (view_vals v) js" "key = decode (view_vals v) js" by auto
    have "decode (view_vals v) js = decode (view_vals v) is \<longleftrightarrow> js = is"
      using decode_inj [OF view_vals_distinct [OF v] js(1) ok] by auto
    moreover have "abs_view v' key = id_table v' js"
      using abs_view_decode [OF v', of js] js by (simp add: vals)
    moreover have "abs_view v key = id_table v js" using abs_view_decode [OF v] js by simp
    ultimately show ?thesis by (simp add: js(2) tab)
  next
    case False
    then have "abs_view v' key = None" "abs_view v key = None"
      using abs_view_Some [OF v, of key] abs_view_Some [OF v', of key]
      by (auto simp: vals not_Some_eq [symmetric] simp del: not_Some_eq)
    with False ok show ?thesis by auto
  qed
qed

lemma id_table_Some:
  "view_ok sc v \<Longrightarrow> id_table v is = Some row \<longleftrightarrow> (is, row) \<in> set (view_rows v)"
  unfolding id_table_def by (rule map_of_eq_Some_iff) (rule view_rows_distinct)

lemma id_table_eqI:
  assumes "view_ok sc v" "view_ok sc v'"
    and "\<And>js row'. (js, row') \<in> set (view_rows v') \<longleftrightarrow>
       (if js = is then row' = row else (js, row') \<in> set (view_rows v))"
  shows "id_table v' = (id_table v)(is \<mapsto> row)"
proof
  fix js
  have "id_table v' js = Some row' \<longleftrightarrow> ((id_table v)(is \<mapsto> row)) js = Some row'" for row'
    using assms by (auto simp: id_table_Some)
  then show "id_table v' js = ((id_table v)(is \<mapsto> row)) js" by (metis not_Some_eq)
qed

lemma bumpMax_simps [simp]:
  "d_dims (bumpMax u d) = d_dims d" "d_mets (bumpMax u d) = d_mets d"
  "d_updated (bumpMax u d) = d_updated d" "d_expire (bumpMax u d) = d_expire d"
  "d_index (bumpMax u d) = d_index d" "d_hasExpiry (bumpMax u d) = d_hasExpiry d"
  "d_maxUpdated (bumpMax u d) = max (d_maxUpdated d) u"
  by (auto simp: bumpMax_def)

lemma drows_bumpMax [simp]: "drows (bumpMax u d) = drows d"
  by (simp add: drows_def)

lemma replaceRow_simps:
  assumes "d_updated d ! r \<le> u"
  shows "d_dims (replaceRow r ms u e d) = d_dims d"
    "d_mets (replaceRow r ms u e d) = set_row (d_mets d) r ms"
    "d_updated (replaceRow r ms u e d) = (d_updated d)[r := u]"
    "d_expire (replaceRow r ms u e d) = (d_expire d)[r := e]"
    "d_index (replaceRow r ms u e d) = d_index d"
    "d_hasExpiry (replaceRow r ms u e d) = (e \<noteq> 0 \<or> d_hasExpiry d)"
    "d_maxUpdated (replaceRow r ms u e d) = d_maxUpdated d"
    "drows (replaceRow r ms u e d) = drows d"
  using assms by (auto simp: replaceRow_def drows_def)

lemma replace_times_ok:
  assumes t: "delta_times_ok d" and r: "r < drows d" and u: "d_updated d ! r \<le> u"
    and len: "length (d_expire d) = drows d"
  shows "delta_times_ok (bumpMax u (replaceRow r ms u e d))"
proof -
  have max: "d_maxUpdated d = 0 \<or> d_maxUpdated d \<in> set (d_updated d)"
    and le: "\<forall>x \<in> set (d_updated d). x \<le> d_maxUpdated d" "0 \<le> d_maxUpdated d"
    using t by (auto simp: delta_times_ok_def)
  have mem: "u \<in> set ((d_updated d)[r := u])" using r by (simp add: drows_def set_update_memI)
  have "x \<in> set ((d_updated d)[r := u])" if x: "x \<in> set (d_updated d)" "u < x" for x
  proof -
    obtain q where q: "q < drows d" "d_updated d ! q = x" using x(1) by (auto simp: in_set_conv_nth drows_def)
    with u x(2) have "q \<noteq> r" by auto
    with q have "(d_updated d)[r := u] ! q = x" by simp
    with q(1) show ?thesis by (metis drows_def length_list_update nth_mem)
  qed
  with max le mem have "max (d_maxUpdated d) u = 0 \<or> max (d_maxUpdated d) u \<in> set ((d_updated d)[r := u])"
    by (auto simp: max_def)
  moreover have "\<forall>x \<in> set ((d_updated d)[r := u]). x \<le> max (d_maxUpdated d) u"
    using le(1) set_update_subset_insert [of "d_updated d" r u] by fastforce
  moreover have "\<exists>x \<in> set (d_expire d). x \<noteq> 0" if "x \<in> set ((d_expire d)[r := e])" "x \<noteq> 0" "e = 0" for x
    using that set_update_subset_insert [of "d_expire d" r e] by blast
  ultimately show ?thesis
    using t le(2) by (auto simp: delta_times_ok_def replaceRow_simps [OF u])
qed

lemma index_row:
  assumes "view_ok sc v" "d_index (v_delta v) (idKey is) = Some r"
  shows "r < drows (v_delta v)" "row_of (d_dims (v_delta v)) r = is"
  using view_okD(4) [OF assms(1)] assms(2) by (auto simp: index_ok_def)

lemma view_ok_replace:
  assumes v: "view_ok sc v" and idx: "d_index (v_delta v) (idKey is) = Some r"
    and u: "d_updated (v_delta v) ! r \<le> u" and ok: "length ms = nmets sc" "i64_ok u" "i64_ok e"
  defines "v' \<equiv> v\<lparr>v_delta := bumpMax u (replaceRow r ms u e (v_delta v))\<rparr>"
  shows "view_ok sc v'"
proof -
  let ?d = "v_delta v" and ?d' = "v_delta v'"
  have r: "r < drows ?d" by (rule index_row [OF v idx])
  note old = view_okD(3) [OF v]
  have d': "d_dims ?d' = d_dims ?d" "d_mets ?d' = set_row (d_mets ?d) r ms"
    "d_updated ?d' = (d_updated ?d)[r := u]" "d_expire ?d' = (d_expire ?d)[r := e]"
    "d_index ?d' = d_index ?d" "drows ?d' = drows ?d"
    using u by (simp_all add: v'_def replaceRow_simps)
  have "set ((d_updated ?d)[r := u]) \<subseteq> insert u (set (d_updated ?d))"
    and "set ((d_expire ?d)[r := e]) \<subseteq> insert e (set (d_expire ?d))"
    by (rule set_update_subset_insert)+
  moreover have "view_vals v' = view_vals v" by (simp add: v'_def view_vals_def)
  ultimately have "rows_ok sc (view_vals v') (d_dims ?d') (d_mets ?d') (d_updated ?d') (d_expire ?d')"
    using old ok unfolding rows_ok_def d' by (auto simp: column_simps)
  moreover have "delta_times_ok ?d'"
    using replace_times_ok [OF view_okD(6) [OF v] r u] rows_okD(5) [OF old]
    by (simp add: v'_def drows_def)
  moreover have "index_ok ?d'" using view_okD(4) [OF v] by (simp add: index_ok_def d')
  moreover have "over_ok v'"
    using view_okD(5) [OF v] d' unfolding over_ok_def by (simp add: v'_def)
  ultimately show ?thesis using view_okD(1,2) [OF v] by (simp add: view_ok_def v'_def)
qed

lemma delta_row_replace:
  assumes v: "view_ok sc v" and idx: "d_index (v_delta v) (idKey is) = Some r"
    and u: "d_updated (v_delta v) ! r \<le> u" and ms: "length ms = nmets sc" and q: "q < drows (v_delta v)"
  shows "delta_row (bumpMax u (replaceRow r ms u e (v_delta v))) q =
    (if q = r then (is, \<lparr>a_mets = ms, a_upd = u, a_exp = e\<rparr>) else delta_row (v_delta v) q)"
  using rows_okD [OF view_okD(3) [OF v]] index_row [OF v idx] ms q
  by (auto simp: delta_row_def replaceRow_simps [OF u] row_of_set_row drows_def)

lemma abs_view_replace:
  assumes v: "view_ok sc v" and idx: "d_index (v_delta v) (idKey is) = Some r"
    and u: "d_updated (v_delta v) ! r \<le> u" and ok: "length ms = nmets sc" "i64_ok u" "i64_ok e"
  defines "v' \<equiv> v\<lparr>v_delta := bumpMax u (replaceRow r ms u e (v_delta v))\<rparr>"
  shows "abs_view v' = (abs_view v)(decode (view_vals v) is \<mapsto> \<lparr>a_mets = ms, a_upd = u, a_exp = e\<rparr>)"
proof (rule abs_view_update [OF v])
  note ir = index_row [OF v idx]
  show v': "view_ok sc v'" unfolding v'_def by (rule view_ok_replace [OF v idx u ok])
  show "view_vals v' = view_vals v" by (simp add: v'_def view_vals_def)
  show "ids_ok (view_vals v) is" using delta_row_ids_ok [OF v ir(1)] ir(2) by simp
  have base: "base_rows v' = base_rows v" by (simp add: v'_def base_rows_def)
  have dr: "delta_rows v' = map (\<lambda>q. if q = r then (is, \<lparr>a_mets = ms, a_upd = u, a_exp = e\<rparr>)
      else delta_row (v_delta v) q) [0..<drows (v_delta v)]"
    unfolding delta_rows_def v'_def
    by (auto simp: replaceRow_simps [OF u] delta_row_replace [OF v idx u ok(1)] intro!: map_cong)
  have dist: "distinct (map fst (view_rows v))" by (rule view_rows_distinct [OF v])
  have old: "(is, snd (delta_row (v_delta v) r)) \<in> set (delta_rows v)"
    using ir by (auto simp: delta_rows_def delta_row_def image_iff)
  have keyq: "row_of (d_dims (v_delta v)) q = is \<longleftrightarrow> q = r" if "q < drows (v_delta v)" for q
    using rows_okD(7) [OF view_okD(3) [OF v], of q r] ir that by (auto simp: drows_def)
  have nb: "(is, row') \<notin> set (base_rows v)" for row'
    using dist old by (force simp: view_rows_def)
  show "id_table v' = (id_table v)(is \<mapsto> \<lparr>a_mets = ms, a_upd = u, a_exp = e\<rparr>)"
  proof (rule id_table_eqI [OF v v'])
    fix js row'
    let ?R = "\<lparr>a_mets = ms, a_upd = u, a_exp = e\<rparr>"
    have mem: "(js, row') \<in> set (delta_rows v') \<longleftrightarrow>
        (\<exists>q < drows (v_delta v). (js, row') = (if q = r then (is, ?R) else delta_row (v_delta v) q))"
      unfolding dr set_map set_upt image_iff Bex_def by simp
    have "(js, row') \<in> set (delta_rows v') \<longleftrightarrow>
        (if js = is then row' = ?R else (js, row') \<in> set (delta_rows v))"
    proof (cases "js = is")
      case True
      have "(is, row') \<noteq> delta_row (v_delta v) q" if "q < drows (v_delta v)" "q \<noteq> r" for q
        using keyq [OF that(1)] that(2) by (auto simp: delta_row_def)
      then show ?thesis using ir(1) unfolding mem unfolding True by (auto split: if_splits)
    next
      case False
      have "(js, row') \<noteq> delta_row (v_delta v) r" using False ir(2) by (auto simp: delta_row_def)
      with False show ?thesis unfolding mem delta_rows_def [of v] by auto
    qed
    then show "(js, row') \<in> set (view_rows v') \<longleftrightarrow>
       (if js = is then row' = \<lparr>a_mets = ms, a_upd = u, a_exp = e\<rparr> else (js, row') \<in> set (view_rows v))"
      using nb by (auto simp: view_rows_def base)
  qed
qed

lemma appendRow_simps [simp]:
  "d_dims (appendRow is ms u e d) = append_row (d_dims d) is"
  "d_mets (appendRow is ms u e d) = append_row (d_mets d) ms"
  "d_updated (appendRow is ms u e d) = d_updated d @ [u]"
  "d_expire (appendRow is ms u e d) = d_expire d @ [e]"
  "d_index (appendRow is ms u e d) = (d_index d)(idKey is \<mapsto> drows d)"
  "d_hasExpiry (appendRow is ms u e d) = (e \<noteq> 0 \<or> d_hasExpiry d)"
  "d_maxUpdated (appendRow is ms u e d) = d_maxUpdated d"
  "drows (appendRow is ms u e d) = Suc (drows d)"
  by (auto simp: appendRow_def drows_def)

lemma append_times_ok:
  "delta_times_ok d \<Longrightarrow> delta_times_ok (bumpMax u (appendRow is ms u e d))"
  by (auto simp: delta_times_ok_def max_def)

text \<open>The base row of an id tuple, found or not.\<close>

definition base_match :: "snapshot \<Rightarrow> u32 list \<Rightarrow> nat option" where
  "base_match base is = (if ids_ok (snap_vals base) is then findRow base is else None)"

lemma base_match_iff:
  assumes v: "view_ok sc v" and len: "length is = ndims sc"
  shows "base_match (v_base v) is = Some b \<longleftrightarrow>
    b < srows (v_base v) \<and> row_of (s_dims (v_base v)) b = is"
  using findRow_iff [OF view_okD(1) [OF v] len, of b] base_row_ids_ok(1) [OF v, of b]
  by (auto simp: base_match_def)

definition over_alloc :: "view \<Rightarrow> bool" where
  "over_alloc v \<longleftrightarrow> (0 < srows (v_base v) \<longrightarrow>
     length (v_overridden v) = (srows (v_base v) + 63) div 64)"

definition appendView :: "view \<Rightarrow> u32 list \<Rightarrow> f64 list \<Rightarrow> i64 \<Rightarrow> i64 \<Rightarrow> nat option \<Rightarrow> view" where
  "appendView v is ms u e br =
     v\<lparr>v_delta := bumpMax u (appendRow is ms u e (v_delta v)),
       v_overridden := (case br of Some b \<Rightarrow> bitSet (v_overridden v) b | None \<Rightarrow> v_overridden v)\<rparr>"

lemma appendView_simps [simp]:
  "v_base (appendView v is ms u e br) = v_base v"
  "v_extras (appendView v is ms u e br) = v_extras v"
  "view_vals (appendView v is ms u e br) = view_vals v"
  by (simp_all add: appendView_def view_vals_def)

lemma index_none:
  assumes "view_ok sc v" "d_index (v_delta v) (idKey is) = None" "q < drows (v_delta v)"
  shows "row_of (d_dims (v_delta v)) q \<noteq> is"
proof
  assume "row_of (d_dims (v_delta v)) q = is"
  then have "d_index (v_delta v) (idKey is) = Some q"
    using view_okD(4) [OF assms(1)] assms(3) unfolding index_ok_def by blast
  with assms(2) show False by simp
qed

lemma index_none_row:
  assumes "view_ok sc v" "d_index (v_delta v) (idKey is) = None" "x \<in> set (delta_rows v)"
  shows "fst x \<noteq> is"
proof -
  obtain q where "q < drows (v_delta v)" "x = delta_row (v_delta v) q"
    using assms(3) by (auto simp: delta_rows_def)
  with index_none [OF assms(1,2)] show ?thesis by (simp add: delta_row_def)
qed

lemma append_over:
  assumes v: "view_ok sc v" and alloc: "over_alloc v" and len: "length is = ndims sc"
    and r: "r < srows (v_base v)"
  shows "bitGet (v_overridden (appendView v is ms u e (base_match (v_base v) is))) r \<longleftrightarrow>
    bitGet (v_overridden v) r \<or> row_of (s_dims (v_base v)) r = is"
proof (cases "base_match (v_base v) is")
  case None
  then have "row_of (s_dims (v_base v)) r \<noteq> is"
    using base_match_iff [OF v len, of r] r by auto
  with None show ?thesis by (simp add: appendView_def)
next
  case (Some b)
  then have b: "b < srows (v_base v)" "row_of (s_dims (v_base v)) b = is"
    using base_match_iff [OF v len] by auto
  have "row_of (s_dims (v_base v)) r = is \<longleftrightarrow> r = b"
    using rows_okD(7) [OF snap_okD(4) [OF view_okD(1) [OF v]], of r b] b r by (auto simp: srows_def)
  moreover have "b div 64 < length (v_overridden v)"
    using alloc b(1) bitmap_word [OF b(1)] by (simp add: over_alloc_def)
  ultimately show ?thesis using Some by (auto simp: appendView_def bitGet_bitSet)
qed

lemma append_rows_of:
  assumes v: "view_ok sc v" and len: "length is = ndims sc" "length ms = nmets sc"
    and q: "q \<le> drows (v_delta v)"
  shows "row_of (append_row (d_dims (v_delta v)) is) q =
      (if q = drows (v_delta v) then is else row_of (d_dims (v_delta v)) q)"
    and "delta_row (bumpMax u (appendRow is ms u e (v_delta v))) q =
      (if q = drows (v_delta v) then (is, \<lparr>a_mets = ms, a_upd = u, a_exp = e\<rparr>)
       else delta_row (v_delta v) q)"
  using rows_okD(1-5) [OF view_okD(3) [OF v]] len q
  by (auto simp: delta_row_def drows_def row_of_append_row_old row_of_append_row_new nth_append)

lemma view_ok_append:
  assumes v: "view_ok sc v" and alloc: "over_alloc v" and idx: "d_index (v_delta v) (idKey is) = None"
    and ids: "ids_ok (view_vals v) is" and ok: "length ms = nmets sc" "i64_ok u" "i64_ok e"
  shows "view_ok sc (appendView v is ms u e (base_match (v_base v) is))"
proof -
  let ?v = "appendView v is ms u e (base_match (v_base v) is)"
  let ?d = "v_delta v" and ?d' = "v_delta ?v"
  have len: "length is = ndims sc" using ids_okD(1) [OF ids] view_ok_lengths [OF v] by simp
  note old = view_okD(3) [OF v]
  note old' = rows_okD(1-5) [OF old]
  note rows = append_rows_of(1) [OF v len ok(1)]
  have d': "d_dims ?d' = append_row (d_dims ?d) is" "d_mets ?d' = append_row (d_mets ?d) ms"
    "d_updated ?d' = d_updated ?d @ [u]" "d_expire ?d' = d_expire ?d @ [e]"
    "d_index ?d' = (d_index ?d)(idKey is \<mapsto> drows ?d)" "drows ?d' = Suc (drows ?d)"
    by (simp_all add: appendView_def)
  have new: "row_of (d_dims ?d) q \<noteq> is" if "q < drows ?d" for q by (rule index_none [OF v idx that])
  have "distinct (map (row_of (append_row (d_dims ?d) is)) [0..<Suc (drows ?d)])"
    using rows_okD(7) [OF old] new by (auto simp: distinct_conv_nth rows drows_def less_Suc_eq nth_append)
  moreover have "\<forall>r < Suc (drows ?d). ids_ok (view_vals v) (row_of (append_row (d_dims ?d) is) r)"
    using delta_row_ids_ok [OF v] ids by (auto simp: rows less_Suc_eq)
  ultimately have "rows_ok sc (view_vals ?v) (d_dims ?d') (d_mets ?d') (d_updated ?d') (d_expire ?d')"
    using old ok old' len unfolding d' rows_ok_def
    by (auto simp: drows_def cols_len_append_row)
  moreover have "index_ok ?d'"
    unfolding index_ok_def
  proof (intro allI)
    fix k r
    have "d_index ?d k = Some r \<longleftrightarrow> r < drows ?d \<and> k = idKey (row_of (d_dims ?d) r)"
      using view_okD(4) [OF v] by (simp add: index_ok_def)
    then show "d_index ?d' k = Some r \<longleftrightarrow> r < drows ?d' \<and> k = idKey (row_of (d_dims ?d') r)"
      using new [of r] by (auto simp: d' rows less_Suc_eq)
  qed
  moreover have "delta_times_ok ?d'"
    using append_times_ok [OF view_okD(6) [OF v]] by (simp add: appendView_def)
  moreover have "over_ok ?v"
  proof -
    have "length (v_overridden ?v) = length (v_overridden v)"
      by (simp add: appendView_def split: option.split)
    then show ?thesis
      using view_okD(5) [OF v] append_over [OF v alloc len] rows
      by (auto simp: over_ok_def d' less_Suc_eq)
  qed
  ultimately show ?thesis using view_okD(1,2) [OF v] by (simp add: view_ok_def)
qed

lemma abs_view_append:
  assumes v: "view_ok sc v" and alloc: "over_alloc v" and idx: "d_index (v_delta v) (idKey is) = None"
    and ids: "ids_ok (view_vals v) is" and ok: "length ms = nmets sc" "i64_ok u" "i64_ok e"
  shows "abs_view (appendView v is ms u e (base_match (v_base v) is)) =
    (abs_view v)(decode (view_vals v) is \<mapsto> \<lparr>a_mets = ms, a_upd = u, a_exp = e\<rparr>)"
proof (rule abs_view_update [OF v _ _ ids])
  let ?v = "appendView v is ms u e (base_match (v_base v) is)"
  let ?R = "\<lparr>a_mets = ms, a_upd = u, a_exp = e\<rparr>"
  have len: "length is = ndims sc" using ids_okD(1) [OF ids] view_ok_lengths [OF v] by simp
  show v': "view_ok sc ?v" by (rule view_ok_append [OF assms])
  show "view_vals ?v = view_vals v" by simp
  have base: "set (base_rows ?v) = {x \<in> set (base_rows v). fst x \<noteq> is}"
    using append_over [OF v alloc len] by (auto simp: base_rows_def snap_row_def)
  have dr: "delta_rows ?v = delta_rows v @ [(is, ?R)]"
    using append_rows_of(2) [OF v len ok(1)]
    by (auto simp: delta_rows_def appendView_def intro!: map_cong)
  have nd: "(is, row') \<notin> set (delta_rows v)" for row'
    using index_none_row [OF v idx, of "(is, row')"] by auto
  show "id_table ?v = (id_table v)(is \<mapsto> ?R)"
  proof (rule id_table_eqI [OF v v'])
    fix js row'
    show "(js, row') \<in> set (view_rows ?v) \<longleftrightarrow>
       (if js = is then row' = ?R else (js, row') \<in> set (view_rows v))"
      using nd by (cases "js = is") (simp_all add: view_rows_def base dr)
  qed
qed

text \<open>What the table holds at the tuple being written, read off the index and the base.\<close>

lemma abs_view_at:
  assumes v: "view_ok sc v" and ids: "ids_ok (view_vals v) is"
  shows "abs_view v (decode (view_vals v) is) =
    (case d_index (v_delta v) (idKey is) of
       Some r \<Rightarrow> Some (snd (delta_row (v_delta v) r))
     | None \<Rightarrow> map_option (\<lambda>b. snd (snap_row (v_base v) b)) (base_match (v_base v) is))"
proof -
  have len: "length is = ndims sc" using ids_okD(1) [OF ids] view_ok_lengths [OF v] by simp
  have eq: "abs_view v (decode (view_vals v) is) = id_table v is" by (rule abs_view_decode [OF v ids])
  show ?thesis
  proof (cases "d_index (v_delta v) (idKey is)")
    case (Some r)
    note ir = index_row [OF v Some]
    have "(is, snd (delta_row (v_delta v) r)) \<in> set (view_rows v)"
      using ir by (force simp: view_rows_def delta_rows_def delta_row_def)
    with eq Some show ?thesis by (simp add: id_table_Some [OF v])
  next
    case None
    have nd: "(is, row) \<notin> set (delta_rows v)" for row
      using index_none_row [OF v None, of "(is, row)"] by auto
    have over: "bitGet (v_overridden v) b \<longleftrightarrow> False"
      if "b < srows (v_base v)" "row_of (s_dims (v_base v)) b = is" for b
      using view_okD(5) [OF v] index_none [OF v None] that by (auto simp: over_ok_def)
    have "id_table v is = map_option (\<lambda>b. snd (snap_row (v_base v) b)) (base_match (v_base v) is)"
    proof (cases "base_match (v_base v) is")
      case None
      then have "(is, row) \<notin> set (base_rows v)" for row
        using base_match_iff [OF v len] by (auto simp: base_rows_def snap_row_def)
      with nd have "id_table v is \<noteq> Some row" for row by (simp add: id_table_Some [OF v] view_rows_def)
      with None show ?thesis by (cases "id_table v is") auto
    next
      case (Some b)
      then have b: "b < srows (v_base v)" "row_of (s_dims (v_base v)) b = is"
        using base_match_iff [OF v len] by auto
      then have "(is, snd (snap_row (v_base v) b)) \<in> set (view_rows v)"
        using over [OF b] by (force simp: view_rows_def base_rows_def snap_row_def)
      with Some show ?thesis by (simp add: id_table_Some [OF v])
    qed
    with eq None show ?thesis by simp
  qed
qed

section \<open>Refinement\<close>

definition room :: "schema \<Rightarrow> view \<Rightarrow> nat \<Rightarrow> bool" where
  "room sc v m \<longleftrightarrow>
     (\<forall>d < ndims sc. dlen (s_dicts (v_base v) ! d) + dlen (v_extras v ! d) + m < 2 ^ 32)"

text \<open>The last part of the loop body, from the resolved ids on.\<close>

definition applyResolved :: "bool \<Rightarrow> rec \<Rightarrow> u32 list \<Rightarrow> view \<times> nat \<Rightarrow> view \<times> nat" where
  "applyResolved capBlocked rc is st =
     (let (v, k) = st; u = unix_milli (UpdatedAt rc); e = expireMilli (ExpireAt rc) in
      case d_index (v_delta v) (idKey is) of
        Some r \<Rightarrow> (v\<lparr>v_delta := bumpMax u (replaceRow r (rMetrics rc) u e (v_delta v))\<rparr>, k)
      | None \<Rightarrow>
          (let br = base_match (v_base v) is in
           if (case br of Some b \<Rightarrow> s_updated (v_base v) ! b > u | None \<Rightarrow> False) then (v, k)
           else if capBlocked \<and> br = None then (v, k + 1)
           else (appendView v is (rMetrics rc) u e br, k)))"

lemma expireMilli_ok [simp, intro]: "i64_ok (expireMilli t)"
  by (simp add: expireMilli_def i64_ok_def [of 0])

lemma replace_stale:
  assumes v: "view_ok sc v" and idx: "d_index (v_delta v) (idKey is) = Some r"
    and u: "\<not> d_updated (v_delta v) ! r \<le> u"
  shows "bumpMax u (replaceRow r ms u e (v_delta v)) = v_delta v"
proof -
  have "d_updated (v_delta v) ! r \<in> set (d_updated (v_delta v))"
    using index_row [OF v idx] by (simp add: drows_def)
  with view_okD(6) [OF v] u have "\<not> u > d_maxUpdated (v_delta v)"
    by (fastforce simp: delta_times_ok_def)
  with u show ?thesis by (simp add: bumpMax_def replaceRow_def)
qed

lemma applyResolved_refines:
  assumes v: "view_ok sc v" and alloc: "over_alloc v" and ids: "ids_ok (view_vals v) is"
    and ms: "length (rMetrics rc) = nmets sc"
    and r: "applyResolved capBlocked rc is (v, k) = (v', k')"
  shows "spec_upsert capBlocked (decode (view_vals v) is) (rec_row rc) (abs_view v, k) = (abs_view v', k')"
    and "view_ok sc v'" "over_alloc v'" "v_base v' = v_base v" "v_extras v' = v_extras v"
proof -
  let ?u = "unix_milli (UpdatedAt rc)" and ?e = "expireMilli (ExpireAt rc)"
  note at = abs_view_at [OF v ids]
  have "spec_upsert capBlocked (decode (view_vals v) is) (rec_row rc) (abs_view v, k) = (abs_view v', k') \<and>
    view_ok sc v' \<and> over_alloc v' \<and> v_base v' = v_base v \<and> v_extras v' = v_extras v"
  proof (cases "d_index (v_delta v) (idKey is)")
    case (Some q)
    then have atq: "abs_view v (decode (view_vals v) is) = Some (snd (delta_row (v_delta v) q))"
      using at by simp
    show ?thesis
    proof (cases "d_updated (v_delta v) ! q \<le> ?u")
      case True
      with Some r v alloc ms abs_view_replace [OF v Some True ms] view_ok_replace [OF v Some True ms]
      show ?thesis
        by (auto simp: applyResolved_def spec_upsert_def at delta_row_def rec_row_def over_alloc_def Let_def)
    next
      case False
      with Some r v alloc atq replace_stale [OF v Some False] show ?thesis
        by (auto simp: applyResolved_def spec_upsert_def delta_row_def rec_row_def Let_def)
    qed
  next
    case None
    let ?w = "appendView v is (rMetrics rc) ?u ?e (base_match (v_base v) is)"
    have app: "view_ok sc ?w" "abs_view ?w = (abs_view v)(decode (view_vals v) is \<mapsto> rec_row rc)"
      using view_ok_append [OF v alloc None ids ms] abs_view_append [OF v alloc None ids ms]
      by (simp_all add: rec_row_def)
    have "over_alloc ?w" using alloc by (simp add: over_alloc_def appendView_def split: option.split)
    with None r v alloc app show ?thesis
      by (auto simp: applyResolved_def spec_upsert_def at snap_row_def rec_row_def Let_def
          split: option.splits if_splits)
  qed
  then show "spec_upsert capBlocked (decode (view_vals v) is) (rec_row rc) (abs_view v, k) = (abs_view v', k')"
    and "view_ok sc v'" "over_alloc v'" "v_base v' = v_base v" "v_extras v' = v_extras v" by auto
qed

lemma applyRec_unfold:
  assumes "length (rDims rc) = ndims sc" "length (rMetrics rc) = nmets sc"
    and "\<not> unix_milli (UpdatedAt rc) < ttl"
    and "resolveDims sc (v_base v) n rc [0..<ndims sc] (v_extras v) = Inr (is, allb, ex)"
    and "allb \<longleftrightarrow> ids_ok (snap_vals (v_base v)) is"
  shows "applyRec sc ttl capBlocked (n, rc) (v, k) =
    Inr (applyResolved capBlocked rc is (v\<lparr>v_extras := ex\<rparr>, k))"
  using assms
  by (auto simp: applyRec_def applyResolved_def base_match_def appendView_def Let_def split: option.split)

lemma applyRec_refines:
  assumes v: "view_ok sc v" and alloc: "over_alloc v" and room: "room sc v 1"
  shows "case applyRec sc ttl capBlocked (n, rc) (v, k) of
      Inl e \<Rightarrow> spec_rec sc ttl capBlocked (n, rc) (abs_view v, k) = Inl e
    | Inr (v', k') \<Rightarrow> spec_rec sc ttl capBlocked (n, rc) (abs_view v, k) = Inr (abs_view v', k') \<and>
        view_ok sc v' \<and> over_alloc v' \<and> v_base v' = v_base v \<and>
        (\<forall>d < ndims sc. dlen (v_extras v' ! d) \<le> dlen (v_extras v ! d) + 1)"
proof (cases "length (rDims rc) = ndims sc \<and> length (rMetrics rc) = nmets sc \<and>
    \<not> unix_milli (UpdatedAt rc) < ttl")
  case False
  then show ?thesis using v alloc by (auto simp: applyRec_def spec_rec_def Let_def)
next
  case True
  note len = view_ok_lengths [OF v]
  have spec: "case resolveDims sc (v_base v) n rc [0..<ndims sc] (v_extras v) of
      Inl er \<Rightarrow> canon_dims sc n rc [0..<ndims sc] = Inl er
    | Inr (is, allb, ex') \<Rightarrow> \<exists>xs. canon_dims sc n rc [0..<ndims sc] = Inr xs \<and>
        extras_ok sc (v_base v) ex' \<and> resolved (v_base v) [0..<ndims sc] (v_extras v) ex' is xs allb"
    using room snap_okD(3) [OF view_okD(1) [OF v]] view_okD(2) [OF v]
    by (intro resolveDims_spec) (auto simp: room_def)
  show ?thesis
  proof (cases "resolveDims sc (v_base v) n rc [0..<ndims sc] (v_extras v)")
    case (Inl er)
    with spec True show ?thesis by (simp add: applyRec_def spec_rec_def Let_def)
  next
    case (Inr res)
    obtain "is" allb ex' where res: "res = (is, allb, ex')" by (cases res)
    with spec Inr obtain xs where xs: "canon_dims sc n rc [0..<ndims sc] = Inr xs"
      "extras_ok sc (v_base v) ex'" "resolved (v_base v) [0..<ndims sc] (v_extras v) ex' is xs allb"
      by auto
    note all = resolved_all [OF xs(3) len(1,2)]
    let ?w = "v\<lparr>v_extras := ex'\<rparr>"
    have ext: "extends (view_vals v) (comb_vals (v_base v) ex')" using all(3) by (simp add: view_vals_comb)
    note w = view_ok_extras [OF v xs(2) ext]
    have vals: "view_vals ?w = comb_vals (v_base v) ex'" by (simp add: view_vals_comb)
    have alloc': "over_alloc ?w" using alloc by (simp add: over_alloc_def)
    obtain v' k' where r: "applyResolved capBlocked rc is (?w, k) = (v', k')"
      by (cases "applyResolved capBlocked rc is (?w, k)")
    have ids: "ids_ok (view_vals ?w) is" using all(1) vals by simp
    have ms: "length (rMetrics rc) = nmets sc" using True by simp
    note ref = applyResolved_refines [OF w(1) alloc' ids ms r]
    have "applyRec sc ttl capBlocked (n, rc) (v, k) = Inr (v', k')"
      using applyRec_unfold [of rc sc ttl v n "is" allb ex' capBlocked k] True Inr res all(6) r by simp
    moreover have "spec_rec sc ttl capBlocked (n, rc) (abs_view v, k) = Inr (abs_view v', k')"
      using True xs(1) ref(1) w(2) all(2) vals by (simp add: spec_rec_def)
    ultimately show ?thesis using ref(2-5) all(5) by simp
  qed
qed

lemma applyRecs_refines:
  assumes "view_ok sc v" "over_alloc v" "room sc v (length rs)"
  shows "case applyRecs sc ttl capBlocked rs (v, k) of
      Inl e \<Rightarrow> spec_recs sc ttl capBlocked rs (abs_view v, k) = Inl e
    | Inr (v', k') \<Rightarrow> spec_recs sc ttl capBlocked rs (abs_view v, k) = Inr (abs_view v', k') \<and>
        view_ok sc v' \<and> v_base v' = v_base v \<and>
        (\<forall>d < ndims sc. dlen (v_extras v' ! d) \<le> dlen (v_extras v ! d) + length rs)"
  using assms
proof (induction rs arbitrary: v k)
  case Nil
  then show ?case by simp
next
  case (Cons r rs)
  obtain n rc where nr: "r = (n, rc)" by (cases r)
  have "room sc v 1" using Cons.prems(3) by (auto simp: room_def)
  note one = applyRec_refines [OF Cons.prems(1,2) this, of ttl capBlocked n rc k]
  show ?case
  proof (cases "applyRec sc ttl capBlocked r (v, k)")
    case (Inl e)
    with one nr show ?thesis by simp
  next
    case (Inr st)
    obtain v' k' where st: "st = (v', k')" by (cases st)
    with one nr Inr have v': "spec_rec sc ttl capBlocked r (abs_view v, k) = Inr (abs_view v', k')"
      "view_ok sc v'" "over_alloc v'" "v_base v' = v_base v"
      "\<forall>d < ndims sc. dlen (v_extras v' ! d) \<le> dlen (v_extras v ! d) + 1" by auto
    have "room sc v' (length rs)" using Cons.prems(3) v'(4,5) by (fastforce simp: room_def)
    note IH = Cons.IH [OF v'(2,3) this, of k']
    have grow: "\<forall>d < ndims sc. dlen (ex ! d) \<le> dlen (v_extras v' ! d) + length rs \<longrightarrow>
        dlen (ex ! d) \<le> dlen (v_extras v ! d) + Suc (length rs)" for ex
      using v'(5) by fastforce
    show ?thesis
      using IH Inr st v'(1,4) grow by (auto split: sum.splits)
  qed
qed

lemma allocOver_ok:
  assumes v: "view_ok sc v"
  shows "view_ok sc (allocOver v)" "over_alloc (allocOver v)" "abs_view (allocOver v) = abs_view v"
    "v_base (allocOver v) = v_base v" "v_extras (allocOver v) = v_extras v"
proof -
  have same: "bitGet (v_overridden (allocOver v)) r = bitGet (v_overridden v) r" for r
    by (auto simp: allocOver_def)
  show "view_ok sc (allocOver v)"
    using v same by (auto simp: view_ok_def over_ok_def view_vals_def allocOver_def)
  show "over_alloc (allocOver v)"
    using view_okD(5) [OF v] by (auto simp: over_alloc_def allocOver_def over_ok_def)
  have "view_rows (allocOver v) = view_rows v"
    unfolding view_rows_def base_rows_def delta_rows_def same by (auto simp: allocOver_def)
  then show "abs_view (allocOver v) = abs_view v"
    by (simp add: abs_view_def view_vals_def) (simp add: allocOver_def)
  show "v_base (allocOver v) = v_base v" "v_extras (allocOver v) = v_extras v"
    by (auto simp: allocOver_def)
qed

lemma applyDelta_simulates:
  assumes v: "view_ok sc v" and room: "room sc v (length recs)"
  shows "case applyDelta sc v recs ttl capBlocked of
      Inl e \<Rightarrow> spec_apply sc (abs_view v) recs ttl capBlocked = Inl e
    | Inr (v', k') \<Rightarrow> spec_apply sc (abs_view v) recs ttl capBlocked = Inr (abs_view v', k') \<and>
        view_ok sc v' \<and> v_base v' = v_base v \<and>
        (\<forall>d < ndims sc. dlen (v_extras v' ! d) \<le> dlen (v_extras v ! d) + length recs)"
proof -
  note a = allocOver_ok [OF v]
  have "room sc (allocOver v) (length (zip [0..<length recs] recs))"
    using room a(4,5) by (simp add: room_def)
  from applyRecs_refines [OF a(1,2) this, of ttl capBlocked 0] show ?thesis
    by (auto simp: applyDelta_def spec_apply_def a(3-5) split: sum.splits)
qed

end
