(* ===== verification/Build.thy ===== *)
theory Build
  imports Apply "HOL-Library.List_Lexorder" "HOL-Library.Product_Lexorder"
begin

text \<open>
  \<open>buildFromRecords\<close> of \<open>snapshot.go\<close>: a fresh base from a full dump. Records are interned
  into fresh dictionaries, sorted by packed key, id tuple and descending time, deduplicated
  by keeping the first of each tuple, and dropped if that survivor has already expired.
\<close>

section \<open>Interning the records\<close>

text \<open>The arrays \<open>ids\<close>, \<open>metsIn\<close>, \<open>ups\<close> and \<open>exps\<close>; the first two are cut into one tuple per record.\<close>

record staged =
  st_dicts :: "dict list"
  st_ids :: "u32 list list"
  st_mets :: "f64 list list"
  st_ups :: "i64 list"
  st_exps :: "i64 list"

fun internDims :: "schema \<Rightarrow> nat \<Rightarrow> rec \<Rightarrow> nat list \<Rightarrow> dict list \<Rightarrow> err + (u32 list \<times> dict list)" where
  "internDims sc n rc [] dicts = Inr ([], dicts)"
| "internDims sc n rc (d # ds) dicts =
     (if isInt sc d then
        (case parse_int (rDims rc ! d) of
           None \<Rightarrow> Inl (ErrRecNonInteger n (rDims rc ! d) (dimName (Dims sc ! d)))
         | Some n64 \<Rightarrow>
             (let (i, dict') = getOrAddN (dicts ! d) n64 in
              case internDims sc n rc ds (dicts[d := dict']) of
                Inl e \<Rightarrow> Inl e | Inr (is, dicts') \<Rightarrow> Inr (i # is, dicts')))
      else
        (let (i, dict') = getOrAdd (dicts ! d) (rDims rc ! d) in
         case internDims sc n rc ds (dicts[d := dict']) of
           Inl e \<Rightarrow> Inl e | Inr (is, dicts') \<Rightarrow> Inr (i # is, dicts')))"

fun stageRecs :: "schema \<Rightarrow> i64 \<Rightarrow> (nat \<times> rec) list \<Rightarrow> staged \<Rightarrow> err + staged" where
  "stageRecs sc ttlCutoff [] st = Inr st"
| "stageRecs sc ttlCutoff ((n, rc) # rs) st =
     (if length (rDims rc) \<noteq> ndims sc \<or> length (rMetrics rc) \<noteq> nmets sc then Inl (ErrArity n)
      else
        let u = unix_milli (UpdatedAt rc) in
        if u < ttlCutoff then stageRecs sc ttlCutoff rs st
        else
          (case internDims sc n rc [0..<ndims sc] (st_dicts st) of
             Inl e \<Rightarrow> Inl e
           | Inr (is, dicts') \<Rightarrow>
               stageRecs sc ttlCutoff rs
                 \<lparr>st_dicts = dicts', st_ids = st_ids st @ [is], st_mets = st_mets st @ [rMetrics rc],
                  st_ups = st_ups st @ [u], st_exps = st_exps st @ [expireMilli (ExpireAt rc)]\<rparr>))"

definition stage0 :: "schema \<Rightarrow> staged" where
  "stage0 sc = \<lparr>st_dicts = map (\<lambda>i. newDict (isInt sc i)) [0..<ndims sc],
                st_ids = [], st_mets = [], st_ups = [], st_exps = []\<rparr>"

section \<open>Sorting and deduplicating\<close>

fun cmp_tuple :: "u32 list \<Rightarrow> u32 list \<Rightarrow> int" where
  "cmp_tuple (x # xs) (y # ys) = (if x \<noteq> y then (if x < y then - 1 else 1) else cmp_tuple xs ys)"
| "cmp_tuple _ _ = 0"

definition cmp_entry :: "u64 list \<Rightarrow> staged \<Rightarrow> nat \<Rightarrow> nat \<Rightarrow> int" where
  "cmp_entry keys st a b =
     (if keys ! a \<noteq> keys ! b then (if keys ! a < keys ! b then - 1 else 1)
      else
        let c = cmp_tuple (st_ids st ! a) (st_ids st ! b) in
        if c \<noteq> 0 then c
        else if st_ups st ! a \<noteq> st_ups st ! b then (if st_ups st ! a > st_ups st ! b then - 1 else 1)
        else 0)"

definition appendBuilt :: "staged \<Rightarrow> u64 list \<Rightarrow> nat \<Rightarrow> snapshot \<Rightarrow> snapshot" where
  "appendBuilt st keys p s =
     (let s1 = s\<lparr>s_dims := append_row (s_dims s) (st_ids st ! p),
                 s_mets := append_row (s_mets s) (st_mets st ! p),
                 s_updated := s_updated s @ [st_ups st ! p],
                 s_expire := s_expire s @ [st_exps st ! p],
                 s_keys := s_keys s @ [keys ! p]\<rparr>;
          s2 = (if st_ups st ! p > s_maxUpdated s1 then s1\<lparr>s_maxUpdated := st_ups st ! p\<rparr> else s1)
      in trackMin s2 (st_ups st ! p) (st_exps st ! p))"

text \<open>The loop over \<open>perm\<close>; the second argument is \<open>perm[i-1]\<close>, \<open>None\<close> where \<open>i = 0\<close>.\<close>

fun buildLoop :: "staged \<Rightarrow> u64 list \<Rightarrow> i64 \<Rightarrow> nat option \<Rightarrow> nat list \<Rightarrow> snapshot \<Rightarrow> snapshot" where
  "buildLoop st keys now prev [] s = s"
| "buildLoop st keys now prev (p # ps) s =
     (if (case prev of Some q \<Rightarrow> st_ids st ! q = st_ids st ! p | None \<Rightarrow> False)
      then buildLoop st keys now (Some p) ps s
      else if st_exps st ! p \<noteq> 0 \<and> st_exps st ! p \<le> now
      then buildLoop st keys now (Some p) ps s
      else buildLoop st keys now (Some p) ps (appendBuilt st keys p s))"

definition newColumns :: "schema \<Rightarrow> dict list \<Rightarrow> nat list \<Rightarrow> snapshot" where
  "newColumns sc dicts ss =
     \<lparr>s_sc = sc, s_dicts = dicts, s_dims = replicate (ndims sc) [], s_mets = replicate (nmets sc) [],
      s_updated = [], s_expire = [], s_keys = [], s_shifts = ss,
      s_maxUpdated = 0, s_minUpdated = 0, s_minExpire = 0\<rparr>"

definition buildFromRecords :: "nat sort_fn \<Rightarrow> schema \<Rightarrow> rec list \<Rightarrow> i64 \<Rightarrow> i64 \<Rightarrow> err + snapshot" where
  "buildFromRecords srt sc recs ttlCutoff now =
     (case stageRecs sc ttlCutoff (zip [0..<length recs] recs) (stage0 sc) of
        Inl e \<Rightarrow> Inl e
      | Inr st \<Rightarrow>
          (case computeShifts (map dlen (st_dicts st)) (idx_dims sc) of
             Inl e \<Rightarrow> Inl e
           | Inr ss \<Rightarrow>
               (let n = length (st_ups st);
                    keys = map (\<lambda>r. packKey ss (take (idx_dims sc) (st_ids st ! r))) [0..<n];
                    perm = srt (cmp_entry keys st) [0..<n]
                in Inr (buildLoop st keys now None perm (newColumns sc (st_dicts st) ss)))))"

section \<open>The specification: the newest record of each tuple, unless expired\<close>

fun spec_stage :: "schema \<Rightarrow> i64 \<Rightarrow> (nat \<times> rec) list \<Rightarrow> err + (dval list \<times> arow) list" where
  "spec_stage sc ttlCutoff [] = Inr []"
| "spec_stage sc ttlCutoff ((n, rc) # rs) =
     (if length (rDims rc) \<noteq> ndims sc \<or> length (rMetrics rc) \<noteq> nmets sc then Inl (ErrArity n)
      else if unix_milli (UpdatedAt rc) < ttlCutoff then spec_stage sc ttlCutoff rs
      else case canon_dims sc n rc [0..<ndims sc] of
        Inl e \<Rightarrow> Inl e
      | Inr key \<Rightarrow>
          (case spec_stage sc ttlCutoff rs of
             Inl e \<Rightarrow> Inl e | Inr es \<Rightarrow> Inr ((key, rec_row rc) # es)))"

definition newest_in :: "('k \<times> arow) list \<Rightarrow> 'k \<Rightarrow> arow \<Rightarrow> bool" where
  "newest_in es k row \<longleftrightarrow> (k, row) \<in> set es \<and> (\<forall>(k', row') \<in> set es. k' = k \<longrightarrow> a_upd row' \<le> a_upd row)"

text \<open>
  A table \<open>A\<close> is a build of the entries \<open>es\<close>: it holds exactly one newest entry of each
  tuple, and leaves a tuple out only where it has no entry or a newest entry has expired.
  Among entries of equal time the sort decides, so the table is not determined there.
\<close>

definition build_of :: "('k \<times> arow) list \<Rightarrow> i64 \<Rightarrow> ('k \<rightharpoonup> arow) \<Rightarrow> bool" where
  "build_of es now A \<longleftrightarrow>
     (\<forall>k. (\<forall>row. A k = Some row \<longrightarrow> newest_in es k row \<and> \<not> rowExpired (a_exp row) now) \<and>
          (A k = None \<longrightarrow> k \<notin> fst ` set es \<or> (\<exists>row. newest_in es k row \<and> rowExpired (a_exp row) now)))"

section \<open>Interning is resolving against an empty base\<close>

lemma emptySnapshot_dict:
  "d < ndims sc \<Longrightarrow> s_dicts (emptySnapshot sc) ! d = newDict (isInt sc d)"
  by (simp add: emptySnapshot_def)

lemma length_empty_dicts [simp]: "length (s_dicts (emptySnapshot sc)) = ndims sc"
  by (simp add: emptySnapshot_def)

lemma resolve_val_new:
  "val_fits b x \<Longrightarrow> resolve_val (newDict b) e x = (let (i, e') = dict_add e x in (i, False, e'))"
  by (cases x) (auto simp: resolve_val_def newDict_def dlen_def)

lemma internDims_resolve:
  assumes "\<forall>d \<in> set ds. d < ndims sc" "dicts_ok sc dicts" "distinct ds"
    and "\<forall>d \<in> set ds. dlen (dicts ! d) + 1 < 2 ^ 32"
  shows "internDims sc n rc ds dicts =
    map_sum (\<lambda>e. e) (\<lambda>(is, _, ex). (is, ex)) (resolveDims sc (emptySnapshot sc) n rc ds dicts)"
  using assms
proof (induction ds arbitrary: dicts)
  case Nil
  then show ?case by simp
next
  case (Cons d ds)
  have d: "d < ndims sc" using Cons.prems by simp
  have num: "numeric (dicts ! d) = isInt sc d" "dict_ok (dicts ! d)"
    using Cons.prems(2) d by (auto dest: dicts_okD)
  have nb: "numeric (s_dicts (emptySnapshot sc) ! d) = isInt sc d" by (simp add: emptySnapshot_dict d)
  note rd = resolveDim_val [OF nb num(1), of "rDims rc ! d"]
  show ?case
  proof (cases "canon (isInt sc d) (rDims rc ! d)")
    case None
    then show ?thesis by (auto simp: rd canon_def split: if_splits)
  next
    case (Some x)
    obtain i dict' where a: "dict_add (dicts ! d) x = (i, dict')" by (cases "dict_add (dicts ! d) x")
    have fits: "val_fits (isInt sc d) x" by (rule canon_fits [OF Some])
    have "dlen (dicts ! d) < 2 ^ 32" using Cons.prems(4) by simp
    note spec = dict_add_spec [OF num(2) _ this a]
    have "dicts_ok sc (dicts[d := dict'])"
      using Cons.prems(2) d spec(1,2) fits num(1) by (auto simp: dicts_ok_def nth_list_update)
    then have IH: "internDims sc n rc ds (dicts[d := dict']) =
        map_sum (\<lambda>e. e) (\<lambda>(is, _, ex). (is, ex))
          (resolveDims sc (emptySnapshot sc) n rc ds (dicts[d := dict']))"
      using Cons.prems dicts_okD(1) [OF Cons.prems(2)] by (intro Cons.IH) (auto simp: nth_list_update)
    have "internDims sc n rc (d # ds) dicts =
        (case internDims sc n rc ds (dicts[d := dict']) of
           Inl e \<Rightarrow> Inl e | Inr (is, dicts') \<Rightarrow> Inr (i # is, dicts'))"
      using Some a by (auto simp: canon_def dict_add_def split: if_splits)
    moreover have "resolveDim sc (emptySnapshot sc) d (rDims rc ! d) (dicts ! d) = Some (i, False, dict')"
      using Some a fits d by (simp add: rd emptySnapshot_dict resolve_val_new)
    ultimately show ?thesis by (auto simp: IH split: sum.splits prod.splits)
  qed
qed

lemma extras_ok_fresh:
  "extras_ok sc (emptySnapshot sc) dicts \<longleftrightarrow>
     dicts_ok sc dicts \<and> (\<forall>d < ndims sc. dlen (dicts ! d) < 2 ^ 32)"
  by (auto simp: extras_ok_def dicts_ok_def comb_ok_def emptySnapshot_dict)

lemma comb_vals_fresh:
  "length dicts = ndims sc \<Longrightarrow> comb_vals (emptySnapshot sc) dicts = map dict_vals dicts"
  by (intro nth_equalityI) (auto simp: comb_vals_nth emptySnapshot_dict)

section \<open>The staged entries\<close>

definition st_row :: "staged \<Rightarrow> nat \<Rightarrow> arow" where
  "st_row st r = \<lparr>a_mets = st_mets st ! r, a_upd = st_ups st ! r, a_exp = st_exps st ! r\<rparr>"

definition st_vals :: "staged \<Rightarrow> dval list list" where
  "st_vals st = map dict_vals (st_dicts st)"

definition st_entries :: "staged \<Rightarrow> (dval list \<times> arow) list" where
  "st_entries st = map (\<lambda>r. (decode (st_vals st) (st_ids st ! r), st_row st r)) [0..<length (st_ups st)]"

definition staged_ok :: "schema \<Rightarrow> staged \<Rightarrow> bool" where
  "staged_ok sc st \<longleftrightarrow>
     dicts_ok sc (st_dicts st) \<and> (\<forall>d < ndims sc. dlen (st_dicts st ! d) < 2 ^ 32) \<and>
     length (st_ids st) = length (st_ups st) \<and> length (st_mets st) = length (st_ups st) \<and>
     length (st_exps st) = length (st_ups st) \<and>
     (\<forall>is \<in> set (st_ids st). ids_ok (st_vals st) is) \<and>
     (\<forall>ms \<in> set (st_mets st). length ms = nmets sc) \<and>
     (\<forall>u \<in> set (st_ups st). i64_ok u) \<and> (\<forall>e \<in> set (st_exps st). i64_ok e)"

definition stage_add :: "staged \<Rightarrow> dict list \<Rightarrow> u32 list \<Rightarrow> rec \<Rightarrow> staged" where
  "stage_add st dicts' is rc =
     \<lparr>st_dicts = dicts', st_ids = st_ids st @ [is], st_mets = st_mets st @ [rMetrics rc],
      st_ups = st_ups st @ [unix_milli (UpdatedAt rc)],
      st_exps = st_exps st @ [expireMilli (ExpireAt rc)]\<rparr>"

lemma staged_ok_0: "staged_ok sc (stage0 sc)"
  by (auto simp: staged_ok_def stage0_def dicts_ok_def)

lemma stage_add_ok:
  assumes st: "staged_ok sc st" and ms: "length (rMetrics rc) = nmets sc"
    and new: "extras_ok sc (emptySnapshot sc) dicts'" "ids_ok (map dict_vals dicts') is"
    and ext: "extends (st_vals st) (map dict_vals dicts')"
  shows "staged_ok sc (stage_add st dicts' is rc)"
    and "st_entries (stage_add st dicts' is rc) =
      st_entries st @ [(decode (map dict_vals dicts') is, rec_row rc)]"
proof -
  show "staged_ok sc (stage_add st dicts' is rc)"
    using assms by (auto simp: staged_ok_def stage_add_def extras_ok_fresh st_vals_def
        intro: extends_ids_ok)
  have "st_ids st ! r \<in> set (st_ids st)" if "r < length (st_ups st)" for r
    using st that by (simp add: staged_ok_def)
  then have "decode (map dict_vals dicts') (st_ids st ! r) = decode (st_vals st) (st_ids st ! r)"
    if "r < length (st_ups st)" for r
    using st that by (intro extends_decode [OF ext]) (simp add: staged_ok_def)
  with st show "st_entries (stage_add st dicts' is rc) =
      st_entries st @ [(decode (map dict_vals dicts') is, rec_row rc)]"
    by (auto simp: st_entries_def stage_add_def staged_ok_def st_vals_def st_row_def nth_append
        rec_row_def intro!: map_cong)
qed

lemma stageRecs_Cons:
  assumes "length (rDims rc) = ndims sc" "length (rMetrics rc) = nmets sc"
    and "\<not> unix_milli (UpdatedAt rc) < ttl"
  shows "stageRecs sc ttl ((n, rc) # rs) st =
    (case internDims sc n rc [0..<ndims sc] (st_dicts st) of
       Inl e \<Rightarrow> Inl e | Inr (is, dicts') \<Rightarrow> stageRecs sc ttl rs (stage_add st dicts' is rc))"
  using assms by (auto simp: stage_add_def Let_def split: sum.splits)

lemma stageRecs_spec:
  assumes "staged_ok sc st" "\<forall>d < ndims sc. dlen (st_dicts st ! d) + length rs < 2 ^ 32"
  shows "case stageRecs sc ttl rs st of
      Inl e \<Rightarrow> spec_stage sc ttl rs = Inl e
    | Inr st' \<Rightarrow> staged_ok sc st' \<and>
        (\<exists>es. spec_stage sc ttl rs = Inr es \<and> st_entries st' = st_entries st @ es)"
  using assms
proof (induction rs arbitrary: st)
  case Nil
  then show ?case by simp
next
  case (Cons r rs)
  obtain n rc where nr: "r = (n, rc)" by (cases r)
  show ?case
  proof (cases "length (rDims rc) = ndims sc \<and> length (rMetrics rc) = nmets sc \<and>
      \<not> unix_milli (UpdatedAt rc) < ttl")
    case False
    have "\<forall>d < ndims sc. dlen (st_dicts st ! d) + length rs < 2 ^ 32" using Cons.prems(2) by auto
    then show ?thesis using False Cons.IH [OF Cons.prems(1)] by (auto simp: nr split: sum.splits)
  next
    case True
    let ?E = "emptySnapshot sc"
    have ex: "extras_ok sc ?E (st_dicts st)" using Cons.prems(1) by (auto simp: staged_ok_def extras_ok_fresh)
    have len: "length (st_dicts st) = ndims sc" using ex by (rule extras_okD(1))
    have dE: "dicts_ok sc (s_dicts ?E)" by (auto simp: dicts_ok_def emptySnapshot_dict)
    have one: "dlen (st_dicts st ! d) + 1 < 2 ^ 32" if "d < ndims sc" for d
      using Cons.prems(2) that by auto
    have spec: "case resolveDims sc ?E n rc [0..<ndims sc] (st_dicts st) of
        Inl er \<Rightarrow> canon_dims sc n rc [0..<ndims sc] = Inl er
      | Inr (is, allb, ex') \<Rightarrow> \<exists>xs. canon_dims sc n rc [0..<ndims sc] = Inr xs \<and>
          extras_ok sc ?E ex' \<and> resolved ?E [0..<ndims sc] (st_dicts st) ex' is xs allb"
      using one by (intro resolveDims_spec dE ex) (auto simp: emptySnapshot_dict)
    have int: "internDims sc n rc [0..<ndims sc] (st_dicts st) =
      map_sum (\<lambda>e. e) (\<lambda>(is, _, ex). (is, ex)) (resolveDims sc ?E n rc [0..<ndims sc] (st_dicts st))"
      using ex one by (intro internDims_resolve) (auto simp: extras_ok_fresh)
    show ?thesis
    proof (cases "resolveDims sc ?E n rc [0..<ndims sc] (st_dicts st)")
      case (Inl er)
      with spec int True show ?thesis by (simp add: nr stageRecs_Cons del: stageRecs.simps)
    next
      case (Inr res)
      obtain "is" allb ex' where res: "res = (is, allb, ex')" by (cases res)
      with spec Inr obtain xs where xs: "canon_dims sc n rc [0..<ndims sc] = Inr xs"
        "extras_ok sc ?E ex'" "resolved ?E [0..<ndims sc] (st_dicts st) ex' is xs allb" by auto
      note all = resolved_all [OF xs(3) length_empty_dicts len]
      have len': "length ex' = ndims sc" using xs(2) by (rule extras_okD(1))
      have ids: "ids_ok (map dict_vals ex') is" "decode (map dict_vals ex') is = xs"
        and ext: "extends (st_vals st) (map dict_vals ex')"
        using all(1-3) comb_vals_fresh [OF len] comb_vals_fresh [OF len'] by (simp_all add: st_vals_def)
      have ms: "length (rMetrics rc) = nmets sc" using True by simp
      note add = stage_add_ok [OF Cons.prems(1) ms xs(2) ids(1) ext]
      have "\<forall>d < ndims sc. dlen (st_dicts (stage_add st ex' is rc) ! d) + length rs < 2 ^ 32"
        using all(5) Cons.prems(2) by (fastforce simp: stage_add_def)
      note IH = Cons.IH [OF add(1) this]
      have "stageRecs sc ttl (r # rs) st = stageRecs sc ttl rs (stage_add st ex' is rc)"
        using True int Inr res by (simp add: nr stageRecs_Cons del: stageRecs.simps)
      with IH True xs(1) ids(2) add(2) show ?thesis by (auto simp: nr split: sum.splits)
    qed
  qed
qed

section \<open>The comparison is a linear order on (key, tuple, descending time)\<close>

lemma cmp_tuple_less:
  "length xs = length ys \<Longrightarrow> (cmp_tuple xs ys < 0 \<longleftrightarrow> xs < ys) \<and> (cmp_tuple xs ys > 0 \<longleftrightarrow> ys < xs)"
  by (induction xs ys rule: list_induct2) auto

lemma weak_order_by:
  fixes f :: "'a \<Rightarrow> 'b::linorder"
  assumes "\<And>a b. a \<in> A \<Longrightarrow> b \<in> A \<Longrightarrow> (cmp a b < 0 \<longleftrightarrow> f a < f b) \<and> (cmp a b > 0 \<longleftrightarrow> f b < f a)"
  shows "weak_order_on A cmp"
    and "\<And>a b. a \<in> A \<Longrightarrow> b \<in> A \<Longrightarrow> cmp a b \<le> 0 \<longleftrightarrow> f a \<le> f b"
proof -
  show le: "\<And>a b. a \<in> A \<Longrightarrow> b \<in> A \<Longrightarrow> cmp a b \<le> 0 \<longleftrightarrow> f a \<le> f b"
    using assms by (metis linorder_not_less)
  then show "weak_order_on A cmp"
    unfolding weak_order_on_def using assms by (metis order_trans)
qed

definition entry_rank :: "u64 list \<Rightarrow> staged \<Rightarrow> nat \<Rightarrow> u64 \<times> u32 list \<times> int" where
  "entry_rank keys st p = (keys ! p, st_ids st ! p, - (st_ups st ! p))"

lemma cmp_entry_rank:
  assumes "length (st_ids st ! a) = length (st_ids st ! b)"
  shows "(cmp_entry keys st a b < 0 \<longleftrightarrow> entry_rank keys st a < entry_rank keys st b) \<and>
    (cmp_entry keys st a b > 0 \<longleftrightarrow> entry_rank keys st b < entry_rank keys st a)"
  using cmp_tuple_less [OF assms]
  by (auto simp: cmp_entry_def entry_rank_def Let_def)

section \<open>What the loop keeps\<close>

fun kept :: "staged \<Rightarrow> i64 \<Rightarrow> nat option \<Rightarrow> nat list \<Rightarrow> nat list" where
  "kept st now prev [] = []"
| "kept st now prev (p # ps) =
     (if (case prev of Some q \<Rightarrow> st_ids st ! q = st_ids st ! p | None \<Rightarrow> False) \<or>
         rowExpired (st_exps st ! p) now
      then kept st now (Some p) ps else p # kept st now (Some p) ps)"

lemma buildLoop_kept:
  "buildLoop st keys now prev ps s = fold (appendBuilt st keys) (kept st now prev ps) s"
  by (induction ps arbitrary: prev s) (auto simp: rowExpired_def)

lemma kept_subset: "set (kept st now prev ps) \<subseteq> set ps"
  by (induction ps arbitrary: prev) auto

lemma kept_sorted: "sorted_wrt R ps \<Longrightarrow> sorted_wrt R (kept st now prev ps)"
  using kept_subset by (induction ps arbitrary: prev) fastforce+

lemma kept_not_expired: "p \<in> set (kept st now prev ps) \<Longrightarrow> \<not> rowExpired (st_exps st ! p) now"
  by (induction ps arbitrary: prev) (auto split: if_splits)

text \<open>
  On a list sorted by rank, entries of one tuple are adjacent with the newest first, so what
  is kept has distinct tuples, is newest among its tuple, and is missing only when expired.
\<close>

definition ranked :: "u64 list \<Rightarrow> staged \<Rightarrow> nat list \<Rightarrow> bool" where
  "ranked keys st ps \<longleftrightarrow>
     sorted_wrt (\<lambda>a b. entry_rank keys st a \<le> entry_rank keys st b) ps \<and>
     (\<forall>p \<in> set ps. \<forall>q \<in> set ps. st_ids st ! p = st_ids st ! q \<longrightarrow> keys ! p = keys ! q)"

lemma ranked_keys:
  "ranked keys st ps \<Longrightarrow> p \<in> set ps \<Longrightarrow> q \<in> set ps \<Longrightarrow> st_ids st ! p = st_ids st ! q \<Longrightarrow> keys ! p = keys ! q"
  unfolding ranked_def by blast

lemma ranked_head:
  "ranked keys st (p # ps) \<Longrightarrow> q \<in> set ps \<Longrightarrow> entry_rank keys st p \<le> entry_rank keys st q"
  unfolding ranked_def sorted_wrt.simps by blast

lemma ranked_Cons: "ranked keys st (p # ps) \<Longrightarrow> ranked keys st ps"
  unfolding ranked_def sorted_wrt.simps set_simps by blast

lemma rank_between:
  fixes k k' :: "'a::linorder" and t t' :: "'b::linorder" and u u' u'' :: "'c::linorder"
  assumes "(k, t, u) \<le> (k', t', u')" "(k', t', u') \<le> (k, t, u'')"
  shows "t' = t"
proof -
  have le: "k \<le> k'" "k' \<le> k" using assms by (auto simp: less_eq_prod_def)
  then have "k' = k" by simp
  with assms have "t \<le> t'" "t' \<le> t" by (auto simp: less_eq_prod_def)
  then show ?thesis by simp
qed

lemma ranked_between:
  assumes "ranked keys st (p # x # ps)" "q \<in> set ps" "st_ids st ! q = st_ids st ! p"
  shows "st_ids st ! x = st_ids st ! p"
proof -
  have "keys ! q = keys ! p" using assms by (intro ranked_keys [OF assms(1)]) auto
  moreover have "entry_rank keys st p \<le> entry_rank keys st x"
    using ranked_head [OF assms(1)] by simp
  moreover have "entry_rank keys st x \<le> entry_rank keys st q"
    using ranked_head [OF ranked_Cons [OF assms(1)]] assms(2) by simp
  ultimately show ?thesis using assms(3)
    by (intro rank_between [of "keys ! p" "st_ids st ! p" "- (st_ups st ! p)" "keys ! x" "st_ids st ! x"
          "- (st_ups st ! x)" "- (st_ups st ! q)"]) (simp_all only: entry_rank_def)
qed

lemma kept_tuple_new:
  "ranked keys st (p # ps) \<Longrightarrow> q \<in> set (kept st now (Some p) ps) \<Longrightarrow> st_ids st ! q \<noteq> st_ids st ! p"
proof (induction ps arbitrary: p)
  case Nil
  then show ?case by simp
next
  case (Cons x ps)
  have tail: "ranked keys st (x # ps)" using Cons.prems(1) by (rule ranked_Cons)
  show ?case
  proof (cases "q = x \<and> q \<notin> set (kept st now (Some x) ps)")
    case True
    with Cons.prems(2) show ?thesis by (auto split: if_splits)
  next
    case False
    then have q: "q \<in> set (kept st now (Some x) ps)" using Cons.prems(2) by (auto split: if_splits)
    then have "st_ids st ! q \<noteq> st_ids st ! x" by (rule Cons.IH [OF tail])
    moreover have "q \<in> set ps" using q kept_subset by fastforce
    ultimately show ?thesis using ranked_between [OF Cons.prems(1)] by metis
  qed
qed

lemma kept_distinct:
  "ranked keys st ps \<Longrightarrow> distinct (map (\<lambda>p. st_ids st ! p) (kept st now prev ps))"
proof (induction ps arbitrary: prev)
  case Nil
  then show ?case by simp
next
  case (Cons p ps)
  have "distinct (map (\<lambda>p. st_ids st ! p) (kept st now (Some p) ps))"
    using Cons.IH ranked_Cons [OF Cons.prems] by blast
  with kept_tuple_new [OF Cons.prems] show ?case by force
qed

lemma ranked_newest:
  assumes "ranked keys st (p # ps)" "q \<in> set ps" "st_ids st ! q = st_ids st ! p"
  shows "st_ups st ! q \<le> st_ups st ! p"
proof -
  have "keys ! q = keys ! p" using assms by (intro ranked_keys [OF assms(1)]) auto
  moreover have "entry_rank keys st p \<le> entry_rank keys st q" using ranked_head [OF assms(1,2)] .
  ultimately show ?thesis using assms(3) by (simp add: entry_rank_def)
qed

lemma kept_newest:
  "ranked keys st ps \<Longrightarrow> q \<in> set (kept st now prev ps) \<Longrightarrow> p \<in> set ps \<Longrightarrow>
   st_ids st ! p = st_ids st ! q \<Longrightarrow> st_ups st ! p \<le> st_ups st ! q"
proof (induction ps arbitrary: prev)
  case Nil
  then show ?case by simp
next
  case (Cons x ps)
  have tail: "ranked keys st ps" using Cons.prems(1) by (rule ranked_Cons)
  show ?case
  proof (cases "q \<in> set (kept st now (Some x) ps)")
    case True
    with kept_tuple_new [OF Cons.prems(1)] Cons.prems(3,4) have "p \<in> set ps" by force
    with Cons.IH [OF tail True] Cons.prems(4) show ?thesis by simp
  next
    case False
    then have "q = x" using Cons.prems(2) by (auto split: if_splits)
    with Cons.prems ranked_newest [OF Cons.prems(1)] show ?thesis by auto
  qed
qed

lemma kept_complete:
  assumes "ranked keys st ps" "p \<in> set ps"
    and "case prev of Some q \<Rightarrow> st_ids st ! q \<noteq> st_ids st ! p | None \<Rightarrow> True"
  shows "\<exists>q \<in> set ps. st_ids st ! q = st_ids st ! p \<and>
    (\<forall>p' \<in> set ps. st_ids st ! p' = st_ids st ! p \<longrightarrow> st_ups st ! p' \<le> st_ups st ! q) \<and>
    (rowExpired (st_exps st ! q) now \<or> q \<in> set (kept st now prev ps))"
  using assms
proof (induction ps arbitrary: prev)
  case Nil
  then show ?case by simp
next
  case (Cons x ps)
  show ?case
  proof (cases "st_ids st ! x = st_ids st ! p")
    case True
    have "\<forall>p' \<in> set (x # ps). st_ids st ! p' = st_ids st ! p \<longrightarrow> st_ups st ! p' \<le> st_ups st ! x"
      using ranked_newest [OF Cons.prems(1)] True by auto
    moreover have "rowExpired (st_exps st ! x) now \<or> x \<in> set (kept st now prev (x # ps))"
      using Cons.prems(3) True by (auto split: option.splits)
    ultimately show ?thesis using True by (intro bexI [of _ x]) auto
  next
    case False
    then have "p \<in> set ps" using Cons.prems(2) by auto
    then obtain q where q: "q \<in> set ps" "st_ids st ! q = st_ids st ! p"
      "\<forall>p' \<in> set ps. st_ids st ! p' = st_ids st ! p \<longrightarrow> st_ups st ! p' \<le> st_ups st ! q"
      "rowExpired (st_exps st ! q) now \<or> q \<in> set (kept st now (Some x) ps)"
      using Cons.IH [OF ranked_Cons [OF Cons.prems(1)], of "Some x"] False by auto
    with False show ?thesis by (intro bexI [of _ q]) auto
  qed
qed

section \<open>The columns the loop appends\<close>

lemma appendBuilt_simps [simp]:
  "s_dims (appendBuilt st keys p s) = append_row (s_dims s) (st_ids st ! p)"
  "s_mets (appendBuilt st keys p s) = append_row (s_mets s) (st_mets st ! p)"
  "s_updated (appendBuilt st keys p s) = s_updated s @ [st_ups st ! p]"
  "s_expire (appendBuilt st keys p s) = s_expire s @ [st_exps st ! p]"
  "s_keys (appendBuilt st keys p s) = s_keys s @ [keys ! p]"
  "s_sc (appendBuilt st keys p s) = s_sc s" "s_dicts (appendBuilt st keys p s) = s_dicts s"
  "s_shifts (appendBuilt st keys p s) = s_shifts s"
  "s_maxUpdated (appendBuilt st keys p s) = max (st_ups st ! p) (s_maxUpdated s)"
  "s_minUpdated (appendBuilt st keys p s) = min_upd_step (st_ups st ! p) (s_minUpdated s)"
  "s_minExpire (appendBuilt st keys p s) = min_exp_step (st_exps st ! p) (s_minExpire s)"
  by (auto simp: appendBuilt_def Let_def)

lemma built_columns:
  fixes keys :: "u64 list" and dicts :: "dict list" and ss :: "nat list" and st :: staged
  assumes "\<forall>p \<in> set ps. length (st_ids st ! p) = ndims sc \<and> length (st_mets st ! p) = nmets sc"
  defines "s \<equiv> fold (appendBuilt st keys) ps (newColumns sc dicts ss)"
  shows "s_sc s = sc" "s_dicts s = dicts" "s_shifts s = ss"
    "s_updated s = map (\<lambda>p. st_ups st ! p) ps" "s_expire s = map (\<lambda>p. st_exps st ! p) ps"
    "s_keys s = map (\<lambda>p. keys ! p) ps" "minmax_ok s"
    "length (s_dims s) = ndims sc" "cols_len (s_dims s) (length ps)"
    "length (s_mets s) = nmets sc" "cols_len (s_mets s) (length ps)"
    "\<And>r. r < length ps \<Longrightarrow> row_of (s_dims s) r = st_ids st ! (ps ! r) \<and> row_of (s_mets s) r = st_mets st ! (ps ! r)"
proof -
  have "s_sc s = sc \<and> s_dicts s = dicts \<and> s_shifts s = ss \<and>
    s_updated s = map (\<lambda>p. st_ups st ! p) ps \<and> s_expire s = map (\<lambda>p. st_exps st ! p) ps \<and>
    s_keys s = map (\<lambda>p. keys ! p) ps \<and> minmax_ok s \<and>
    length (s_dims s) = ndims sc \<and> cols_len (s_dims s) (length ps) \<and>
    length (s_mets s) = nmets sc \<and> cols_len (s_mets s) (length ps) \<and>
    (\<forall>r < length ps. row_of (s_dims s) r = st_ids st ! (ps ! r) \<and> row_of (s_mets s) r = st_mets st ! (ps ! r))"
    using assms(1) unfolding s_def
  proof (induction ps rule: rev_induct)
    case Nil
    then show ?case by (simp add: newColumns_def minmax_ok_def)
  next
    case (snoc p ps)
    then show ?case
      by (auto simp: minmax_ok_def cols_len_append_row row_of_append_row_old row_of_append_row_new
          nth_append less_Suc_eq)
  qed
  then show "s_sc s = sc" "s_dicts s = dicts" "s_shifts s = ss"
    "s_updated s = map (\<lambda>p. st_ups st ! p) ps" "s_expire s = map (\<lambda>p. st_exps st ! p) ps"
    "s_keys s = map (\<lambda>p. keys ! p) ps" "minmax_ok s"
    "length (s_dims s) = ndims sc" "cols_len (s_dims s) (length ps)"
    "length (s_mets s) = nmets sc" "cols_len (s_mets s) (length ps)"
    "\<And>r. r < length ps \<Longrightarrow> row_of (s_dims s) r = st_ids st ! (ps ! r) \<and> row_of (s_mets s) r = st_mets st ! (ps ! r)"
    by auto
qed

section \<open>The base that is built\<close>

lemma staged_okD:
  assumes "staged_ok sc st"
  shows "dicts_ok sc (st_dicts st)" "\<And>d. d < ndims sc \<Longrightarrow> dlen (st_dicts st ! d) < 2 ^ 32"
    and "\<And>r. r < length (st_ups st) \<Longrightarrow> ids_ok (st_vals st) (st_ids st ! r) \<and>
      length (st_ids st ! r) = ndims sc \<and> length (st_mets st ! r) = nmets sc \<and>
      i64_ok (st_ups st ! r) \<and> i64_ok (st_exps st ! r)"
proof -
  show "dicts_ok sc (st_dicts st)" "\<And>d. d < ndims sc \<Longrightarrow> dlen (st_dicts st ! d) < 2 ^ 32"
    using assms by (auto simp: staged_ok_def)
  fix r assume r: "r < length (st_ups st)"
  then have i: "ids_ok (st_vals st) (st_ids st ! r)" using assms by (simp add: staged_ok_def)
  moreover have "length (st_ids st ! r) = ndims sc"
    using ids_okD(1) [OF i] assms by (simp add: staged_ok_def st_vals_def dicts_ok_def)
  ultimately show "ids_ok (st_vals st) (st_ids st ! r) \<and>
      length (st_ids st ! r) = ndims sc \<and> length (st_mets st ! r) = nmets sc \<and>
      i64_ok (st_ups st ! r) \<and> i64_ok (st_exps st ! r)"
    using r assms by (simp add: staged_ok_def)
qed

text \<open>What a sorted permutation of the staged rows gives.\<close>

lemma perm_ranked:
  assumes srt: "sorter srt" and st: "staged_ok sc st" and n: "n = length (st_ups st)"
    and keys: "keys = map (\<lambda>r. packKey ss (take k (st_ids st ! r))) [0..<n]"
  shows "set (srt (cmp_entry keys st) [0..<n]) = {0..<n}"
    and "ranked keys st (srt (cmp_entry keys st) [0..<n])"
proof -
  have len: "length (st_ids st ! a) = ndims sc" if "a < n" for a
    using that n staged_okD(3) [OF st] by blast
  have ord: "(cmp_entry keys st a b < 0 \<longleftrightarrow> entry_rank keys st a < entry_rank keys st b) \<and>
      (cmp_entry keys st a b > 0 \<longleftrightarrow> entry_rank keys st b < entry_rank keys st a)"
    if "a \<in> set [0..<n]" "b \<in> set [0..<n]" for a b
    using that len by (intro cmp_entry_rank) simp
  have wo: "weak_order_on (set [0..<n]) (cmp_entry keys st)"
    by (rule weak_order_by(1)) (rule ord)
  have le: "cmp_entry keys st a b \<le> 0 \<longleftrightarrow> entry_rank keys st a \<le> entry_rank keys st b"
    if "a \<in> set [0..<n]" "b \<in> set [0..<n]" for a b
    using ord [OF that] by (metis linorder_not_less)
  show set: "set (srt (cmp_entry keys st) [0..<n]) = {0..<n}"
    using sorter.srt_set [OF srt wo] by simp
  have "sorted_wrt (\<lambda>a b. cmp_entry keys st a b \<le> 0) (srt (cmp_entry keys st) [0..<n])"
    by (rule sorter.srt_sorted [OF srt wo])
  then have "sorted_wrt (\<lambda>a b. entry_rank keys st a \<le> entry_rank keys st b) (srt (cmp_entry keys st) [0..<n])"
    by (rule sorted_wrt_mono_rel [rotated]) (simp add: le set)
  then show "ranked keys st (srt (cmp_entry keys st) [0..<n])"
    unfolding ranked_def using set by (simp add: keys)
qed

definition built :: "staged \<Rightarrow> u64 list \<Rightarrow> i64 \<Rightarrow> nat list \<Rightarrow> schema \<Rightarrow> nat list \<Rightarrow> snapshot" where
  "built st keys now perm sc ss = fold (appendBuilt st keys) (kept st now None perm) (newColumns sc (st_dicts st) ss)"

lemma sorted_map_keys:
  assumes "sorted_wrt (\<lambda>a b. entry_rank keys st a \<le> entry_rank keys st b) ps"
  shows "sorted (map (\<lambda>p. keys ! p) ps)"
  unfolding sorted_map using assms
  by (rule sorted_wrt_mono_rel [rotated]) (auto simp: entry_rank_def less_eq_prod_def)

lemma ranked_keys_sorted:
  "ranked keys st ps \<Longrightarrow> sorted (map (\<lambda>p. keys ! p) (kept st now prev ps))"
  unfolding ranked_def by (intro sorted_map_keys [of keys st] kept_sorted) blast

lemma built_ok:
  assumes sc: "schema_ok sc" and st: "staged_ok sc st" and n: "n = length (st_ups st)"
    and ss: "computeShifts (map dlen (st_dicts st)) (idx_dims sc) = Inr ss"
    and keys: "keys = map (\<lambda>r. packKey ss (take (idx_dims sc) (st_ids st ! r))) [0..<n]"
    and perm: "set perm = {0..<n}" "ranked keys st perm"
  shows "snap_ok sc (built st keys now perm sc ss)"
    and "s_dicts (built st keys now perm sc ss) = st_dicts st"
    and "srows (built st keys now perm sc ss) = length (kept st now None perm)"
    and "r < length (kept st now None perm) \<Longrightarrow>
      snap_row (built st keys now perm sc ss) r =
        (st_ids st ! (kept st now None perm ! r), st_row st (kept st now None perm ! r))"
proof -
  define ps where "ps = kept st now None perm"
  define s where "s = built st keys now perm sc ss"
  have sub: "p < n" if "p \<in> set ps" for p
    using that kept_subset [of st now None perm] perm(1) by (auto simp: ps_def)
  have at: "ps ! r < n" if "r < length ps" for r using sub that by simp
  note stD = staged_okD [OF st]
  have rows: "\<forall>p \<in> set ps. length (st_ids st ! p) = ndims sc \<and> length (st_mets st ! p) = nmets sc"
    using sub stD(3) n by blast
  have s_fold: "s = fold (appendBuilt st keys) ps (newColumns sc (st_dicts st) ss)"
    by (simp add: s_def built_def ps_def)
  note cols = built_columns [OF rows, where keys = keys and dicts = "st_dicts st" and ss = ss, folded s_fold]
  have k: "idx_dims sc \<le> ndims sc" using schema_okD [OF sc] by simp
  have ids_at: "ids_ok (st_vals st) (st_ids st ! (ps ! r))" if "r < length ps" for r
    using at [OF that] stD(3) n by blast
  have dist: "distinct (map (\<lambda>p. st_ids st ! p) ps)"
    unfolding ps_def using perm(2) by (rule kept_distinct)
  have row_map: "map (row_of (s_dims s)) [0..<length ps] = map (\<lambda>p. st_ids st ! p) ps"
    by (intro nth_equalityI) (simp_all add: cols(12))
  have sorted: "sorted (s_keys s)"
    unfolding cols(6) ps_def using perm(2) by (rule ranked_keys_sorted)
  have keys_s: "s_keys s = map (\<lambda>r. packKey ss (take (idx_dims sc) (row_of (s_dims s) r))) [0..<srows s]"
    by (intro nth_equalityI) (simp_all add: cols(4,6,12) srows_def keys at)
  have "rows_ok sc (snap_vals s) (s_dims s) (s_mets s) (s_updated s) (s_expire s)"
    unfolding rows_ok_def snap_vals_def cols(2,4,5) st_vals_def [symmetric] length_map row_map
    using cols(8-11) dist ids_at sub stD(3) n by (auto simp: cols(12))
  moreover have "keys_ok s"
    using ss sorted keys_s unfolding keys_ok_def cols(1-3) by simp
  ultimately show "snap_ok sc (built st keys now perm sc ss)"
    using sc stD(1) cols(1,2,7) by (simp add: snap_ok_def s_def [symmetric])
  show "s_dicts (built st keys now perm sc ss) = st_dicts st" using cols(2) by (simp add: s_def)
  show "srows (built st keys now perm sc ss) = length (kept st now None perm)"
    using cols(4) by (simp add: s_def srows_def ps_def)
  show "snap_row (built st keys now perm sc ss) r =
        (st_ids st ! (kept st now None perm ! r), st_row st (kept st now None perm ! r))"
    if "r < length (kept st now None perm)"
    using that cols(4,5,12) by (simp add: s_def [symmetric] ps_def [symmetric] snap_row_def st_row_def)
qed

lemma built_build_of:
  assumes sc: "schema_ok sc" and st: "staged_ok sc st" and n: "n = length (st_ups st)"
    and ss: "computeShifts (map dlen (st_dicts st)) (idx_dims sc) = Inr ss"
    and keys: "keys = map (\<lambda>r. packKey ss (take (idx_dims sc) (st_ids st ! r))) [0..<n]"
    and perm: "set perm = {0..<n}" "ranked keys st perm"
  shows "build_of (st_entries st) now (abs_view (newView (built st keys now perm sc ss)))"
proof -
  define ps where "ps = kept st now None perm"
  define s where "s = built st keys now perm sc ss"
  note b = built_ok [OF assms, where now = now, folded s_def ps_def]
  note stD = staged_okD [OF st]
  define val where "val p = decode (st_vals st) (st_ids st ! p)" for p
  have sub: "p < n" if "p \<in> set ps" for p
    using that kept_subset [of st now None perm] perm(1) by (auto simp: ps_def)
  have entries: "(key, row) \<in> set (st_entries st) \<longleftrightarrow> (\<exists>p < n. key = val p \<and> row = st_row st p)" for key row
    by (auto simp: st_entries_def n val_def)
  have vinj: "val p = val q \<longleftrightarrow> st_ids st ! p = st_ids st ! q" if "p < n" "q < n" for p q
    using that stD(3) n unfolding val_def st_vals_def
    by (metis (no_types, lifting) decode_inj dicts_ok_distinct [OF stD(1)] st_vals_def)
  have tab: "abs_view (newView s) key = Some row \<longleftrightarrow> (\<exists>p \<in> set ps. key = val p \<and> row = st_row st p)" for key row
  proof -
    have "abs_view (newView s) key = Some row \<longleftrightarrow>
        (\<exists>r < srows s. key = decode (snap_vals s) (fst (snap_row s r)) \<and> row = snd (snap_row s r))"
      using b(1,2) stD(2) by (simp add: abs_newView_Some [of sc s] snap_row_def)
    also have "\<dots> \<longleftrightarrow> (\<exists>r < length ps. key = val (ps ! r) \<and> row = st_row st (ps ! r))"
      using b(2-4) by (auto simp: val_def snap_vals_def st_vals_def)
    also have "\<dots> \<longleftrightarrow> (\<exists>p \<in> set ps. key = val p \<and> row = st_row st p)"
      by (metis in_set_conv_nth)
    finally show ?thesis .
  qed
  have new: "newest_in (st_entries st) (val p) (st_row st p)"
    if "p < n" "\<forall>q < n. st_ids st ! q = st_ids st ! p \<longrightarrow> st_ups st ! q \<le> st_ups st ! p" for p
    using that vinj unfolding newest_in_def
    by (auto simp: entries st_row_def) 
  show ?thesis unfolding build_of_def s_def [symmetric]
  proof (intro allI conjI impI)
    fix key row assume "abs_view (newView s) key = Some row"
    then obtain p where p: "p \<in> set ps" "key = val p" "row = st_row st p" by (auto simp: tab)
    have "\<forall>q < n. st_ids st ! q = st_ids st ! p \<longrightarrow> st_ups st ! q \<le> st_ups st ! p"
      using kept_newest [OF perm(2), of p now None] p(1) perm(1) by (simp add: ps_def)
    then show "newest_in (st_entries st) key row" using new sub p by simp
    show "\<not> rowExpired (a_exp row) now"
      using kept_not_expired [of p st now None perm] p by (simp add: ps_def st_row_def)
  next
    fix key assume none: "abs_view (newView s) key = None"
    show "key \<notin> fst ` set (st_entries st) \<or>
        (\<exists>row. newest_in (st_entries st) key row \<and> rowExpired (a_exp row) now)"
    proof (cases "key \<in> fst ` set (st_entries st)")
      case True
      then obtain p where p: "p < n" "key = val p" using entries by force
      then obtain q where q: "q < n" "st_ids st ! q = st_ids st ! p"
        "\<forall>p' < n. st_ids st ! p' = st_ids st ! p \<longrightarrow> st_ups st ! p' \<le> st_ups st ! q"
        "rowExpired (st_exps st ! q) now \<or> q \<in> set ps"
        using kept_complete [OF perm(2), of p None now] perm(1) by (auto simp: ps_def)
      have kq: "key = val q" using p q(1,2) vinj by simp
      have "q \<notin> set ps" using tab [of key "st_row st q"] none kq by auto
      then have "rowExpired (a_exp (st_row st q)) now" using q(4) by (simp add: st_row_def)
      moreover have "newest_in (st_entries st) key (st_row st q)" using new [OF q(1)] q(2,3) kq by simp
      ultimately show ?thesis by blast
    qed simp
  qed
qed

text \<open>
  \<open>buildFromRecords\<close> is the specification, errors included: the first malformed record in
  input order, and otherwise the key overflow of the full dictionaries. The bound says that
  no dictionary of the dump can reach \<open>2^32\<close> values.
\<close>

lemma buildFromRecords_refines:
  assumes srt: "sorter srt" and sc: "schema_ok sc" and len: "length recs < 2 ^ 32"
  shows "case buildFromRecords srt sc recs ttl now of
      Inl e \<Rightarrow> spec_stage sc ttl (zip [0..<length recs] recs) = Inl e \<or>
        (e = ErrKeyOverflow \<and> (\<exists>es. spec_stage sc ttl (zip [0..<length recs] recs) = Inr es))
    | Inr s \<Rightarrow> snap_ok sc s \<and> (\<forall>d < ndims sc. dlen (s_dicts s ! d) < 2 ^ 32) \<and>
        (\<exists>es. spec_stage sc ttl (zip [0..<length recs] recs) = Inr es \<and>
              build_of es now (abs_view (newView s)))"
proof -
  have dl: "dlen (st_dicts (stage0 sc) ! d) = 0" if "d < ndims sc" for d
    using that by (simp add: stage0_def)
  have bnd: "\<forall>d < ndims sc. dlen (st_dicts (stage0 sc) ! d) + length (zip [0..<length recs] recs) < 2 ^ 32"
    using dl len by simp
  note spec = stageRecs_spec [OF staged_ok_0 bnd, of ttl]
  show ?thesis
  proof (cases "stageRecs sc ttl (zip [0..<length recs] recs) (stage0 sc)")
    case (Inl e)
    with spec show ?thesis by (simp add: buildFromRecords_def)
  next
    case (Inr st)
    with spec obtain es where st: "staged_ok sc st"
      and es: "spec_stage sc ttl (zip [0..<length recs] recs) = Inr es" "st_entries st = es"
      by (auto simp: st_entries_def stage0_def)
    show ?thesis
    proof (cases rule: computeShifts_cases [of "map dlen (st_dicts st)" "idx_dims sc"])
      case 1
      with Inr es show ?thesis by (simp add: buildFromRecords_def)
    next
      case (2 ss)
      define keys where "keys = map (\<lambda>r. packKey ss (take (idx_dims sc) (st_ids st ! r))) [0..<length (st_ups st)]"
      define perm where "perm = srt (cmp_entry keys st) [0..<length (st_ups st)]"
      note pr = perm_ranked [OF srt st refl keys_def, folded perm_def]
      have "buildFromRecords srt sc recs ttl now = Inr (built st keys now perm sc ss)"
        using Inr 2 by (simp add: buildFromRecords_def Let_def built_def buildLoop_kept keys_def perm_def)
      then show ?thesis
        using built_ok [OF sc st refl 2 keys_def pr, where now = now]
          built_build_of [OF sc st refl 2 keys_def pr, where now = now] staged_okD(2) [OF st] es by simp
    qed
  qed
qed

end
