(* ===== verification/Merge.thy ===== *)
theory Merge
  imports Build
begin

text \<open>
  \<open>mergeView\<close> and \<open>zipMerge\<close> of \<open>snapshot.go\<close>: folding the delta into a new sorted base,
  without overridden, TTL-expired and per-row-expired rows, with the dictionaries extended in
  place or compacted to the values still in use. Either way the table of the new base is the
  table of the view restricted to the rows that survive.
\<close>

section \<open>Which rows are dropped\<close>

definition dropBase :: "view \<Rightarrow> i64 \<Rightarrow> i64 \<Rightarrow> nat \<Rightarrow> bool" where
  "dropBase v ttlCutoff now r \<longleftrightarrow>
     bitGet (v_overridden v) r \<or> s_updated (v_base v) ! r < ttlCutoff \<or>
     rowExpired (s_expire (v_base v) ! r) now"

definition dropDelta :: "view \<Rightarrow> i64 \<Rightarrow> i64 \<Rightarrow> nat \<Rightarrow> bool" where
  "dropDelta v ttlCutoff now r \<longleftrightarrow>
     d_updated (v_delta v) ! r < ttlCutoff \<or> rowExpired (d_expire (v_delta v) ! r) now"

section \<open>Dictionaries\<close>

text \<open>Without renumbering: the base dictionary, extended by the extras in id order.\<close>

definition mergedDict :: "dict \<Rightarrow> dict \<Rightarrow> dict" where
  "mergedDict b ext =
     (if dlen ext = 0 then b
      else fold (\<lambda>i d. snd (addFrom d ext (of_nat i))) [0..<dlen ext] (dict_clone b))"

text \<open>With renumbering: the ids in use, dimension by dimension, as bitmaps.\<close>

definition markRow :: "u32 list \<Rightarrow> u64 list list \<Rightarrow> u64 list list" where
  "markRow is used = map2 (\<lambda>b i. bitSet b (unat i)) used is"

definition markUsed :: "schema \<Rightarrow> view \<Rightarrow> i64 \<Rightarrow> i64 \<Rightarrow> u64 list list" where
  "markUsed sc v ttlCutoff now =
     (let base = v_base v; d = v_delta v;
          used0 = map (\<lambda>i. replicate ((dlen (s_dicts base ! i) + dlen (v_extras v ! i) + 63) div 64) 0)
                    [0..<ndims sc];
          used1 = fold (\<lambda>r u. if dropBase v ttlCutoff now r then u else markRow (row_of (s_dims base) r) u)
                    [0..<srows base] used0
      in fold (\<lambda>r u. if dropDelta v ttlCutoff now r then u else markRow (row_of (d_dims d) r) u)
           [0..<drows d] used1)"

text \<open>The compacted dictionary of one dimension and the array from old to new ids.\<close>

definition compactStep :: "dict \<Rightarrow> dict \<Rightarrow> u64 list \<Rightarrow> nat \<Rightarrow> dict \<times> u32 list \<Rightarrow> dict \<times> u32 list" where
  "compactStep b ext used old st =
     (if \<not> bitGet used old then st
      else if old < dlen b then
        (let (i, d') = addFrom (fst st) b (of_nat old) in (d', (snd st)[old := i]))
      else
        (let (i, d') = addFrom (fst st) ext (of_nat (old - dlen b)) in (d', (snd st)[old := i])))"

definition compactDim :: "bool \<Rightarrow> dict \<Rightarrow> dict \<Rightarrow> u64 list \<Rightarrow> dict \<times> u32 list" where
  "compactDim isnum b ext used =
     fold (compactStep b ext used) [0..<dlen b + dlen ext] (newDict isnum, replicate (dlen b + dlen ext) 0)"

section \<open>The zip\<close>

definition mapID :: "u32 list list option \<Rightarrow> nat \<Rightarrow> u32 \<Rightarrow> u32" where
  "mapID remap d i = (case remap of None \<Rightarrow> i | Some m \<Rightarrow> m ! d ! unat i)"

definition appendCols :: "u32 list \<Rightarrow> f64 list \<Rightarrow> i64 \<Rightarrow> i64 \<Rightarrow> u64 \<Rightarrow> snapshot \<Rightarrow> snapshot" where
  "appendCols is ms u e key out =
     out\<lparr>s_dims := append_row (s_dims out) is, s_mets := append_row (s_mets out) ms,
         s_updated := s_updated out @ [u], s_expire := s_expire out @ [e],
         s_keys := s_keys out @ [key]\<rparr>"

function skip :: "nat \<Rightarrow> (nat \<Rightarrow> bool) \<Rightarrow> nat \<Rightarrow> nat" where
  "skip n dropped i = (if i < n \<and> dropped i then skip n dropped (i + 1) else i)"
  by pat_completeness auto
termination
  by (relation "measure (\<lambda>(n, dropped, i). n - i)") auto

declare skip.simps [simp del]

lemma skip_ge: "i \<le> skip n dropped i"
  by (induction n dropped i rule: skip.induct) (subst skip.simps, force)

text \<open>
  The loop over \<open>bi\<close> and \<open>di\<close>, with the closures of the code as arguments and the cached key
  \<open>bk\<close> of the base row at hand. Past the \<open>break\<close> one of the sides has a row, so the
  \<open>else if dOK\<close> of the code is an \<open>else\<close>.
\<close>

function zipLoop :: "nat \<Rightarrow> (nat \<Rightarrow> bool) \<Rightarrow> (nat \<Rightarrow> u64) \<Rightarrow> (nat \<Rightarrow> u64 \<Rightarrow> snapshot \<Rightarrow> snapshot)
    \<Rightarrow> nat \<Rightarrow> (nat \<Rightarrow> bool) \<Rightarrow> (nat \<Rightarrow> u64) \<Rightarrow> (nat \<Rightarrow> u64 \<Rightarrow> snapshot \<Rightarrow> snapshot)
    \<Rightarrow> nat \<Rightarrow> nat \<Rightarrow> u64 \<Rightarrow> bool \<Rightarrow> snapshot \<Rightarrow> snapshot" where
  "zipLoop nb dropB bkey appB nd dropD dkey appD bi di bk bkValid out =
     (if bi < nb \<or> di < nd then
        let bi1 = skip nb dropB bi; valid1 = (bkValid \<and> bi1 = bi); di1 = skip nd dropD di;
            bOK = bi1 < nb; dOK = di1 < nd
        in if \<not> bOK \<and> \<not> dOK then out
           else
             let bk1 = (if bOK \<and> \<not> valid1 then bkey bi1 else bk); valid2 = (valid1 \<or> bOK)
             in if bOK \<and> (\<not> dOK \<or> bk1 \<le> dkey di1)
                then zipLoop nb dropB bkey appB nd dropD dkey appD (bi1 + 1) di1 bk1 False (appB bi1 bk1 out)
                else zipLoop nb dropB bkey appB nd dropD dkey appD bi1 (di1 + 1) bk1 valid2
                       (appD di1 (dkey di1) out)
      else out)"
  by pat_completeness auto
termination
proof (relation "measure (\<lambda>(nb, _, _, _, nd, _, _, _, bi, di, _). (nb - bi) + (nd - di))", goal_cases)
  case (2 nb dropB bkey appB nd dropD dkey appD bi di bk bkValid out bi1 v1 di1 bOK dOK bk1 v2)
  then show ?case using skip_ge [of bi nb dropB] skip_ge [of di nd dropD] by simp
next
  case (3 nb dropB bkey appB nd dropD dkey appD bi di bk bkValid out bi1 v1 di1 bOK dOK bk1 v2)
  then show ?case using skip_ge [of bi nb dropB] skip_ge [of di nd dropD] by auto
qed simp

declare zipLoop.simps [simp del]

text \<open>The last pass, over \<open>out.updated\<close>.\<close>

definition trackAll :: "snapshot \<Rightarrow> snapshot" where
  "trackAll out =
     fold (\<lambda>(u, e) s. trackMin (if u > s_maxUpdated s then s\<lparr>s_maxUpdated := u\<rparr> else s) u e)
       (zip (s_updated out) (s_expire out)) out"

definition zipMerge :: "nat sort_fn \<Rightarrow> schema \<Rightarrow> view \<Rightarrow> i64 \<Rightarrow> i64 \<Rightarrow> dict list \<Rightarrow> u32 list list option
    \<Rightarrow> err + snapshot" where
  "zipMerge srt sc v ttlCutoff now dicts remap =
     (case computeShifts (map dlen dicts) (idx_dims sc) of
        Inl e \<Rightarrow> Inl e
      | Inr ss \<Rightarrow>
          (let base = v_base v; d = v_delta v;
               dKeys = map (\<lambda>r. packKey ss (map (\<lambda>i. mapID remap i (d_dims d ! i ! r)) [0..<idx_dims sc]))
                         [0..<drows d];
               dPerm = srt (\<lambda>a b. if dKeys ! a < dKeys ! b then - 1 else if dKeys ! a > dKeys ! b then 1 else 0)
                         [0..<drows d];
               appendBase = (\<lambda>r key. appendCols
                  (map (\<lambda>i. mapID remap i (s_dims base ! i ! r)) [0..<ndims sc])
                  (row_of (s_mets base) r) (s_updated base ! r) (s_expire base ! r) key);
               appendDelta = (\<lambda>r key. appendCols
                  (map (\<lambda>i. mapID remap i (d_dims d ! i ! r)) [0..<ndims sc])
                  (row_of (d_mets d) r) (d_updated d ! r) (d_expire d ! r) key);
               keysStable = (remap = None \<and> ss = s_shifts base);
               baseKey = (\<lambda>r. if keysStable then s_keys base ! r
                  else packKey ss (map (\<lambda>i. mapID remap i (s_dims base ! i ! r)) [0..<idx_dims sc]))
           in Inr (trackAll
                (zipLoop (srows base) (dropBase v ttlCutoff now) baseKey appendBase
                   (drows d) (\<lambda>di. dropDelta v ttlCutoff now (dPerm ! di)) (\<lambda>di. dKeys ! (dPerm ! di))
                   (\<lambda>di. appendDelta (dPerm ! di))
                   0 0 0 False (newColumns sc dicts ss)))))"

definition mergeView :: "nat sort_fn \<Rightarrow> schema \<Rightarrow> view \<Rightarrow> i64 \<Rightarrow> i64 \<Rightarrow> bool \<Rightarrow> err + snapshot" where
  "mergeView srt sc v ttlCutoff now renumber =
     (if \<not> renumber then
        zipMerge srt sc v ttlCutoff now
          (map (\<lambda>i. mergedDict (s_dicts (v_base v) ! i) (v_extras v ! i)) [0..<ndims sc]) None
      else
        let used = markUsed sc v ttlCutoff now;
            compacted = map (\<lambda>i. compactDim (isInt sc i) (s_dicts (v_base v) ! i) (v_extras v ! i) (used ! i))
                          [0..<ndims sc]
        in zipMerge srt sc v ttlCutoff now (map fst compacted) (Some (map snd compacted)))"

section \<open>The loop merges two keyed lists\<close>

fun zip_merge :: "('k::linorder \<times> 'a) list \<Rightarrow> ('k \<times> 'a) list \<Rightarrow> ('k \<times> 'a) list" where
  "zip_merge (x # xs) (y # ys) =
     (if fst x \<le> fst y then x # zip_merge xs (y # ys) else y # zip_merge (x # xs) ys)"
| "zip_merge xs [] = xs"
| "zip_merge [] ys = ys"

lemma mset_zip_merge [simp]: "mset (zip_merge xs ys) = mset xs + mset ys"
  by (induction xs ys rule: zip_merge.induct) auto

lemma set_zip_merge [simp]: "set (zip_merge xs ys) = set xs \<union> set ys"
  by (metis mset_zip_merge set_mset_mset set_mset_union)

lemma sorted_zip_merge:
  "sorted (map fst xs) \<Longrightarrow> sorted (map fst ys) \<Longrightarrow> sorted (map fst (zip_merge xs ys))"
  by (induction xs ys rule: zip_merge.induct) (auto intro: order_trans)

lemma zip_merge_Nil [simp]: "zip_merge xs [] = xs" "zip_merge [] ys = ys"
  by (cases xs; simp) (cases ys; simp)

lemma skip_stop: "skip n dropped i < n \<Longrightarrow> \<not> dropped (skip n dropped i)"
proof (induction n dropped i rule: skip.induct)
  case (1 n dropped i)
  then show ?case
    by (cases "i < n \<and> dropped i") (auto simp: skip.simps [of n dropped i])
qed

text \<open>The rows from \<open>i\<close> on that are not dropped, each with its key and contents.\<close>

definition live_from :: "nat \<Rightarrow> (nat \<Rightarrow> bool) \<Rightarrow> (nat \<Rightarrow> 'k) \<Rightarrow> (nat \<Rightarrow> 'a) \<Rightarrow> nat \<Rightarrow> ('k \<times> 'a) list" where
  "live_from n dropped key x i = map (\<lambda>r. (key r, x r)) (filter (\<lambda>r. \<not> dropped r) [i..<n])"

lemma live_from_skip:
  "live_from n dropped key x i =
     (let j = skip n dropped i in if j < n then (key j, x j) # live_from n dropped key x (j + 1) else [])"
proof (induction n dropped i rule: skip.induct)
  case (1 n dropped i)
  show ?case
  proof (cases "i < n \<and> dropped i")
    case True
    then have "live_from n dropped key x i = live_from n dropped key x (i + 1)"
      by (simp add: live_from_def upt_conv_Cons)
    with 1 True show ?thesis by (simp add: skip.simps [of n dropped i])
  next
    case False
    then show ?thesis by (auto simp: skip.simps [of n dropped i] live_from_def upt_conv_Cons)
  qed
qed

lemma live_from_ge: "n \<le> i \<Longrightarrow> live_from n dropped key x i = []"
  by (simp add: live_from_def)

lemma zipLoop_merge:
  assumes "\<And>r k s. appB r k s = app (k, bx r) s" "\<And>r k s. appD r k s = app (k, dx r) s"
    and "bkValid \<Longrightarrow> bk = bkey bi"
  shows "zipLoop nb dropB bkey appB nd dropD dkey appD bi di bk bkValid out =
    fold app (zip_merge (live_from nb dropB bkey bx bi) (live_from nd dropD dkey dx di)) out"
  using assms
proof (induction nb dropB bkey appB nd dropD dkey appD bi di bk bkValid out rule: zipLoop.induct)
  case (1 nb dropB bkey appB nd dropD dkey appD bi di bk bkValid out)
  let ?B = "live_from nb dropB bkey bx" and ?D = "live_from nd dropD dkey dx"
  let ?loop = "zipLoop nb dropB bkey appB nd dropD dkey appD"
  define bi1 where "bi1 = skip nb dropB bi"
  define valid1 where "valid1 = (bkValid \<and> bi1 = bi)"
  define di1 where "di1 = skip nd dropD di"
  define bk1 where "bk1 = (if bi1 < nb \<and> \<not> valid1 then bkey bi1 else bk)"
  note defs = bi1_def [symmetric] valid1_def [symmetric] di1_def [symmetric] bk1_def [symmetric]
  have B: "?B bi = (if bi1 < nb then (bkey bi1, bx bi1) # ?B (bi1 + 1) else [])"
    by (subst live_from_skip) (simp add: Let_def bi1_def)
  have D: "?D di = (if di1 < nd then (dkey di1, dx di1) # ?D (di1 + 1) else [])"
    by (subst live_from_skip) (simp add: Let_def di1_def)
  have B1: "bi1 < nb \<Longrightarrow> ?B bi1 = ?B bi" and D1: "di1 < nd \<Longrightarrow> ?D di1 = ?D di"
    using B D skip_stop by (simp_all add: live_from_def bi1_def di1_def upt_conv_Cons)
  have bk1: "bk1 = bkey bi1" if "valid1 \<or> bi1 < nb" using that "1.prems"(3) by (auto simp: bk1_def valid1_def)
  show ?case
  proof (cases "bi < nb \<or> di < nd")
    case False
    then show ?thesis by (simp add: zipLoop.simps [of nb] live_from_ge)
  next
    case run: True
    have step: "?loop bi di bk bkValid out =
       (if \<not> bi1 < nb \<and> \<not> di1 < nd then out
        else if bi1 < nb \<and> (\<not> di1 < nd \<or> bk1 \<le> dkey di1)
        then ?loop (bi1 + 1) di1 bk1 False (appB bi1 bk1 out)
        else ?loop bi1 (di1 + 1) bk1 (valid1 \<or> bi1 < nb) (appD di1 (dkey di1) out))"
      by (subst zipLoop.simps) (simp only: Let_def defs run if_True)
    consider (stop) "\<not> bi1 < nb" "\<not> di1 < nd"
      | (base) "bi1 < nb" "\<not> di1 < nd \<or> bk1 \<le> dkey di1"
      | (delta) "di1 < nd" "\<not> (bi1 < nb \<and> bk1 \<le> dkey di1)" by blast
    then show ?thesis
    proof cases
      case stop
      then show ?thesis by (simp add: step B D)
    next
      case base
      have "?loop bi di bk bkValid out = ?loop (bi1 + 1) di1 bk1 False (appB bi1 bk1 out)"
        using base by (simp only: step) simp
      also have "\<dots> = fold app (zip_merge (?B (bi1 + 1)) (?D di1)) (appB bi1 bk1 out)"
        by (rule "1.IH"(1) [OF run bi1_def valid1_def di1_def refl refl _ bk1_def refl])
           (use base "1.prems"(1,2) in simp_all)
      also have "\<dots> = fold app (zip_merge (?B bi) (?D di)) out"
        using base D1 "1.prems"(1) bk1
        by (cases "di1 < nd") (auto simp: B D live_from_ge)
      finally show ?thesis .
    next
      case delta
      have "?loop bi di bk bkValid out = ?loop bi1 (di1 + 1) bk1 (valid1 \<or> bi1 < nb) (appD di1 (dkey di1) out)"
        using delta by (simp only: step) auto
      also have "\<dots> = fold app (zip_merge (?B bi1) (?D (di1 + 1))) (appD di1 (dkey di1) out)"
        by (rule "1.IH"(2) [OF run bi1_def valid1_def di1_def refl refl _ bk1_def refl])
           (use delta "1.prems"(1,2) bk1 in auto)
      also have "\<dots> = fold app (zip_merge (?B bi) (?D di)) out"
        using delta B1 "1.prems"(2) bk1
        by (cases "bi1 < nb") (auto simp: B D live_from_ge)
      finally show ?thesis .
    qed
  qed
qed

section \<open>A base from keyed entries\<close>

type_synonym entry = "u64 \<times> u32 list \<times> arow"

definition appendEntry :: "entry \<Rightarrow> snapshot \<Rightarrow> snapshot" where
  "appendEntry e = appendCols (fst (snd e)) (a_mets (snd (snd e))) (a_upd (snd (snd e))) (a_exp (snd (snd e))) (fst e)"

definition snapOf :: "schema \<Rightarrow> dict list \<Rightarrow> nat list \<Rightarrow> entry list \<Rightarrow> snapshot" where
  "snapOf sc dicts ss es = trackAll (fold appendEntry es (newColumns sc dicts ss))"

definition entry_ok :: "schema \<Rightarrow> dict list \<Rightarrow> nat list \<Rightarrow> entry \<Rightarrow> bool" where
  "entry_ok sc dicts ss e \<longleftrightarrow>
     ids_ok (map dict_vals dicts) (fst (snd e)) \<and> length (a_mets (snd (snd e))) = nmets sc \<and>
     i64_ok (a_upd (snd (snd e))) \<and> i64_ok (a_exp (snd (snd e))) \<and>
     fst e = packKey ss (take (idx_dims sc) (fst (snd e)))"

lemma appendEntry_simps [simp]:
  "s_dims (appendEntry e s) = append_row (s_dims s) (fst (snd e))"
  "s_mets (appendEntry e s) = append_row (s_mets s) (a_mets (snd (snd e)))"
  "s_updated (appendEntry e s) = s_updated s @ [a_upd (snd (snd e))]"
  "s_expire (appendEntry e s) = s_expire s @ [a_exp (snd (snd e))]"
  "s_keys (appendEntry e s) = s_keys s @ [fst e]"
  "s_sc (appendEntry e s) = s_sc s" "s_dicts (appendEntry e s) = s_dicts s"
  "s_shifts (appendEntry e s) = s_shifts s" "s_maxUpdated (appendEntry e s) = s_maxUpdated s"
  "s_minUpdated (appendEntry e s) = s_minUpdated s" "s_minExpire (appendEntry e s) = s_minExpire s"
  by (simp_all add: appendEntry_def appendCols_def)

lemma trackAll_times:
  "s_maxUpdated (trackAll s) = fold max (map fst (zip (s_updated s) (s_expire s))) (s_maxUpdated s)"
  "s_minUpdated (trackAll s) = fold min_upd_step (map fst (zip (s_updated s) (s_expire s))) (s_minUpdated s)"
  "s_minExpire (trackAll s) = fold min_exp_step (map snd (zip (s_updated s) (s_expire s))) (s_minExpire s)"
  "s_sc (trackAll s) = s_sc s" "s_dicts (trackAll s) = s_dicts s" "s_dims (trackAll s) = s_dims s"
  "s_mets (trackAll s) = s_mets s" "s_updated (trackAll s) = s_updated s"
  "s_expire (trackAll s) = s_expire s" "s_keys (trackAll s) = s_keys s" "s_shifts (trackAll s) = s_shifts s"
proof -
  let ?f = "\<lambda>(u, e) s. trackMin (if u > s_maxUpdated s then s\<lparr>s_maxUpdated := u\<rparr> else s) u e"
  have "s_maxUpdated (fold ?f xs s) = fold max (map fst xs) (s_maxUpdated s) \<and>
      s_minUpdated (fold ?f xs s) = fold min_upd_step (map fst xs) (s_minUpdated s) \<and>
      s_minExpire (fold ?f xs s) = fold min_exp_step (map snd xs) (s_minExpire s) \<and>
      s_sc (fold ?f xs s) = s_sc s \<and> s_dicts (fold ?f xs s) = s_dicts s \<and>
      s_dims (fold ?f xs s) = s_dims s \<and> s_mets (fold ?f xs s) = s_mets s \<and>
      s_updated (fold ?f xs s) = s_updated s \<and> s_expire (fold ?f xs s) = s_expire s \<and>
      s_keys (fold ?f xs s) = s_keys s \<and> s_shifts (fold ?f xs s) = s_shifts s" for xs s
    by (induction xs arbitrary: s) (auto simp: max_def)
  then show "s_maxUpdated (trackAll s) = fold max (map fst (zip (s_updated s) (s_expire s))) (s_maxUpdated s)"
  "s_minUpdated (trackAll s) = fold min_upd_step (map fst (zip (s_updated s) (s_expire s))) (s_minUpdated s)"
  "s_minExpire (trackAll s) = fold min_exp_step (map snd (zip (s_updated s) (s_expire s))) (s_minExpire s)"
  "s_sc (trackAll s) = s_sc s" "s_dicts (trackAll s) = s_dicts s" "s_dims (trackAll s) = s_dims s"
  "s_mets (trackAll s) = s_mets s" "s_updated (trackAll s) = s_updated s"
  "s_expire (trackAll s) = s_expire s" "s_keys (trackAll s) = s_keys s" "s_shifts (trackAll s) = s_shifts s"
    by (auto simp: trackAll_def)
qed

lemma snapOf_columns:
  assumes "\<forall>e \<in> set es. length (fst (snd e)) = ndims sc \<and> length (a_mets (snd (snd e))) = nmets sc"
  shows "s_sc (snapOf sc dicts ss es) = sc" "s_dicts (snapOf sc dicts ss es) = dicts"
    "s_shifts (snapOf sc dicts ss es) = ss"
    "s_updated (snapOf sc dicts ss es) = map (\<lambda>e. a_upd (snd (snd e))) es"
    "s_expire (snapOf sc dicts ss es) = map (\<lambda>e. a_exp (snd (snd e))) es"
    "s_keys (snapOf sc dicts ss es) = map fst es" "minmax_ok (snapOf sc dicts ss es)"
    "length (s_dims (snapOf sc dicts ss es)) = ndims sc" "cols_len (s_dims (snapOf sc dicts ss es)) (length es)"
    "length (s_mets (snapOf sc dicts ss es)) = nmets sc" "cols_len (s_mets (snapOf sc dicts ss es)) (length es)"
    "\<And>r. r < length es \<Longrightarrow> row_of (s_dims (snapOf sc dicts ss es)) r = fst (snd (es ! r))"
    "\<And>r. r < length es \<Longrightarrow> row_of (s_mets (snapOf sc dicts ss es)) r = a_mets (snd (snd (es ! r)))"
proof -
  define s where "s = fold appendEntry es (newColumns sc dicts ss)"
  have s: "s_sc s = sc \<and> s_dicts s = dicts \<and> s_shifts s = ss \<and>
    s_updated s = map (\<lambda>e. a_upd (snd (snd e))) es \<and> s_expire s = map (\<lambda>e. a_exp (snd (snd e))) es \<and>
    s_keys s = map fst es \<and> s_maxUpdated s = 0 \<and> s_minUpdated s = 0 \<and> s_minExpire s = 0 \<and>
    length (s_dims s) = ndims sc \<and> cols_len (s_dims s) (length es) \<and>
    length (s_mets s) = nmets sc \<and> cols_len (s_mets s) (length es) \<and>
    (\<forall>r < length es. row_of (s_dims s) r = fst (snd (es ! r)) \<and>
      row_of (s_mets s) r = a_mets (snd (snd (es ! r))))"
    using assms unfolding s_def
  proof (induction es rule: rev_induct)
    case Nil
    then show ?case by (simp add: newColumns_def)
  next
    case (snoc e es)
    then show ?case
      by (auto simp: cols_len_append_row row_of_append_row_old row_of_append_row_new
          nth_append less_Suc_eq)
  qed
  moreover have "minmax_ok (trackAll s)"
    using s by (simp add: minmax_ok_def trackAll_times)
  ultimately show "s_sc (snapOf sc dicts ss es) = sc" "s_dicts (snapOf sc dicts ss es) = dicts"
    "s_shifts (snapOf sc dicts ss es) = ss"
    "s_updated (snapOf sc dicts ss es) = map (\<lambda>e. a_upd (snd (snd e))) es"
    "s_expire (snapOf sc dicts ss es) = map (\<lambda>e. a_exp (snd (snd e))) es"
    "s_keys (snapOf sc dicts ss es) = map fst es" "minmax_ok (snapOf sc dicts ss es)"
    "length (s_dims (snapOf sc dicts ss es)) = ndims sc" "cols_len (s_dims (snapOf sc dicts ss es)) (length es)"
    "length (s_mets (snapOf sc dicts ss es)) = nmets sc" "cols_len (s_mets (snapOf sc dicts ss es)) (length es)"
    "\<And>r. r < length es \<Longrightarrow> row_of (s_dims (snapOf sc dicts ss es)) r = fst (snd (es ! r))"
    "\<And>r. r < length es \<Longrightarrow> row_of (s_mets (snapOf sc dicts ss es)) r = a_mets (snd (snd (es ! r)))"
    by (simp_all add: snapOf_def s_def [symmetric] trackAll_times)
qed

lemma snapOf_ok:
  assumes sc: "schema_ok sc" and dicts: "dicts_ok sc dicts"
    and ss: "computeShifts (map dlen dicts) (idx_dims sc) = Inr ss"
    and es: "\<forall>e \<in> set es. entry_ok sc dicts ss e"
    and dist: "distinct (map (\<lambda>e. fst (snd e)) es)" and srt: "sorted (map fst es)"
  shows "snap_ok sc (snapOf sc dicts ss es)" "s_dicts (snapOf sc dicts ss es) = dicts"
    "srows (snapOf sc dicts ss es) = length es"
    "\<And>r. r < length es \<Longrightarrow> snap_row (snapOf sc dicts ss es) r = snd (es ! r)"
proof -
  let ?s = "snapOf sc dicts ss es"
  have len: "length (fst (snd e)) = ndims sc" if "e \<in> set es" for e
    using es that dicts ids_okD(1) by (fastforce simp: entry_ok_def dicts_ok_def)
  have "\<forall>e \<in> set es. length (fst (snd e)) = ndims sc \<and> length (a_mets (snd (snd e))) = nmets sc"
    using es len by (auto simp: entry_ok_def)
  note cols = snapOf_columns [OF this, where dicts = dicts and ss = ss]
  have at: "entry_ok sc dicts ss (es ! r)" if "r < length es" for r using es that by simp
  have row_map: "map (row_of (s_dims ?s)) [0..<length es] = map (\<lambda>e. fst (snd e)) es"
    by (intro nth_equalityI) (simp_all add: cols(12))
  have "rows_ok sc (snap_vals ?s) (s_dims ?s) (s_mets ?s) (s_updated ?s) (s_expire ?s)"
    unfolding rows_ok_def snap_vals_def cols(2,4,5) length_map row_map
    using cols(8-11) dist at es by (auto simp: cols(12) entry_ok_def)
  moreover have "s_keys ?s = map (\<lambda>r. packKey ss (take (idx_dims sc) (row_of (s_dims ?s) r))) [0..<srows ?s]"
    by (intro nth_equalityI) (use at in \<open>simp_all add: cols(4,6,12) srows_def entry_ok_def\<close>)
  then have "keys_ok ?s"
    unfolding keys_ok_def cols(1-3) using ss srt cols(6) by simp
  ultimately show "snap_ok sc ?s"
    using sc dicts cols(1,2,7) by (simp add: snap_ok_def)
  show "s_dicts ?s = dicts" by (rule cols(2))
  show "srows ?s = length es" using cols(4) by (simp add: srows_def)
  fix r assume r: "r < length es"
  then show "snap_row ?s r = snd (es ! r)"
    using cols(4,5,12,13) by (simp add: snap_row_def prod_eq_iff)
qed

section \<open>The rows that survive\<close>

definition keep_row :: "i64 \<Rightarrow> i64 \<Rightarrow> arow \<Rightarrow> bool" where
  "keep_row ttlCutoff now row \<longleftrightarrow> \<not> (a_upd row < ttlCutoff \<or> rowExpired (a_exp row) now)"

definition survivors :: "i64 \<Rightarrow> i64 \<Rightarrow> ('k \<rightharpoonup> arow) \<Rightarrow> ('k \<rightharpoonup> arow)" where
  "survivors ttlCutoff now A = (\<lambda>k. case A k of
     Some row \<Rightarrow> if keep_row ttlCutoff now row then Some row else None | None \<Rightarrow> None)"

definition live_rows :: "view \<Rightarrow> i64 \<Rightarrow> i64 \<Rightarrow> (u32 list \<times> arow) list" where
  "live_rows v ttlCutoff now = filter (\<lambda>x. keep_row ttlCutoff now (snd x)) (view_rows v)"

definition mapIDs :: "u32 list list option \<Rightarrow> u32 list \<Rightarrow> u32 list" where
  "mapIDs remap is = map (\<lambda>d. mapID remap d (is ! d)) [0..<length is]"

text \<open>
  What the zip needs of dictionaries and remap: a surviving row keeps its values under the
  new ids, and in every dimension the ids of surviving rows keep their order.
\<close>

definition carries :: "schema \<Rightarrow> view \<Rightarrow> i64 \<Rightarrow> i64 \<Rightarrow> dict list \<Rightarrow> u32 list list option \<Rightarrow> bool" where
  "carries sc v ttlCutoff now dicts remap \<longleftrightarrow>
     dicts_ok sc dicts \<and> (\<forall>d < ndims sc. dlen (dicts ! d) < 2 ^ 32) \<and>
     (\<forall>(is, row) \<in> set (live_rows v ttlCutoff now).
        ids_ok (map dict_vals dicts) (mapIDs remap is) \<and>
        decode (map dict_vals dicts) (mapIDs remap is) = decode (view_vals v) is) \<and>
     (\<forall>(is, _) \<in> set (live_rows v ttlCutoff now). \<forall>(js, _) \<in> set (live_rows v ttlCutoff now).
        \<forall>d < ndims sc. is ! d < js ! d \<longrightarrow> mapID remap d (is ! d) < mapID remap d (js ! d))"

lemma length_mapIDs [simp]: "length (mapIDs remap is) = length is"
  by (simp add: mapIDs_def)

lemma mapIDs_nth [simp]: "d < length is \<Longrightarrow> mapIDs remap is ! d = mapID remap d (is ! d)"
  by (simp add: mapIDs_def)

lemma carriesD:
  assumes "carries sc v ttl now dicts remap"
  shows "dicts_ok sc dicts" "\<And>d. d < ndims sc \<Longrightarrow> dlen (dicts ! d) < 2 ^ 32"
    and "\<And>is row. (is, row) \<in> set (live_rows v ttl now) \<Longrightarrow> ids_ok (map dict_vals dicts) (mapIDs remap is)"
    and "\<And>is row. (is, row) \<in> set (live_rows v ttl now) \<Longrightarrow>
      decode (map dict_vals dicts) (mapIDs remap is) = decode (view_vals v) is"
    and "\<And>is row js row' d. (is, row) \<in> set (live_rows v ttl now) \<Longrightarrow>
      (js, row') \<in> set (live_rows v ttl now) \<Longrightarrow> d < ndims sc \<Longrightarrow> is ! d < js ! d \<Longrightarrow>
      mapID remap d (is ! d) < mapID remap d (js ! d)"
proof -
  note c = assms [unfolded carries_def]
  show "dicts_ok sc dicts" "\<And>d. d < ndims sc \<Longrightarrow> dlen (dicts ! d) < 2 ^ 32" using c by blast+
  fix "is" row js row' d assume i: "(is, row) \<in> set (live_rows v ttl now)"
  show "ids_ok (map dict_vals dicts) (mapIDs remap is)"
    "decode (map dict_vals dicts) (mapIDs remap is) = decode (view_vals v) is"
    using c i by blast+
  assume "(js, row') \<in> set (live_rows v ttl now)" "d < ndims sc" "is ! d < js ! d"
  then show "mapID remap d (is ! d) < mapID remap d (js ! d)" using c i by blast
qed

lemma live_rows_view: "x \<in> set (live_rows v ttl now) \<Longrightarrow> x \<in> set (view_rows v)"
  by (simp add: live_rows_def)

lemma live_rows_split:
  "live_rows v ttl now =
     map (snap_row (v_base v)) (filter (\<lambda>r. \<not> dropBase v ttl now r) [0..<srows (v_base v)]) @
     map (delta_row (v_delta v)) (filter (\<lambda>r. \<not> dropDelta v ttl now r) [0..<drows (v_delta v)])"
  by (simp add: live_rows_def view_rows_def base_rows_def delta_rows_def filter_map comp_def
      keep_row_def dropBase_def dropDelta_def snap_row_def delta_row_def conj_commute)

lemma lexle_mono:
  assumes "length is = length js"
    and "\<And>d. d < length is \<Longrightarrow> is ! d < js ! d \<Longrightarrow> f d (is ! d) < (f d (js ! d) :: u32)"
    and "lexle (map unat is) (map unat (js :: u32 list))"
  shows "lexle (map unat (map (\<lambda>d. f d (is ! d)) [0..<length is]))
    (map unat (map (\<lambda>d. f d (js ! d)) [0..<length js]))"
  using assms
proof (induction "is" js arbitrary: f rule: list_induct2)
  case Nil
  then show ?case by simp
next
  case (Cons i "is" j js)
  have up: "map (\<lambda>d. f d ((x # xs) ! d)) [0..<length (x # xs)] =
      f 0 x # map (\<lambda>d. f (Suc d) (xs ! d)) [0..<length xs]" for x :: u32 and xs
    by (simp add: upt_conv_Cons map_Suc_upt [symmetric] del: upt_Suc)
  have IH: "lexle (map unat (map (\<lambda>d. f (Suc d) (is ! d)) [0..<length is]))
    (map unat (map (\<lambda>d. f (Suc d) (js ! d)) [0..<length js]))" if "lexle (map unat is) (map unat js)"
  proof (rule Cons.IH [OF _ that])
    fix d assume "d < length is" "is ! d < js ! d"
    with Cons.prems(1) [of "Suc d"] show "f (Suc d) (is ! d) < f (Suc d) (js ! d)" by simp
  qed
  show ?case unfolding up
    using Cons.prems(2) Cons.prems(1) [of 0] IH word_unat_eq_iff [of i j]
    by (cases "i = j") (auto simp: word_less_nat_alt)
qed

lemma live_rows_inj:
  assumes v: "view_ok sc v" and c: "carries sc v ttl now dicts remap"
    and "(is, row) \<in> set (live_rows v ttl now)" "(js, row') \<in> set (live_rows v ttl now)"
    and "mapIDs remap is = mapIDs remap js"
  shows "is = js"
proof (rule decode_inj)
  show "ids_ok (view_vals v) is" "ids_ok (view_vals v) js"
    using assms by (auto dest!: live_rows_view intro: view_rows_ids_ok [OF v])
  show "decode (view_vals v) is = decode (view_vals v) js"
    using carriesD(4) [OF c assms(3)] carriesD(4) [OF c assms(4)] assms(5) by simp
qed (rule view_vals_distinct [OF v])

lemma mapped_distinct:
  assumes v: "view_ok sc v" and c: "carries sc v ttl now dicts remap"
  shows "distinct (map (\<lambda>x. mapIDs remap (fst x)) (live_rows v ttl now))"
proof -
  have d: "distinct (map fst (live_rows v ttl now))"
    using view_rows_distinct [OF v] by (simp add: live_rows_def distinct_map_filter)
  have "inj_on (mapIDs remap) (set (map fst (live_rows v ttl now)))"
    by (auto intro!: inj_onI live_rows_inj [OF v c])
  then have "distinct (map (mapIDs remap) (map fst (live_rows v ttl now)))"
    using d by (simp only: distinct_map)
  then show ?thesis by (simp add: comp_def)
qed

section \<open>The zip of the live rows\<close>

lemma filter_perm:
  assumes "length ps = n"
  shows "live_from n (\<lambda>i. dropped (ps ! i)) (\<lambda>i. key (ps ! i)) (\<lambda>i. x (ps ! i)) 0 =
    map (\<lambda>r. (key r, x r)) (filter (\<lambda>r. \<not> dropped r) ps)"
proof -
  have "map (\<lambda>i. ps ! i) [0..<n] = ps" using assms map_nth by blast
  then have "map (\<lambda>r. (key r, x r)) (filter (\<lambda>r. \<not> dropped r) ps) =
      map (\<lambda>r. (key r, x r)) (filter (\<lambda>r. \<not> dropped r) (map (\<lambda>i. ps ! i) [0..<n]))" by simp
  then show ?thesis by (simp add: live_from_def filter_map comp_def)
qed

definition cmp_keys :: "u64 list \<Rightarrow> nat \<Rightarrow> nat \<Rightarrow> int" where
  "cmp_keys ks a b = (if ks ! a < ks ! b then - 1 else if ks ! a > ks ! b then 1 else 0)"

lemma perm_keys:
  assumes srt: "sorter srt"
  shows "mset (srt (cmp_keys ks) [0..<n]) = mset [0..<n]"
    and "sorted (map (\<lambda>p. ks ! p) (srt (cmp_keys ks) [0..<n]))"
proof -
  have wo: "weak_order_on (set [0..<n]) (cmp_keys ks)"
    by (rule weak_order_by(1) [of _ _ "\<lambda>p. ks ! p"]) (auto simp: cmp_keys_def)
  show "mset (srt (cmp_keys ks) [0..<n]) = mset [0..<n]"
    by (rule sorter.srt_mset [OF srt wo])
  show "sorted (map (\<lambda>p. ks ! p) (srt (cmp_keys ks) [0..<n]))"
    unfolding sorted_map using sorter.srt_sorted [OF srt wo]
    by (rule sorted_wrt_mono_rel [rotated]) (auto simp: cmp_keys_def split: if_splits)
qed

definition newKey :: "schema \<Rightarrow> nat list \<Rightarrow> u32 list list option \<Rightarrow> u32 list \<Rightarrow> u64" where
  "newKey sc ss remap is = packKey ss (take (idx_dims sc) (mapIDs remap is))"

definition mapEntry :: "schema \<Rightarrow> nat list \<Rightarrow> u32 list list option \<Rightarrow> u32 list \<times> arow \<Rightarrow> entry" where
  "mapEntry sc ss remap x = (newKey sc ss remap (fst x), mapIDs remap (fst x), snd x)"

lemma mapIDs_None [simp]: "mapIDs None is = is"
  by (simp add: mapIDs_def mapID_def map_nth)

lemma row_of_map: "length cols = n \<Longrightarrow> map (\<lambda>i. mapID remap i (cols ! i ! r)) [0..<n] = mapIDs remap (row_of cols r)"
  by (auto simp: mapIDs_def)

lemma row_of_map_take:
  "length cols = n \<Longrightarrow> k \<le> n \<Longrightarrow>
   map (\<lambda>i. mapID remap i (cols ! i ! r)) [0..<k] = take k (mapIDs remap (row_of cols r))"
  by (auto simp: mapIDs_def take_map)

lemma zipMerge_entries:
  fixes ttl now :: i64
  assumes v: "view_ok sc v" and srt: "sorter srt" and ss: "computeShifts (map dlen dicts) (idx_dims sc) = Inr ss"
  defines "base_live \<equiv> filter (\<lambda>r. \<not> dropBase v ttl now r) [0..<srows (v_base v)]"
  shows "\<exists>ps. mset ps = mset [0..<drows (v_delta v)] \<and>
    sorted (map (\<lambda>r. newKey sc ss remap (fst (delta_row (v_delta v) r))) ps) \<and>
    zipMerge srt sc v ttl now dicts remap = Inr (snapOf sc dicts ss
      (zip_merge (map (\<lambda>r. mapEntry sc ss remap (snap_row (v_base v) r)) base_live)
         (map (\<lambda>r. mapEntry sc ss remap (delta_row (v_delta v) r))
            (filter (\<lambda>r. \<not> dropDelta v ttl now r) ps))))"
proof -
  let ?base = "v_base v" and ?d = "v_delta v"
  have s: "snap_ok sc ?base" using view_okD(1) [OF v] .
  have lb: "length (s_dims ?base) = ndims sc" using rows_okD(1) [OF snap_okD(4) [OF s]] .
  have ld: "length (d_dims ?d) = ndims sc" using rows_okD(1) [OF view_okD(3) [OF v]] .
  have k: "idx_dims sc \<le> ndims sc" using schema_okD [OF snap_okD(1) [OF s]] by simp
  define ks where "ks = map (\<lambda>r. packKey ss (map (\<lambda>i. mapID remap i (d_dims ?d ! i ! r)) [0..<idx_dims sc]))
     [0..<drows ?d]"
  define ps where "ps = srt (cmp_keys ks) [0..<drows ?d]"
  note pk = perm_keys [OF srt, of ks "drows ?d", folded ps_def]
  have in_ps: "p < drows ?d" if "p \<in> set ps" for p
    using pk(1) that by (metis atLeastLessThan_iff set_mset_mset set_upt)
  have len_ps: "length ps = drows ?d" using pk(1) by (metis length_upt minus_nat.diff_0 size_mset)
  have ks_nth: "ks ! r = newKey sc ss remap (fst (delta_row ?d r))" if "r < drows ?d" for r
    using that ld k by (simp add: ks_def newKey_def delta_row_def row_of_map_take)
  define bkey where "bkey = (\<lambda>r. if remap = None \<and> ss = s_shifts ?base then s_keys ?base ! r
     else packKey ss (map (\<lambda>i. mapID remap i (s_dims ?base ! i ! r)) [0..<idx_dims sc]))"
  have bkey: "bkey r = newKey sc ss remap (fst (snap_row ?base r))" if "r < srows ?base" for r
    using that lb k snap_keys_nth [OF s that]
    by (simp add: bkey_def newKey_def snap_row_def row_of_map_take)
  define bx where "bx r = snd (mapEntry sc ss remap (snap_row ?base r))" for r
  define dx where "dx r = snd (mapEntry sc ss remap (delta_row ?d r))" for r
  have "map (\<lambda>r. newKey sc ss remap (fst (delta_row ?d r))) ps = map (\<lambda>p. ks ! p) ps"
    using in_ps ks_nth by simp
  with pk(2) have sorted: "sorted (map (\<lambda>r. newKey sc ss remap (fst (delta_row ?d r))) ps)"
    by (simp only:)
  have B: "live_from (srows ?base) (dropBase v ttl now) bkey bx 0 =
      map (\<lambda>r. mapEntry sc ss remap (snap_row ?base r)) base_live"
    by (auto simp: live_from_def base_live_def bx_def mapEntry_def bkey)
  have D: "live_from (drows ?d) (\<lambda>di. dropDelta v ttl now (ps ! di)) (\<lambda>di. ks ! (ps ! di)) (\<lambda>di. dx (ps ! di)) 0 =
      map (\<lambda>r. mapEntry sc ss remap (delta_row ?d r)) (filter (\<lambda>r. \<not> dropDelta v ttl now r) ps)"
  proof -
    have "live_from (drows ?d) (\<lambda>di. dropDelta v ttl now (ps ! di)) (\<lambda>di. ks ! (ps ! di)) (\<lambda>di. dx (ps ! di)) 0 =
        map (\<lambda>r. (ks ! r, dx r)) (filter (\<lambda>r. \<not> dropDelta v ttl now r) ps)"
      by (rule filter_perm [OF len_ps])
    also have "\<dots> = map (\<lambda>r. mapEntry sc ss remap (delta_row ?d r)) (filter (\<lambda>r. \<not> dropDelta v ttl now r) ps)"
      using in_ps ks_nth by (auto simp: dx_def mapEntry_def)
    finally show ?thesis .
  qed
  have appB: "appendCols (map (\<lambda>i. mapID remap i (s_dims ?base ! i ! r)) [0..<ndims sc])
      (row_of (s_mets ?base) r) (s_updated ?base ! r) (s_expire ?base ! r) key o' =
      appendEntry (key, bx r) o'" for r key o'
    by (simp add: appendEntry_def bx_def mapEntry_def snap_row_def row_of_map [OF lb])
  have appD: "appendCols (map (\<lambda>i. mapID remap i (d_dims ?d ! i ! r)) [0..<ndims sc])
      (row_of (d_mets ?d) r) (d_updated ?d ! r) (d_expire ?d ! r) key o' =
      appendEntry (key, dx r) o'" for r key o'
    by (simp add: appendEntry_def dx_def mapEntry_def delta_row_def row_of_map [OF ld])
  have "zipMerge srt sc v ttl now dicts remap = Inr (trackAll
     (fold appendEntry (zip_merge
         (live_from (srows ?base) (dropBase v ttl now) bkey bx 0)
         (live_from (drows ?d) (\<lambda>di. dropDelta v ttl now (ps ! di)) (\<lambda>di. ks ! (ps ! di)) (\<lambda>di. dx (ps ! di)) 0))
       (newColumns sc dicts ss)))"
    unfolding zipMerge_def ss sum.case Let_def ks_def [symmetric] bkey_def [symmetric] cmp_keys_def [symmetric]
      ps_def [symmetric] appB appD
    by (subst zipLoop_merge [where app = appendEntry and bx = bx and dx = "\<lambda>di. dx (ps ! di)"]) simp_all
  then show ?thesis
    using pk(1) sorted unfolding B D snapOf_def by blast
qed

lemma sorted_map_filter: "sorted (map f xs) \<Longrightarrow> sorted (map f (filter P xs))"
  unfolding sorted_map by (rule sorted_wrt_filter)

text \<open>The keys of the surviving base rows stay in order.\<close>

lemma base_keys_sorted:
  assumes v: "view_ok sc v" and c: "carries sc v ttl now dicts remap"
    and ss: "computeShifts (map dlen dicts) (idx_dims sc) = Inr ss"
  shows "sorted (map (\<lambda>r. newKey sc ss remap (fst (snap_row (v_base v) r)))
    (filter (\<lambda>r. \<not> dropBase v ttl now r) [0..<srows (v_base v)]))"
proof -
  let ?base = "v_base v" and ?f = "filter (\<lambda>r. \<not> dropBase v ttl now r) [0..<srows (v_base v)]"
  have s: "snap_ok sc ?base" using view_okD(1) [OF v] .
  have k: "idx_dims sc \<le> ndims sc" using schema_okD [OF snap_okD(1) [OF s]] by simp
  have srt: "sorted (s_keys ?base)" using snap_okD(5) [OF s] unfolding keys_ok_def by blast
  have shifts: "computeShifts (map dlen (s_dicts ?base)) (idx_dims sc) = Inr (s_shifts ?base)"
    using snap_okD(2,5) [OF s] by (simp add: keys_ok_def)
  have live: "snap_row ?base r \<in> set (live_rows v ttl now)" if "r \<in> set ?f" for r
    using that by (auto simp: live_rows_split)
  have len: "length (fst (snap_row ?base r)) = ndims sc" for r
    using rows_okD(1) [OF snap_okD(4) [OF s]] by (simp add: snap_row_def)
  have within: "ids_within (map dlen (s_dicts ?base)) (idx_dims sc) (take (idx_dims sc) (fst (snap_row ?base r)))"
    if "r < srows ?base" for r
    using base_row_ids_ok(1) [OF v that] k dicts_okD(1) [OF snap_okD(3) [OF s]]
    by (intro ids_ok_within) (simp_all add: snap_vals_def snap_row_def)
  have within': "ids_within (map dlen dicts) (idx_dims sc) (take (idx_dims sc) (mapIDs remap (fst (snap_row ?base r))))"
    if "r \<in> set ?f" for r
    using carriesD(3) [OF c, of "fst (snap_row ?base r)" "snd (snap_row ?base r)"] live [OF that] k
      dicts_okD(1) [OF carriesD(1) [OF c]]
    by (intro ids_ok_within) simp_all
  have le: "newKey sc ss remap (fst (snap_row ?base r)) \<le> newKey sc ss remap (fst (snap_row ?base q))"
    if r: "r \<in> set ?f" and q: "q \<in> set ?f" and rq: "r \<le> q" for r q
  proof -
    let ?r = "fst (snap_row ?base r)" and ?q = "fst (snap_row ?base q)"
    have bnd: "r < srows ?base" "q < srows ?base" using r q by auto
    have "s_keys ?base ! r \<le> s_keys ?base ! q"
      using srt rq bnd by (simp add: sorted_nth_mono length_snap_keys [OF s])
    then have "packKey (s_shifts ?base) (take (idx_dims sc) ?r) \<le> packKey (s_shifts ?base) (take (idx_dims sc) ?q)"
      using bnd by (simp add: snap_keys_nth [OF s] snap_row_def)
    then have "lexle (map unat (take (idx_dims sc) ?r)) (map unat (take (idx_dims sc) ?q))"
      using packKey_le [OF shifts within [OF bnd(1)] within [OF bnd(2)]] by simp
    then have "lexle (map unat (map (\<lambda>d. mapID remap d (take (idx_dims sc) ?r ! d)) [0..<length (take (idx_dims sc) ?r)]))
        (map unat (map (\<lambda>d. mapID remap d (take (idx_dims sc) ?q ! d)) [0..<length (take (idx_dims sc) ?q)]))"
    proof (rule lexle_mono [rotated 2])
      show "length (take (idx_dims sc) ?r) = length (take (idx_dims sc) ?q)" using len by simp
      fix d assume d: "d < length (take (idx_dims sc) ?r)" "take (idx_dims sc) ?r ! d < take (idx_dims sc) ?q ! d"
      then show "mapID remap d (take (idx_dims sc) ?r ! d) < mapID remap d (take (idx_dims sc) ?q ! d)"
        using carriesD(5) [OF c, of ?r "snd (snap_row ?base r)" ?q "snd (snap_row ?base q)" d]
          live [OF r] live [OF q] len by simp
    qed
    moreover have "map (\<lambda>d. mapID remap d (take (idx_dims sc) x ! d)) [0..<length (take (idx_dims sc) x)] =
        take (idx_dims sc) (mapIDs remap x)" if "length x = ndims sc" for x
      using that k by (auto simp: mapIDs_def take_map)
    ultimately have "lexle (map unat (take (idx_dims sc) (mapIDs remap ?r)))
        (map unat (take (idx_dims sc) (mapIDs remap ?q)))" using len by (simp only:)
    then show ?thesis
      using packKey_le [OF ss within' [OF r] within' [OF q]] by (simp add: newKey_def)
  qed
  have "sorted_wrt (\<le>) ?f" by (simp add: sorted_wrt_filter)
  then show ?thesis unfolding sorted_map
    by (rule sorted_wrt_mono_rel [rotated]) (rule le)
qed

text \<open>The merge itself: the new base is well-formed and holds the mapped live rows.\<close>

lemma live_row_ok:
  assumes v: "view_ok sc v" and x: "x \<in> set (live_rows v ttl now)"
  shows "length (a_mets (snd x)) = nmets sc" "i64_ok (a_upd (snd x))" "i64_ok (a_exp (snd x))"
proof -
  have b: "rows_ok sc (snap_vals (v_base v)) (s_dims (v_base v)) (s_mets (v_base v)) (s_updated (v_base v)) (s_expire (v_base v))"
    and d: "rows_ok sc (view_vals v) (d_dims (v_delta v)) (d_mets (v_delta v)) (d_updated (v_delta v)) (d_expire (v_delta v))"
    using v by (auto dest: view_okD snap_okD(4))
  have "length (a_mets (snd x)) = nmets sc \<and> i64_ok (a_upd (snd x)) \<and> i64_ok (a_exp (snd x))"
    using x b d unfolding live_rows_split
    by (auto simp: snap_row_def delta_row_def srows_def drows_def rows_ok_def)
  then show "length (a_mets (snd x)) = nmets sc" "i64_ok (a_upd (snd x))" "i64_ok (a_exp (snd x))" by auto
qed

lemma mset_rows_set:
  "mset xs = mset ys \<Longrightarrow> x \<in> set xs \<longleftrightarrow> x \<in> set ys"
  by (metis set_mset_mset)

lemma zipMerge_ok:
  assumes v: "view_ok sc v" and srt: "sorter srt" and c: "carries sc v ttl now dicts remap"
    and ss: "computeShifts (map dlen dicts) (idx_dims sc) = Inr ss"
  shows "\<exists>s. zipMerge srt sc v ttl now dicts remap = Inr s \<and> snap_ok sc s \<and> s_dicts s = dicts \<and>
    mset (map (snap_row s) [0..<srows s]) =
      mset (map (\<lambda>x. (mapIDs remap (fst x), snd x)) (live_rows v ttl now))"
proof -
  obtain ps where ps: "mset ps = mset [0..<drows (v_delta v)]"
    "sorted (map (\<lambda>r. newKey sc ss remap (fst (delta_row (v_delta v) r))) ps)"
    "zipMerge srt sc v ttl now dicts remap = Inr (snapOf sc dicts ss
      (zip_merge (map (\<lambda>r. mapEntry sc ss remap (snap_row (v_base v) r))
           (filter (\<lambda>r. \<not> dropBase v ttl now r) [0..<srows (v_base v)]))
         (map (\<lambda>r. mapEntry sc ss remap (delta_row (v_delta v) r))
            (filter (\<lambda>r. \<not> dropDelta v ttl now r) ps))))"
    using zipMerge_entries [OF v srt ss] by blast
  define es where "es = zip_merge (map (\<lambda>r. mapEntry sc ss remap (snap_row (v_base v) r))
           (filter (\<lambda>r. \<not> dropBase v ttl now r) [0..<srows (v_base v)]))
         (map (\<lambda>r. mapEntry sc ss remap (delta_row (v_delta v) r))
            (filter (\<lambda>r. \<not> dropDelta v ttl now r) ps))"
  have mset_es: "mset es = mset (map (mapEntry sc ss remap) (live_rows v ttl now))"
  proof -
    have "mset (filter (\<lambda>r. \<not> dropDelta v ttl now r) ps) =
        mset (filter (\<lambda>r. \<not> dropDelta v ttl now r) [0..<drows (v_delta v)])"
      by (simp only: mset_filter ps(1))
    then have "mset (map f (filter (\<lambda>r. \<not> dropDelta v ttl now r) ps)) =
        mset (map f (filter (\<lambda>r. \<not> dropDelta v ttl now r) [0..<drows (v_delta v)]))" for f :: "nat \<Rightarrow> entry"
      by (simp only: mset_map)
    then show ?thesis
      by (simp only: es_def live_rows_split mset_zip_merge map_append mset_append map_map comp_def)
  qed
  have "sorted (map fst es)"
    unfolding es_def using base_keys_sorted [OF v c ss] sorted_map_filter [OF ps(2)]
    by (intro sorted_zip_merge) (simp_all add: comp_def mapEntry_def)
  moreover have "distinct (map (\<lambda>e. fst (snd e)) es)"
  proof -
    have "mset (map (\<lambda>e. fst (snd e)) es) = mset (map (\<lambda>x. mapIDs remap (fst x)) (live_rows v ttl now))"
      by (simp add: mset_es mapEntry_def image_mset.compositionality comp_def)
    then show ?thesis using mapped_distinct [OF v c] mset_eq_imp_distinct_iff by blast
  qed
  moreover have "\<forall>e \<in> set es. entry_ok sc dicts ss e"
  proof
    fix e assume "e \<in> set es"
    then have "e \<in> set (map (mapEntry sc ss remap) (live_rows v ttl now))" using mset_rows_set [OF mset_es] by simp
    then obtain x where x: "x \<in> set (live_rows v ttl now)" "e = mapEntry sc ss remap x" by auto
    have "ids_ok (map dict_vals dicts) (mapIDs remap (fst x))"
      using carriesD(3) [OF c, of "fst x" "snd x"] x(1) by simp
    then show "entry_ok sc dicts ss e"
      using live_row_ok [OF v x(1)] x(2) by (simp add: entry_ok_def mapEntry_def newKey_def)
  qed
  ultimately have ok: "snap_ok sc (snapOf sc dicts ss es)" "s_dicts (snapOf sc dicts ss es) = dicts"
    "srows (snapOf sc dicts ss es) = length es"
    "\<And>r. r < length es \<Longrightarrow> snap_row (snapOf sc dicts ss es) r = snd (es ! r)"
    using snapOf_ok [OF snap_okD(1) [OF view_okD(1) [OF v]] carriesD(1) [OF c] ss] by blast+
  have "map (snap_row (snapOf sc dicts ss es)) [0..<srows (snapOf sc dicts ss es)] = map snd es"
    by (intro nth_equalityI) (simp_all add: ok(3,4))
  then have "mset (map (snap_row (snapOf sc dicts ss es)) [0..<srows (snapOf sc dicts ss es)]) =
      mset (map (\<lambda>x. (mapIDs remap (fst x), snd x)) (live_rows v ttl now))"
    by (simp add: mset_es mapEntry_def image_mset.compositionality comp_def)
  with ok(1,2) ps(3) show ?thesis unfolding es_def by blast
qed

lemma merged_table:
  assumes v: "view_ok sc v" and c: "carries sc v ttl now dicts remap"
    and s: "snap_ok sc s" "s_dicts s = dicts"
    and rows: "mset (map (snap_row s) [0..<srows s]) =
      mset (map (\<lambda>x. (mapIDs remap (fst x), snd x)) (live_rows v ttl now))"
  shows "abs_view (newView s) = survivors ttl now (abs_view v)"
proof -
  have row_in: "(\<exists>r < srows s. x = snap_row s r) \<longleftrightarrow> (\<exists>y \<in> set (live_rows v ttl now). x = (mapIDs remap (fst y), snd y))" for x
    using mset_rows_set [OF rows, of x] by (auto simp: image_iff)
  have iff: "abs_view (newView s) key = Some row \<longleftrightarrow> survivors ttl now (abs_view v) key = Some row" for key row
  proof -
    have "abs_view (newView s) key = Some row \<longleftrightarrow>
        (\<exists>r < srows s. key = decode (snap_vals s) (fst (snap_row s r)) \<and> row = snd (snap_row s r))"
      using s carriesD(2) [OF c] by (simp add: abs_newView_Some [of sc s] snap_row_def)
    also have "\<dots> \<longleftrightarrow> (\<exists>x. (\<exists>r < srows s. x = snap_row s r) \<and> key = decode (snap_vals s) (fst x) \<and> row = snd x)"
      by blast
    also have "\<dots> \<longleftrightarrow> (\<exists>is. (is, row) \<in> set (live_rows v ttl now) \<and> key = decode (map dict_vals dicts) (mapIDs remap is))"
      unfolding row_in by (force simp: snap_vals_def s(2))
    also have "\<dots> \<longleftrightarrow> (\<exists>is. (is, row) \<in> set (live_rows v ttl now) \<and> key = decode (view_vals v) is)"
      using carriesD(4) [OF c] by metis
    also have "\<dots> \<longleftrightarrow> keep_row ttl now row \<and> abs_view v key = Some row"
      unfolding abs_view_Some [OF v] using view_rows_ids_ok [OF v] by (auto simp: live_rows_def)
    also have "\<dots> \<longleftrightarrow> survivors ttl now (abs_view v) key = Some row"
      by (auto simp: survivors_def split: option.splits)
    finally show ?thesis .
  qed
  show ?thesis
  proof
    fix key
    show "abs_view (newView s) key = survivors ttl now (abs_view v) key"
      using iff [of key] by (metis option.exhaust)
  qed
qed

section \<open>Extending the dictionaries\<close>

lemma add_fresh:
  assumes d: "dict_ok d" and x: "x \<notin> set (dict_vals d)" "val_fits (numeric d) x" and len: "dlen d < 2 ^ 32"
  shows "dict_ok (snd (dict_add d x))" "numeric (snd (dict_add d x)) = numeric d"
    "dict_vals (snd (dict_add d x)) = dict_vals d @ [x]" "unat (fst (dict_add d x)) = dlen d"
proof -
  have none: "dict_find d x = None" using x(1) by (simp add: dict_find_None [OF d])
  note new = dict_add_new [OF none x(2)]
  show "dict_ok (snd (dict_add d x))" by (rule dict_ok_add_new [OF d none x(2) len])
  show "numeric (snd (dict_add d x)) = numeric d" "dict_vals (snd (dict_add d x)) = dict_vals d @ [x]"
    by (rule new(3), rule new(2))
  show "unat (fst (dict_add d x)) = dlen d" using len unfolding new(1) by (rule unat_of_nat_u32)
qed

lemma comb_fits:
  assumes "comb_ok b e" "x \<in> set (dict_vals b @ dict_vals e)"
  shows "val_fits (numeric b) x"
proof -
  have "dict_ok b" "dict_ok e" "numeric e = numeric b" using assms(1) by (simp_all add: comb_ok_def)
  with assms(2) dict_okD(3) [of b x] dict_okD(3) [of e x] show ?thesis by auto
qed

lemma mergedDict_ok:
  assumes c: "comb_ok b e"
  shows "dict_ok (mergedDict b e)" "numeric (mergedDict b e) = numeric b"
    "dict_vals (mergedDict b e) = dict_vals b @ dict_vals e"
proof -
  have b: "dict_ok b" "dict_ok e" "numeric b = numeric e" "dlen b + dlen e < 2 ^ 32"
    using c by (auto simp: comb_ok_def)
  let ?f = "\<lambda>k. fold (\<lambda>i d. snd (addFrom d e (of_nat i))) [0..<k] b"
  have "k \<le> dlen e \<Longrightarrow> dict_ok (?f k) \<and> numeric (?f k) = numeric b \<and>
      dict_vals (?f k) = dict_vals b @ take k (dict_vals e)" for k
  proof (induction k)
    case 0
    then show ?case using b by simp
  next
    case (Suc k)
    then have IH: "dict_ok (?f k)" "numeric (?f k) = numeric b"
      "dict_vals (?f k) = dict_vals b @ take k (dict_vals e)" and k: "k < dlen e" by auto
    let ?x = "dict_vals e ! k"
    have u: "unat (of_nat k :: u32) = k" using k b(4) by (intro unat_of_nat_u32) simp
    have add: "addFrom (?f k) e (of_nat k) = dict_add (?f k) ?x"
      using addFrom_dict_add [of "?f k" e "of_nat k"] IH(2) b(3) u k by simp
    have tk: "take (Suc k) (dict_vals e) = take k (dict_vals e) @ [?x]"
      using k by (simp add: take_Suc_conv_app_nth)
    have "distinct (dict_vals b @ take (Suc k) (dict_vals e))"
      using comb_distinct [OF c] by (auto dest: in_set_takeD)
    then have fresh: "?x \<notin> set (dict_vals (?f k))" unfolding IH(3) tk by simp
    have fits: "val_fits (numeric (?f k)) ?x" unfolding IH(2) using k by (intro comb_fits [OF c]) simp
    have "dlen (?f k) = dlen b + k" using arg_cong [OF IH(3), of length] k by simp
    then have len: "dlen (?f k) < 2 ^ 32" using b(4) k by simp
    have "?f (Suc k) = snd (dict_add (?f k) ?x)" using add by simp
    then show ?case using add_fresh [OF IH(1) fresh fits len] IH(2,3) tk by simp
  qed
  from this [of "dlen e"] b
  show "dict_ok (mergedDict b e)" "numeric (mergedDict b e) = numeric b"
    "dict_vals (mergedDict b e) = dict_vals b @ dict_vals e"
    by (auto simp: mergedDict_def)
qed

definition mergedDicts :: "schema \<Rightarrow> view \<Rightarrow> dict list" where
  "mergedDicts sc v = map (\<lambda>i. mergedDict (s_dicts (v_base v) ! i) (v_extras v ! i)) [0..<ndims sc]"

lemma mergedDicts_ok:
  assumes v: "view_ok sc v"
  shows "dicts_ok sc (mergedDicts sc v)" "map dict_vals (mergedDicts sc v) = view_vals v"
    "map dlen (mergedDicts sc v) = map length (view_vals v)"
proof -
  note ex = view_okD(2) [OF v]
  note m = mergedDict_ok [OF extras_okD(2) [OF ex]]
  have ds: "dicts_ok sc (s_dicts (v_base v))" using snap_okD(3) [OF view_okD(1) [OF v]] .
  show "dicts_ok sc (mergedDicts sc v)"
    using m dicts_okD(3) [OF ds] by (simp add: dicts_ok_def mergedDicts_def)
  show vals: "map dict_vals (mergedDicts sc v) = view_vals v"
    using m view_ok_lengths [OF v] by (intro nth_equalityI) (simp_all add: mergedDicts_def view_vals_nth)
  show "map dlen (mergedDicts sc v) = map length (view_vals v)"
    unfolding vals [symmetric] by simp
qed

lemma view_card: "view_ok sc v \<Longrightarrow> d < ndims sc \<Longrightarrow> length (view_vals v ! d) < 2 ^ 32"
  using extras_okD(2) [OF view_okD(2), of sc v d] view_ok_lengths [of sc v]
  by (simp add: view_vals_nth comb_ok_def)

lemma carries_merged:
  assumes v: "view_ok sc v"
  shows "carries sc v ttl now (mergedDicts sc v) None"
proof -
  note m = mergedDicts_ok [OF v]
  have "dlen (mergedDicts sc v ! d) < 2 ^ 32" if "d < ndims sc" for d
    using view_card [OF v that] m(3) view_ok_lengths(3) [OF v] that dicts_okD(1) [OF m(1)]
    by (metis nth_map)
  moreover have "ids_ok (view_vals v) is" if "(is, row) \<in> set (live_rows v ttl now)" for "is" row
    using that by (intro view_rows_ids_ok [OF v] live_rows_view)
  ultimately show ?thesis
    using m(1) by (auto simp: carries_def m(2) mapID_def)
qed

section \<open>Marking the ids in use\<close>

definition marks :: "nat list \<Rightarrow> u64 list list \<Rightarrow> (nat \<Rightarrow> nat set) \<Rightarrow> bool" where
  "marks cards used U \<longleftrightarrow> length used = length cards \<and>
     (\<forall>d < length cards. length (used ! d) = (cards ! d + 63) div 64 \<and>
        (\<forall>i. bitGet (used ! d) i \<longleftrightarrow> i \<in> U d))"

lemma markRow_marks:
  assumes m: "marks cards used U" and len: "length is = length cards"
    and bnd: "\<And>d. d < length cards \<Longrightarrow> unat (is ! d) < cards ! d"
  shows "marks cards (markRow is used) (\<lambda>d. insert (unat (is ! d)) (U d))"
proof -
  have "bitGet (bitSet (used ! d) (unat (is ! d))) i \<longleftrightarrow> i = unat (is ! d) \<or> i \<in> U d"
    if "d < length cards" for d i
    using m that bitmap_word [OF bnd [OF that]] by (simp add: marks_def bitGet_bitSet)
  with m len show ?thesis by (simp add: marks_def markRow_def)
qed

lemma mark_fold:
  assumes "marks cards used U" "\<And>r. r \<in> set rs \<Longrightarrow> length (row r) = length cards"
    and "\<And>r d. r \<in> set rs \<Longrightarrow> d < length cards \<Longrightarrow> unat (row r ! d) < cards ! d"
  shows "marks cards (fold (\<lambda>r u. if P r then u else markRow (row r) u) rs used)
    (\<lambda>d. U d \<union> {unat (row r ! d) | r. r \<in> set rs \<and> \<not> P r})"
  using assms
proof (induction rs arbitrary: used U)
  case Nil
  then show ?case by simp
next
  case (Cons r rs)
  show ?case
  proof (cases "P r")
    case True
    then have "{unat (row q ! d) | q. q \<in> set (r # rs) \<and> \<not> P q} =
        {unat (row q ! d) | q. q \<in> set rs \<and> \<not> P q}" for d by auto
    with True Cons.IH [OF Cons.prems(1)] Cons.prems(2,3) show ?thesis by simp
  next
    case False
    then have eq: "U d \<union> {unat (row q ! d) | q. q \<in> set (r # rs) \<and> \<not> P q} =
        insert (unat (row r ! d)) (U d) \<union> {unat (row q ! d) | q. q \<in> set rs \<and> \<not> P q}" for d by auto
    have "marks cards (markRow (row r) used) (\<lambda>d. insert (unat (row r ! d)) (U d))"
      using Cons.prems by (intro markRow_marks) auto
    from Cons.IH [OF this] Cons.prems(2,3) False show ?thesis
      unfolding eq by simp
  qed
qed

definition live_ids :: "view \<Rightarrow> i64 \<Rightarrow> i64 \<Rightarrow> nat \<Rightarrow> nat set" where
  "live_ids v ttlCutoff now d = (\<lambda>x. unat (fst x ! d)) ` set (live_rows v ttlCutoff now)"

lemma markUsed_marks:
  assumes v: "view_ok sc v"
  shows "marks (map length (view_vals v)) (markUsed sc v ttl now) (live_ids v ttl now)"
proof -
  let ?b = "v_base v" and ?d = "v_delta v"
  define cards where "cards = map length (view_vals v)"
  have lc: "length cards = ndims sc" using view_ok_lengths [OF v] by (simp add: cards_def)
  have card: "cards ! d = dlen (s_dicts ?b ! d) + dlen (v_extras v ! d)" if "d < ndims sc" for d
    using that view_ok_lengths [OF v] by (simp add: cards_def view_vals_nth)
  have b: "length (row_of (s_dims ?b) r) = length cards \<and>
      (\<forall>d < length cards. unat (row_of (s_dims ?b) r ! d) < cards ! d)" if "r \<in> set [0..<srows ?b]" for r
    using base_row_ids_ok(2) [OF v, of r] that ids_okD by (fastforce simp: cards_def)
  have d: "length (row_of (d_dims ?d) r) = length cards \<and>
      (\<forall>d < length cards. unat (row_of (d_dims ?d) r ! d) < cards ! d)" if "r \<in> set [0..<drows ?d]" for r
    using delta_row_ids_ok [OF v, of r] that ids_okD by (fastforce simp: cards_def)
  have m0: "marks cards (map (\<lambda>i. replicate ((dlen (s_dicts ?b ! i) + dlen (v_extras v ! i) + 63) div 64) 0)
      [0..<ndims sc]) (\<lambda>_. {})"
    using lc card by (simp add: marks_def)
  note m1 = mark_fold [OF m0, of "[0..<srows ?b]" "row_of (s_dims ?b)" "dropBase v ttl now"]
  note m2 = mark_fold [OF m1, of "[0..<drows ?d]" "row_of (d_dims ?d)" "dropDelta v ttl now"]
  have "marks cards (markUsed sc v ttl now)
     (\<lambda>x. ({} \<union> {unat (row_of (s_dims ?b) r ! x) | r. r \<in> set [0..<srows ?b] \<and> \<not> dropBase v ttl now r}) \<union>
       {unat (row_of (d_dims ?d) r ! x) | r. r \<in> set [0..<drows ?d] \<and> \<not> dropDelta v ttl now r})"
    unfolding markUsed_def Let_def using b d by (intro m2) blast+
  moreover have "(({} \<union> {unat (row_of (s_dims ?b) r ! x) | r. r \<in> set [0..<srows ?b] \<and> \<not> dropBase v ttl now r}) \<union>
       {unat (row_of (d_dims ?d) r ! x) | r. r \<in> set [0..<drows ?d] \<and> \<not> dropDelta v ttl now r}) =
      live_ids v ttl now x" for x
    by (auto simp: live_ids_def live_rows_split snap_row_def delta_row_def image_Un image_image)
  ultimately show ?thesis by (simp add: cards_def)
qed

section \<open>Compacting a dictionary\<close>

definition rank_in :: "(nat \<Rightarrow> bool) \<Rightarrow> nat \<Rightarrow> nat" where
  "rank_in P k = length (filter P [0..<k])"

lemma rank_in_less: "P i \<Longrightarrow> i < j \<Longrightarrow> rank_in P i < rank_in P j"
proof -
  assume a: "P i" "i < j"
  then have "[0..<j] = [0..<i] @ i # [Suc i..<j]"
    by (metis less_imp_le_nat upt_add_eq_append upt_conv_Cons zero_le le_add_diff_inverse)
  with a show ?thesis by (simp add: rank_in_def)
qed

lemma rank_in_nth: "P i \<Longrightarrow> i < n \<Longrightarrow> filter P [0..<n] ! rank_in P i = i"
proof -
  assume a: "P i" "i < n"
  then have "[0..<n] = [0..<i] @ i # [Suc i..<n]"
    by (metis less_imp_le_nat upt_add_eq_append upt_conv_Cons zero_le le_add_diff_inverse)
  with a show ?thesis by (simp add: rank_in_def nth_append)
qed

lemma compactDim_spec:
  fixes used :: "u64 list"
  assumes c: "comb_ok b e" and n: "numeric b = isnum"
  defines "vs \<equiv> dict_vals b @ dict_vals e" and "P \<equiv> bitGet used"
  assumes res: "compactDim isnum b e used = (d', m)"
  shows "dict_ok d'" "numeric d' = isnum" "dict_vals d' = map (\<lambda>i. vs ! i) (filter P [0..<length vs])"
    "\<And>i. i < length vs \<Longrightarrow> P i \<Longrightarrow> unat (m ! i) = rank_in P i"
proof -
  have b: "dict_ok b" "dict_ok e" "numeric b = numeric e" "dlen b + dlen e < 2 ^ 32"
    using c by (auto simp: comb_ok_def)
  let ?n = "dlen b + dlen e"
  have lvs: "length vs = ?n" by (simp add: vs_def)
  let ?f = "\<lambda>k. fold (compactStep b e used) [0..<k] (newDict isnum, replicate ?n 0)"
  have "k \<le> ?n \<Longrightarrow> dict_ok (fst (?f k)) \<and> numeric (fst (?f k)) = isnum \<and>
      dict_vals (fst (?f k)) = map (\<lambda>i. vs ! i) (filter P [0..<k]) \<and> length (snd (?f k)) = ?n \<and>
      (\<forall>i < k. P i \<longrightarrow> unat (snd (?f k) ! i) = rank_in P i)" for k
  proof (induction k)
    case 0
    then show ?case by simp
  next
    case (Suc k)
    then have IH: "dict_ok (fst (?f k))" "numeric (fst (?f k)) = isnum"
      "dict_vals (fst (?f k)) = map (\<lambda>i. vs ! i) (filter P [0..<k])" "length (snd (?f k)) = ?n"
      "\<forall>i < k. P i \<longrightarrow> unat (snd (?f k) ! i) = rank_in P i" and k: "k < ?n" by auto
    show ?case
    proof (cases "P k")
      case False
      then have "?f (Suc k) = ?f k" by (simp add: compactStep_def P_def)
      then show ?thesis using IH False by (auto simp: less_Suc_eq)
    next
      case True
      let ?x = "vs ! k"
      have add: "?f (Suc k) = (snd (dict_add (fst (?f k)) ?x), (snd (?f k))[k := fst (dict_add (fst (?f k)) ?x)])"
      proof (cases "k < dlen b")
        case kb: True
        have "unat (of_nat k :: u32) = k" using k b(4) by (intro unat_of_nat_u32) simp
        then have "addFrom (fst (?f k)) b (of_nat k) = dict_add (fst (?f k)) ?x"
          using addFrom_dict_add [of "fst (?f k)" b "of_nat k"] IH(2) n kb by (simp add: vs_def nth_append)
        then show ?thesis using True kb by (simp add: compactStep_def P_def case_prod_beta Let_def)
      next
        case kb: False
        have "unat (of_nat (k - dlen b) :: u32) = k - dlen b" using k b(4) by (intro unat_of_nat_u32) simp
        then have "addFrom (fst (?f k)) e (of_nat (k - dlen b)) = dict_add (fst (?f k)) ?x"
          using addFrom_dict_add [of "fst (?f k)" e "of_nat (k - dlen b)"] IH(2) n b(3) kb k
          by (simp add: vs_def nth_append)
        then show ?thesis using True kb by (simp add: compactStep_def P_def case_prod_beta Let_def)
      qed
      have dvs: "distinct vs" using comb_distinct [OF c] by (simp add: vs_def)
      have fresh: "?x \<notin> set (dict_vals (fst (?f k)))"
        using k lvs nth_eq_iff_index_eq [OF dvs] by (auto simp: IH(3))
      have "?x \<in> set (dict_vals b @ dict_vals e)" using k lvs nth_mem unfolding vs_def by metis
      then have "val_fits (numeric b) ?x" by (rule comb_fits [OF c])
      then have fits: "val_fits (numeric (fst (?f k))) ?x" using IH(2) n by simp
      have dl: "dlen (fst (?f k)) = rank_in P k"
        using arg_cong [OF IH(3), of length] by (simp add: rank_in_def)
      also have "\<dots> \<le> k" using length_filter_le [of P "[0..<k]"] by (simp add: rank_in_def)
      finally have len: "dlen (fst (?f k)) < 2 ^ 32" using k b(4) by simp
      note new = add_fresh [OF IH(1) fresh fits len]
      show ?thesis
        unfolding add using new IH dl k True by (auto simp: less_Suc_eq)
    qed
  qed
  from this [of ?n] res
  show "dict_ok d'" "numeric d' = isnum" "dict_vals d' = map (\<lambda>i. vs ! i) (filter P [0..<length vs])"
    "\<And>i. i < length vs \<Longrightarrow> P i \<Longrightarrow> unat (m ! i) = rank_in P i"
    by (auto simp: compactDim_def lvs)
qed

section \<open>The compacted dictionaries carry the live rows\<close>

definition compactedDim :: "schema \<Rightarrow> view \<Rightarrow> i64 \<Rightarrow> i64 \<Rightarrow> nat \<Rightarrow> dict \<times> u32 list" where
  "compactedDim sc v ttlCutoff now i =
     compactDim (isInt sc i) (s_dicts (v_base v) ! i) (v_extras v ! i) (markUsed sc v ttlCutoff now ! i)"

definition compactedDicts :: "schema \<Rightarrow> view \<Rightarrow> i64 \<Rightarrow> i64 \<Rightarrow> dict list" where
  "compactedDicts sc v ttlCutoff now = map (\<lambda>i. fst (compactedDim sc v ttlCutoff now i)) [0..<ndims sc]"

definition compactedRemap :: "schema \<Rightarrow> view \<Rightarrow> i64 \<Rightarrow> i64 \<Rightarrow> u32 list list" where
  "compactedRemap sc v ttlCutoff now = map (\<lambda>i. snd (compactedDim sc v ttlCutoff now i)) [0..<ndims sc]"

lemma mergeView_unfold:
  "mergeView srt sc v ttl now False = zipMerge srt sc v ttl now (mergedDicts sc v) None"
  "mergeView srt sc v ttl now True =
     zipMerge srt sc v ttl now (compactedDicts sc v ttl now) (Some (compactedRemap sc v ttl now))"
  by (simp_all add: mergeView_def mergedDicts_def compactedDicts_def compactedRemap_def compactedDim_def
      comp_def Let_def)

lemma length_compacted [simp]:
  "length (compactedDicts sc v ttl now) = ndims sc" "length (compactedRemap sc v ttl now) = ndims sc"
  by (simp_all add: compactedDicts_def compactedRemap_def)

lemma live_row_id:
  assumes v: "view_ok sc v" and x: "(is, row) \<in> set (live_rows v ttl now)" and d: "d < ndims sc"
  shows "length is = ndims sc" "unat (is ! d) < length (view_vals v ! d)" "unat (is ! d) \<in> live_ids v ttl now d"
proof -
  have i: "ids_ok (view_vals v) is" using x by (intro view_rows_ids_ok [OF v] live_rows_view)
  show "length is = ndims sc" "unat (is ! d) < length (view_vals v ! d)"
    using ids_okD [OF i] d view_ok_lengths [OF v] by auto
  show "unat (is ! d) \<in> live_ids v ttl now d" using x by (force simp: live_ids_def)
qed

lemma compacted_dim:
  fixes ttl now :: i64
  assumes v: "view_ok sc v" and d: "d < ndims sc"
  defines "vs \<equiv> view_vals v ! d" and "P \<equiv> (\<lambda>i. i \<in> live_ids v ttl now d)"
  shows "dict_ok (compactedDicts sc v ttl now ! d)" "numeric (compactedDicts sc v ttl now ! d) = isInt sc d"
    "dict_vals (compactedDicts sc v ttl now ! d) = map (\<lambda>i. vs ! i) (filter P [0..<length vs])"
    "\<And>i. i < length vs \<Longrightarrow> P i \<Longrightarrow> unat (compactedRemap sc v ttl now ! d ! i) = rank_in P i"
proof -
  let ?used = "markUsed sc v ttl now ! d"
  have c: "comb_ok (s_dicts (v_base v) ! d) (v_extras v ! d)" using view_okD(2) [OF v] d by (rule extras_okD(2))
  have n: "numeric (s_dicts (v_base v) ! d) = isInt sc d"
    using dicts_okD(3) [OF snap_okD(3) [OF view_okD(1) [OF v]] d] .
  have P: "bitGet ?used = P"
    using markUsed_marks [OF v, of ttl now] d view_ok_lengths [OF v] by (auto simp: marks_def P_def fun_eq_iff)
  have vs: "dict_vals (s_dicts (v_base v) ! d) @ dict_vals (v_extras v ! d) = vs"
    using d view_ok_lengths [OF v] by (simp add: vs_def view_vals_nth)
  obtain d' m where r: "compactedDim sc v ttl now d = (d', m)" by fastforce
  note spec = compactDim_spec [OF c n, of ?used d' m, unfolded compactedDim_def [symmetric] vs P, OF r]
  have e: "compactedDicts sc v ttl now ! d = d'" "compactedRemap sc v ttl now ! d = m"
    using d r by (simp_all add: compactedDicts_def compactedRemap_def)
  show "dict_ok (compactedDicts sc v ttl now ! d)" "numeric (compactedDicts sc v ttl now ! d) = isInt sc d"
    "dict_vals (compactedDicts sc v ttl now ! d) = map (\<lambda>i. vs ! i) (filter P [0..<length vs])"
    "\<And>i. i < length vs \<Longrightarrow> P i \<Longrightarrow> unat (compactedRemap sc v ttl now ! d ! i) = rank_in P i"
    unfolding e by (rule spec)+
qed

lemma compacted_id:
  fixes ttl now :: i64
  assumes v: "view_ok sc v" and d: "d < ndims sc" and x: "(is, row) \<in> set (live_rows v ttl now)"
  defines "i' \<equiv> mapID (Some (compactedRemap sc v ttl now)) d (is ! d)"
  shows "unat i' = rank_in (\<lambda>i. i \<in> live_ids v ttl now d) (unat (is ! d))"
    "unat i' < dlen (compactedDicts sc v ttl now ! d)"
    "dict_vals (compactedDicts sc v ttl now ! d) ! unat i' = view_vals v ! d ! unat (is ! d)"
proof -
  let ?P = "\<lambda>i. i \<in> live_ids v ttl now d" and ?vs = "view_vals v ! d"
  note l = live_row_id [OF v x d] and c = compacted_dim [OF v d, where ttl = ttl and now = now]
  show r: "unat i' = rank_in ?P (unat (is ! d))"
    using c(4) [OF l(2,3)] by (simp add: i'_def mapID_def)
  have "rank_in ?P (unat (is ! d)) < rank_in ?P (length ?vs)" using l(2,3) by (intro rank_in_less)
  then have lt: "unat i' < length (filter ?P [0..<length ?vs])" unfolding r by (simp only: rank_in_def)
  then show "unat i' < dlen (compactedDicts sc v ttl now ! d)"
    using c(3) by (metis length_dict_vals length_map)
  have "filter ?P [0..<length ?vs] ! unat i' = unat (is ! d)" unfolding r using l(2,3) by (intro rank_in_nth)
  then show "dict_vals (compactedDicts sc v ttl now ! d) ! unat i' = ?vs ! unat (is ! d)"
    unfolding c(3) using lt by simp
qed

lemma carries_compacted:
  assumes v: "view_ok sc v"
  shows "carries sc v ttl now (compactedDicts sc v ttl now) (Some (compactedRemap sc v ttl now))"
proof -
  let ?ds = "compactedDicts sc v ttl now" and ?m = "Some (compactedRemap sc v ttl now)"
  have ok: "dicts_ok sc ?ds" using compacted_dim(1,2) [OF v] by (simp add: dicts_ok_def)
  have small: "dlen (?ds ! d) < 2 ^ 32" if d: "d < ndims sc" for d
  proof -
    have "dlen (?ds ! d) = length (filter (\<lambda>i. i \<in> live_ids v ttl now d) [0..<length (view_vals v ! d)])"
      using compacted_dim(3) [OF v d, where ttl = ttl and now = now] by (metis length_dict_vals length_map)
    also have "\<dots> \<le> length (view_vals v ! d)" using length_filter_le by (metis diff_zero length_upt)
    finally show ?thesis using view_card [OF v d] by simp
  qed
  have map: "ids_ok (map dict_vals ?ds) (mapIDs ?m is) \<and>
      decode (map dict_vals ?ds) (mapIDs ?m is) = decode (view_vals v) is"
    if x: "(is, row) \<in> set (live_rows v ttl now)" for "is" row
  proof (cases "ndims sc = 0")
    case True
    have "ids_ok (view_vals v) is" using x by (intro view_rows_ids_ok [OF v] live_rows_view)
    then have "length is = length (view_vals v)" by (rule ids_okD(1))
    moreover have "length (view_vals v) = 0" "length ?ds = 0" using True view_ok_lengths(3) [OF v] by simp_all
    ultimately have "is = []" "view_vals v = []" "?ds = []" by (simp_all only: length_0_conv)
    then show ?thesis by (simp add: mapIDs_def ids_ok_def decode_def)
  next
    case False
    have len: "length is = ndims sc" using live_row_id(1) [OF v x] False by blast
    show ?thesis
    proof (intro conjI)
      show "ids_ok (map dict_vals ?ds) (mapIDs ?m is)"
        using len compacted_id(2) [OF v _ x] by (intro ids_okI) simp_all
      show "decode (map dict_vals ?ds) (mapIDs ?m is) = decode (view_vals v) is"
        using len compacted_id(3) [OF v _ x] view_ok_lengths(3) [OF v]
        by (intro nth_equalityI) (simp_all add: decode_nth)
    qed
  qed
  have mono: "mapID ?m d (is ! d) < mapID ?m d (js ! d)"
    if x: "(is, row) \<in> set (live_rows v ttl now)" and y: "(js, row') \<in> set (live_rows v ttl now)"
      and d: "d < ndims sc" and lt: "is ! d < js ! d" for "is" row js row' d
    unfolding word_less_nat_alt compacted_id(1) [OF v d x] compacted_id(1) [OF v d y]
    using live_row_id(3) [OF v x d] lt by (intro rank_in_less) (simp_all add: word_less_nat_alt)
  show ?thesis unfolding carries_def using ok small map mono by blast
qed

text \<open>The values of one dimension that the surviving rows use.\<close>

definition live_vals :: "i64 \<Rightarrow> i64 \<Rightarrow> (dval list \<rightharpoonup> arow) \<Rightarrow> nat \<Rightarrow> dval set" where
  "live_vals ttlCutoff now A d = (\<lambda>key. key ! d) ` dom (survivors ttlCutoff now A)"

lemma compacted_live:
  assumes v: "view_ok sc v" and d: "d < ndims sc"
  shows "set (dict_vals (compactedDicts sc v ttl now ! d)) = live_vals ttl now (abs_view v) d"
proof -
  have "key \<in> dom (survivors ttl now (abs_view v)) \<longleftrightarrow>
      (\<exists>x \<in> set (live_rows v ttl now). key = decode (view_vals v) (fst x))" for key
  proof
    assume "key \<in> dom (survivors ttl now (abs_view v))"
    then obtain row where "abs_view v key = Some row" "keep_row ttl now row"
      by (auto simp: survivors_def split: option.splits if_splits)
    then show "\<exists>x \<in> set (live_rows v ttl now). key = decode (view_vals v) (fst x)"
      by (auto simp: abs_view_Some [OF v] live_rows_def intro: rev_bexI)
  next
    assume "\<exists>x \<in> set (live_rows v ttl now). key = decode (view_vals v) (fst x)"
    then obtain "is" row where x: "(is, row) \<in> set (view_rows v)" "keep_row ttl now row" "key = decode (view_vals v) is"
      by (auto simp: live_rows_def)
    then have "abs_view v key = Some row"
      unfolding abs_view_Some [OF v] using view_rows_ids_ok [OF v] by blast
    with x(2) show "key \<in> dom (survivors ttl now (abs_view v))" by (simp add: survivors_def domIff)
  qed
  then have dom: "dom (survivors ttl now (abs_view v)) = (\<lambda>x. decode (view_vals v) (fst x)) ` set (live_rows v ttl now)"
    by blast
  have "live_vals ttl now (abs_view v) d = (\<lambda>x. view_vals v ! d ! unat (fst x ! d)) ` set (live_rows v ttl now)"
    unfolding live_vals_def dom image_image
    using live_row_id(1) [OF v _ d] d view_ok_lengths(3) [OF v]
    by (intro image_cong) (auto simp: decode_nth)
  also have "\<dots> = (\<lambda>i. view_vals v ! d ! i) ` live_ids v ttl now d"
    by (simp add: live_ids_def image_image)
  also have "\<dots> = set (dict_vals (compactedDicts sc v ttl now ! d))"
    using live_row_id(2) [OF v _ d] unfolding compacted_dim(3) [OF v d] by (force simp: live_ids_def)
  finally show ?thesis ..
qed

lemma compacted_dlen:
  assumes v: "view_ok sc v"
  shows "map dlen (compactedDicts sc v ttl now) = map (\<lambda>d. card (live_vals ttl now (abs_view v) d)) [0..<ndims sc]"
proof (rule nth_equalityI)
  fix d assume "d < length (map dlen (compactedDicts sc v ttl now))"
  then have d: "d < ndims sc" by simp
  have "distinct (dict_vals (compactedDicts sc v ttl now ! d))"
    using compacted_dim(1) [OF v d] by (rule dict_distinct)
  then have "card (live_vals ttl now (abs_view v) d) = dlen (compactedDicts sc v ttl now ! d)"
    using compacted_live [OF v d, of ttl now] by (metis distinct_card length_dict_vals)
  then show "map dlen (compactedDicts sc v ttl now) ! d =
      map (\<lambda>d. card (live_vals ttl now (abs_view v) d)) [0..<ndims sc] ! d" using d by simp
qed simp

section \<open>The merge, in both modes\<close>

lemma zipMerge_overflow:
  "computeShifts (map dlen dicts) (idx_dims sc) = Inl e \<Longrightarrow> zipMerge srt sc v ttl now dicts remap = Inl e"
  by (simp add: zipMerge_def)

lemma zipMerge_carries:
  assumes v: "view_ok sc v" and srt: "sorter srt" and c: "carries sc v ttl now dicts remap"
  shows "case zipMerge srt sc v ttl now dicts remap of
      Inl e \<Rightarrow> e = ErrKeyOverflow \<and> 64 < sum_list (key_widths (map dlen dicts) (idx_dims sc))
    | Inr s \<Rightarrow> snap_ok sc s \<and> s_dicts s = dicts \<and> view_ok sc (newView s) \<and>
        abs_view (newView s) = survivors ttl now (abs_view v) \<and>
        sum_list (key_widths (map dlen dicts) (idx_dims sc)) \<le> 64 \<and>
        srows s = length (live_rows v ttl now)"
proof (cases rule: computeShifts_cases [of "map dlen dicts" "idx_dims sc"])
  case 1
  then show ?thesis by (simp add: zipMerge_overflow computeShifts_Inl)
next
  case (2 ss)
  obtain s where s: "zipMerge srt sc v ttl now dicts remap = Inr s" "snap_ok sc s" "s_dicts s = dicts"
    "mset (map (snap_row s) [0..<srows s]) = mset (map (\<lambda>x. (mapIDs remap (fst x), snd x)) (live_rows v ttl now))"
    using zipMerge_ok [OF v srt c 2] by blast
  have "view_ok sc (newView s)" using s(2,3) carriesD(2) [OF c] by (intro view_ok_newView) simp_all
  moreover have "srows s = length (live_rows v ttl now)"
    using arg_cong [OF s(4), of size] by simp
  ultimately show ?thesis
    using s(1-3) merged_table [OF v c s(2-4)] 2 by (simp add: computeShifts_Inr)
qed

lemma mergeView_stable:
  assumes v: "view_ok sc v" and srt: "sorter srt"
  shows "case mergeView srt sc v ttl now False of
      Inl e \<Rightarrow> e = ErrKeyOverflow \<and> 64 < sum_list (key_widths (map length (view_vals v)) (idx_dims sc))
    | Inr s \<Rightarrow> view_ok sc (newView s) \<and> abs_view (newView s) = survivors ttl now (abs_view v) \<and>
        snap_vals s = view_vals v \<and> srows s = length (live_rows v ttl now)"
  using zipMerge_carries [OF v srt carries_merged [OF v], of ttl now] mergedDicts_ok [OF v]
  by (auto simp: mergeView_unfold snap_vals_def split: sum.splits)

lemma mergeView_renumber:
  assumes v: "view_ok sc v" and srt: "sorter srt"
  shows "case mergeView srt sc v ttl now True of
      Inl e \<Rightarrow> e = ErrKeyOverflow \<and>
        64 < sum_list (key_widths (map (\<lambda>d. card (live_vals ttl now (abs_view v) d)) [0..<ndims sc]) (idx_dims sc))
    | Inr s \<Rightarrow> view_ok sc (newView s) \<and> abs_view (newView s) = survivors ttl now (abs_view v) \<and>
        (\<forall>d < ndims sc. set (snap_vals s ! d) = live_vals ttl now (abs_view v) d) \<and>
        sum_list (key_widths (map (\<lambda>d. card (live_vals ttl now (abs_view v) d)) [0..<ndims sc]) (idx_dims sc)) \<le> 64 \<and>
        srows s = length (live_rows v ttl now)"
  using zipMerge_carries [OF v srt carries_compacted [OF v], of ttl now] compacted_live [OF v, of _ ttl now]
    compacted_dlen [OF v, of ttl now]
  by (auto simp: mergeView_unfold split: sum.splits)

text \<open>The table of a view has as many tuples as the view has rows.\<close>

lemma dom_abs_view:
  assumes v: "view_ok sc v"
  shows "finite (dom (abs_view v))" "card (dom (abs_view v)) = length (view_rows v)"
proof -
  have dom: "dom (abs_view v) = set (map (\<lambda>x. decode (view_vals v) (fst x)) (view_rows v))"
    by (force simp: abs_view_def dom_map_of_conv_image_fst)
  show "finite (dom (abs_view v))" unfolding dom by simp
  have "inj_on (decode (view_vals v)) (set (map fst (view_rows v)))"
    by (intro inj_onI decode_inj [OF view_vals_distinct [OF v]]) (auto intro: view_rows_ids_ok [OF v])
  then have "distinct (map (decode (view_vals v)) (map fst (view_rows v)))"
    using view_rows_distinct [OF v] by (simp only: distinct_map)
  then have "distinct (map (\<lambda>x. decode (view_vals v) (fst x)) (view_rows v))" by (simp add: comp_def)
  then show "card (dom (abs_view v)) = length (view_rows v)" unfolding dom by (simp only: distinct_card length_map)
qed

end
