(* ===== verification/Store.thy ===== *)
theory Store
  imports Merge
begin

text \<open>
  \<open>store.go\<close> and \<open>stats.go\<close>: the store and its writers. All writers run under the mutex and
  publish a whole view through one atomic pointer, so an execution is a sequence of
  operations, each a function from store to store; a reader sees the view between two of
  them. Readings of the clock are arguments, one per call of \<open>s.now()\<close>.
\<close>

section \<open>State\<close>

record stats =
  fullScans :: u64
  compactions :: u64
  reconciles :: u64
  compactionFailures :: u64
  snapshotSaves :: u64
  snapshotSaveFailures :: u64
  snapshotLoadFallbacks :: u64
  droppedOverCap :: u64
  scanBudgetRefusals :: u64
  lastCompactionMillis :: i64

record store =
  sto_sc :: schema
  sto_cfg :: config
  sto_view :: view
  sto_st :: stats
  sto_capBlocked :: bool
  sto_lastDictCompact :: i64

definition zeroStats :: stats where
  "zeroStats = \<lparr>fullScans = 0, compactions = 0, reconciles = 0, compactionFailures = 0,
     snapshotSaves = 0, snapshotSaveFailures = 0, snapshotLoadFallbacks = 0, droppedOverCap = 0,
     scanBudgetRefusals = 0, lastCompactionMillis = 0\<rparr>"

definition New :: "schema \<Rightarrow> config \<Rightarrow> err + store" where
  "New sc cfg =
     (case validate sc of
        Some e \<Rightarrow> Inl e
      | None \<Rightarrow> Inr \<lparr>sto_sc = sc, sto_cfg = cfg, sto_view = newView (emptySnapshot sc), sto_st = zeroStats,
                    sto_capBlocked = False, sto_lastDictCompact = 0\<rparr>)"

section \<open>Readers\<close>

definition Rows :: "store \<Rightarrow> nat" where
  "Rows s = srows (v_base (sto_view s))"

definition DeltaRows :: "store \<Rightarrow> nat" where
  "DeltaRows s = drows (v_delta (sto_view s))"

definition SyncPosition :: "store \<Rightarrow> instant" where
  "SyncPosition s =
     (let mu = view_maxUpdated (sto_view s)
      in if mu = 0 then 0 else unix_epoch + mu * 1000000)"

definition NeedsCompaction :: "store \<Rightarrow> instant \<Rightarrow> bool" where
  "NeedsCompaction s t =
     (let v = sto_view s; base = v_base v; now = unix_milli t in
      if drows (v_delta v) > 0 then True
      else if TTL (sto_cfg s) > 0 \<and> s_minUpdated base \<noteq> 0 \<and>
              s_minUpdated base < wrap64 (now - milliseconds (TTL (sto_cfg s))) then True
      else s_minExpire base \<noteq> 0 \<and> s_minExpire base \<le> now)"

definition ttlCutoff :: "store \<Rightarrow> instant \<Rightarrow> i64" where
  "ttlCutoff s t = (if TTL (sto_cfg s) \<le> 0 then 0 else unix_milli (t - TTL (sto_cfg s)))"

record StatsOut =
  o_Rows :: nat
  o_DeltaRows :: nat
  o_DictEntries :: "nat list"
  o_IndexKeyBits :: nat
  o_counters :: stats

definition Stats :: "store \<Rightarrow> StatsOut" where
  "Stats s =
     (let v = sto_view s;
          entries = map (\<lambda>i. dlen (s_dicts (v_base v) ! i) + dlen (v_extras v ! i)) [0..<ndims (sto_sc s)];
          bits = fold (\<lambda>i b. if int i < IndexDims (sto_sc s) then b + dictBits (entries ! i) else b)
                   [0..<ndims (sto_sc s)] 0
      in \<lparr>o_Rows = srows (v_base v), o_DeltaRows = drows (v_delta v), o_DictEntries = entries,
          o_IndexKeyBits = bits, o_counters = sto_st s\<rparr>)"

section \<open>Writers\<close>

definition countFailure :: "store \<Rightarrow> store" where
  "countFailure s = s\<lparr>sto_st := (sto_st s)\<lparr>compactionFailures := compactionFailures (sto_st s) + 1\<rparr>\<rparr>"

definition Apply :: "store \<Rightarrow> rec list \<Rightarrow> instant \<Rightarrow> err option \<times> store" where
  "Apply s recs t =
     (case applyDelta (sto_sc s) (sto_view s) recs (ttlCutoff s t) (sto_capBlocked s) of
        Inl e \<Rightarrow> (Some e, s)
      | Inr (nv, dropped) \<Rightarrow>
          (let s1 = (if dropped > 0
                     then s\<lparr>sto_st := (sto_st s)\<lparr>droppedOverCap := droppedOverCap (sto_st s) + of_nat dropped\<rparr>\<rparr>
                     else s)
           in (None, s1\<lparr>sto_view := nv\<rparr>)))"

definition seed :: "nat sort_fn \<Rightarrow> store \<Rightarrow> rec list \<Rightarrow> instant \<Rightarrow> instant \<Rightarrow> err option \<times> store" where
  "seed srt s recs t1 t2 =
     (case buildFromRecords srt (sto_sc s) recs (ttlCutoff s t1) (unix_milli t2) of
        Inl e \<Rightarrow> (Some e, s)
      | Inr snap \<Rightarrow> (None, s\<lparr>sto_view := newView snap\<rparr>))"

text \<open>
  \<open>Compact\<close>: \<open>t0\<close> is the reading for \<open>nowMilli\<close>, \<open>t1\<close> and \<open>t2\<close> those of the two calls of
  \<open>ttlCutoff\<close>, \<open>elapsed\<close> the milliseconds since \<open>start\<close>.
\<close>

definition overCap :: "config \<Rightarrow> nat \<Rightarrow> bool" where
  "overCap cfg n \<longleftrightarrow> MaxRows cfg > 0 \<and> int n > MaxRows cfg"

definition isOverflow :: "err + 'a \<Rightarrow> bool" where
  "isOverflow r = (case r of Inl e \<Rightarrow> e = ErrKeyOverflow | Inr _ \<Rightarrow> False)"

lemma isOverflow_iff: "isOverflow r \<longleftrightarrow> r = Inl ErrKeyOverflow"
  by (cases r) (simp_all add: isOverflow_def)

definition Compact :: "nat sort_fn \<Rightarrow> store \<Rightarrow> instant \<Rightarrow> instant \<Rightarrow> instant \<Rightarrow> i64 \<Rightarrow> err option \<times> store" where
  "Compact srt s t0 t1 t2 elapsed =
     (let nowMilli = unix_milli t0; cfg = sto_cfg s;
          renumber0 = (DictCompactInterval cfg \<le> 0 \<or>
            wrap64 (nowMilli - sto_lastDictCompact s) \<ge> milliseconds (DictCompactInterval cfg));
          r0 = mergeView srt (sto_sc s) (sto_view s) (ttlCutoff s t1) nowMilli renumber0;
          (renumber, r) =
            (if \<not> renumber0 \<and> isOverflow r0
             then (True, mergeView srt (sto_sc s) (sto_view s) (ttlCutoff s t2) nowMilli True)
             else (renumber0, r0))
      in case r of
           Inl e \<Rightarrow> (Some e, countFailure s)
         | Inr snap \<Rightarrow>
             if overCap cfg (srows snap)
             then (Some (ErrRowLimit (srows snap) (MaxRows cfg)), (countFailure s)\<lparr>sto_capBlocked := True\<rparr>)
             else (None, s\<lparr>sto_view := newView snap, sto_capBlocked := False,
                     sto_lastDictCompact := (if renumber then nowMilli else sto_lastDictCompact s),
                     sto_st := (sto_st s)\<lparr>compactions := compactions (sto_st s) + 1,
                                          lastCompactionMillis := elapsed\<rparr>\<rparr>))"

definition ReplaceAll :: "nat sort_fn \<Rightarrow> store \<Rightarrow> rec list \<Rightarrow> instant \<Rightarrow> instant \<Rightarrow> err option \<times> store" where
  "ReplaceAll srt s recs t1 t2 =
     (case buildFromRecords srt (sto_sc s) recs (ttlCutoff s t1) (unix_milli t2) of
        Inl e \<Rightarrow> (Some e, countFailure s)
      | Inr snap \<Rightarrow>
          if overCap (sto_cfg s) (srows snap)
          then (Some (ErrRowLimit (srows snap) (MaxRows (sto_cfg s))), (countFailure s)\<lparr>sto_capBlocked := True\<rparr>)
          else (None, s\<lparr>sto_view := newView snap, sto_capBlocked := False,
                  sto_st := (sto_st s)\<lparr>reconciles := reconciles (sto_st s) + 1\<rparr>\<rparr>))"

section \<open>Invariant\<close>

definition table :: "store \<Rightarrow> dval list \<rightharpoonup> arow" where
  "table s = abs_view (sto_view s)"

definition store_ok :: "store \<Rightarrow> bool" where
  "store_ok s \<longleftrightarrow> view_ok (sto_sc s) (sto_view s) \<and> \<not> overCap (sto_cfg s) (Rows s)"

lemma store_okD: "store_ok s \<Longrightarrow> view_ok (sto_sc s) (sto_view s)" "store_ok s \<Longrightarrow> \<not> overCap (sto_cfg s) (Rows s)"
  by (simp_all add: store_ok_def)

lemma emptySnapshot_dlen: "d < ndims sc \<Longrightarrow> dlen (s_dicts (emptySnapshot sc) ! d) = 0"
  by (simp add: emptySnapshot_dict)

lemma New_ok: "New sc cfg = Inr s \<Longrightarrow> store_ok s \<and> sto_sc s = sc \<and> sto_cfg s = cfg \<and> table s = Map.empty"
proof -
  assume "New sc cfg = Inr s"
  then have v: "validate sc = None" and s: "s = \<lparr>sto_sc = sc, sto_cfg = cfg,
      sto_view = newView (emptySnapshot sc), sto_st = zeroStats, sto_capBlocked = False, sto_lastDictCompact = 0\<rparr>"
    by (auto simp: New_def split: option.splits)
  have "view_ok sc (newView (emptySnapshot sc))"
    using v by (intro view_ok_newView snap_ok_empty) (simp_all add: validate_None emptySnapshot_dlen)
  moreover have "srows (v_base (newView (emptySnapshot sc))) = 0"
    by (simp add: newView_def srows_def emptySnapshot_def)
  ultimately show ?thesis
    by (simp add: s store_ok_def table_def abs_view_empty Rows_def overCap_def)
qed

section \<open>Apply\<close>

lemma Apply_refines:
  assumes ok: "store_ok s" and room: "room (sto_sc s) (sto_view s) (length recs)"
  shows "case spec_apply (sto_sc s) (table s) recs (ttlCutoff s t) (sto_capBlocked s) of
      Inl e \<Rightarrow> Apply s recs t = (Some e, s)
    | Inr (A, k) \<Rightarrow> fst (Apply s recs t) = None \<and> table (snd (Apply s recs t)) = A \<and>
        droppedOverCap (sto_st (snd (Apply s recs t))) = droppedOverCap (sto_st s) + of_nat k"
    and "store_ok (snd (Apply s recs t))"
  using applyDelta_simulates [OF store_okD(1) [OF ok] room, of "ttlCutoff s t" "sto_capBlocked s"] ok
  by (auto simp: Apply_def table_def store_ok_def Rows_def Let_def split: sum.splits prod.splits)

text \<open>A batch takes up at most one id per record in every dimension.\<close>

lemma Apply_room:
  assumes ok: "store_ok s" and room: "room (sto_sc s) (sto_view s) (length recs + m)"
  shows "room (sto_sc (snd (Apply s recs t))) (sto_view (snd (Apply s recs t))) m"
proof -
  have r: "room (sto_sc s) (sto_view s) (length recs)" using room by (auto simp: room_def)
  show ?thesis
  proof (cases "applyDelta (sto_sc s) (sto_view s) recs (ttlCutoff s t) (sto_capBlocked s)")
    case (Inl e)
    with room show ?thesis by (auto simp: Apply_def room_def)
  next
    case (Inr res)
    obtain v' k where res: "res = (v', k)" by (cases res)
    have "v_base v' = v_base (sto_view s)"
      "\<forall>d < ndims (sto_sc s). dlen (v_extras v' ! d) \<le> dlen (v_extras (sto_view s) ! d) + length recs"
      using applyDelta_simulates [OF store_okD(1) [OF ok] r, of "ttlCutoff s t" "sto_capBlocked s"] Inr res by auto
    with room Inr res show ?thesis by (fastforce simp: Apply_def room_def Let_def)
  qed
qed

lemma room_New: "New sc cfg = Inr s \<Longrightarrow> m < 2 ^ 32 \<Longrightarrow> room (sto_sc s) (sto_view s) m"
  by (auto simp: New_def room_def newView_def emptySnapshot_def split: option.splits)

lemma Apply_frame:
  "sto_sc (snd (Apply s recs t)) = sto_sc s" "sto_cfg (snd (Apply s recs t)) = sto_cfg s"
  "sto_capBlocked (snd (Apply s recs t)) = sto_capBlocked s"
  by (auto simp: Apply_def Let_def split: sum.splits prod.splits)

section \<open>Compact\<close>

text \<open>
  The specification on tables. The key budget is spent on the values of the surviving rows
  only, whatever the dictionaries hold, and the cap counts the surviving rows.
\<close>

definition live_bits :: "schema \<Rightarrow> i64 \<Rightarrow> i64 \<Rightarrow> (dval list \<rightharpoonup> arow) \<Rightarrow> nat" where
  "live_bits sc ttl now A = sum_list (map (\<lambda>d. dictBits (card (live_vals ttl now A d))) [0..<idx_dims sc])"

definition spec_compact :: "schema \<Rightarrow> config \<Rightarrow> i64 \<Rightarrow> i64 \<Rightarrow> (dval list \<rightharpoonup> arow) \<Rightarrow> err + (dval list \<rightharpoonup> arow)" where
  "spec_compact sc cfg ttl now A =
     (let A' = survivors ttl now A in
      if live_bits sc ttl now A > 64 then Inl ErrKeyOverflow
      else if overCap cfg (card (dom A')) then Inl (ErrRowLimit (card (dom A')) (MaxRows cfg))
      else Inr A')"

lemma live_bits_widths:
  assumes "idx_dims sc \<le> ndims sc"
  shows "sum_list (key_widths (map (\<lambda>d. card (live_vals ttl now A d)) [0..<ndims sc]) (idx_dims sc)) =
    live_bits sc ttl now A"
  using assms by (auto simp: live_bits_def key_widths_def intro!: arg_cong [where f = sum_list])

lemma live_vals_subset:
  assumes v: "view_ok sc v" and d: "d < ndims sc"
  shows "live_vals ttl now (abs_view v) d \<subseteq> set (view_vals v ! d)"
  unfolding compacted_live [OF v d, symmetric] compacted_dim(3) [OF v d] by auto

lemma live_bits_le:
  assumes v: "view_ok sc v"
  shows "live_bits sc ttl now (abs_view v) \<le> sum_list (key_widths (map length (view_vals v)) (idx_dims sc))"
proof -
  have k: "idx_dims sc \<le> ndims sc" using schema_okD [OF snap_okD(1) [OF view_okD(1) [OF v]]] by simp
  have "dictBits (card (live_vals ttl now (abs_view v) d)) \<le> dictBits (length (view_vals v ! d))" if "d < idx_dims sc" for d
  proof (rule dictBits_mono)
    have "card (live_vals ttl now (abs_view v) d) \<le> card (set (view_vals v ! d))"
      using live_vals_subset [OF v] that k by (intro card_mono) auto
    also have "\<dots> \<le> length (view_vals v ! d)" by (rule card_length)
    finally show "card (live_vals ttl now (abs_view v) d) \<le> length (view_vals v ! d)" .
  qed
  then show ?thesis
    using k view_ok_lengths [OF v] unfolding live_bits_def key_widths_def
    by (intro sum_list_mono) simp
qed

lemma merged_rows:
  assumes "view_ok sc (newView s)"
  shows "card (dom (abs_view (newView s))) = srows s"
  using dom_abs_view(2) [OF assms] by (simp add: view_rows_newView)

text \<open>One merge, in either mode, against the specification.\<close>

lemma mergeView_True_spec:
  assumes v: "view_ok sc v" and srt: "sorter srt"
  shows "case mergeView srt sc v ttl now True of
      Inl e \<Rightarrow> e = ErrKeyOverflow \<and> 64 < live_bits sc ttl now (abs_view v)
    | Inr s \<Rightarrow> view_ok sc (newView s) \<and> abs_view (newView s) = survivors ttl now (abs_view v) \<and>
        live_bits sc ttl now (abs_view v) \<le> 64 \<and> srows s = card (dom (survivors ttl now (abs_view v)))"
proof -
  have k: "idx_dims sc \<le> ndims sc" using schema_okD [OF snap_okD(1) [OF view_okD(1) [OF v]]] by simp
  show ?thesis
    using mergeView_renumber [OF v srt, of ttl now] live_bits_widths [OF k, of ttl now "abs_view v"]
    by (auto simp: merged_rows [symmetric] split: sum.splits)
qed

lemma mergeView_False_spec:
  assumes v: "view_ok sc v" and srt: "sorter srt"
  shows "case mergeView srt sc v ttl now False of
      Inl e \<Rightarrow> e = ErrKeyOverflow
    | Inr s \<Rightarrow> view_ok sc (newView s) \<and> abs_view (newView s) = survivors ttl now (abs_view v) \<and>
        live_bits sc ttl now (abs_view v) \<le> 64 \<and> srows s = card (dom (survivors ttl now (abs_view v)))"
proof -
  have "mergeView srt sc v ttl now False = Inr s \<Longrightarrow>
      sum_list (key_widths (map length (view_vals v)) (idx_dims sc)) \<le> 64" for s
    using zipMerge_carries [OF v srt carries_merged [OF v], of ttl now]
    by (simp add: mergeView_unfold mergedDicts_ok(3) [OF v])
  then show ?thesis
    using mergeView_stable [OF v srt, of ttl now] live_bits_le [OF v, of ttl now]
    by (fastforce simp: merged_rows [symmetric] split: sum.splits)
qed

text \<open>
  A compaction behaves as the specification at one of its two readings of the cutoff. An
  error leaves the table as it was; only a refusal over the cap sets the block.
\<close>

lemma Compact_refines:
  fixes t0 t1 t2 :: instant and elapsed :: i64
  assumes ok: "store_ok s" and srt: "sorter srt"
  defines "c1 \<equiv> ttlCutoff s t1" and "c2 \<equiv> ttlCutoff s t2" and "now \<equiv> unix_milli t0"
  defines "res \<equiv> Compact srt s t0 t1 t2 elapsed"
  shows "store_ok (snd res)"
    and "\<exists>c \<in> {c1, c2}. case spec_compact (sto_sc s) (sto_cfg s) c now (table s) of
       Inl e \<Rightarrow> fst res = Some e \<and> table (snd res) = table s \<and>
         sto_capBlocked (snd res) = (sto_capBlocked s \<or> e \<noteq> ErrKeyOverflow)
     | Inr A \<Rightarrow> fst res = None \<and> table (snd res) = A \<and> \<not> sto_capBlocked (snd res) \<and> DeltaRows (snd res) = 0"
proof -
  let ?sc = "sto_sc s" and ?v = "sto_view s" and ?cfg = "sto_cfg s"
  have v: "view_ok ?sc ?v" using ok by (rule store_okD)
  define spec where "spec c r \<longleftrightarrow> (case r of
      Inl e \<Rightarrow> e = ErrKeyOverflow \<and> 64 < live_bits ?sc c now (abs_view ?v)
    | Inr sn \<Rightarrow> view_ok ?sc (newView sn) \<and> abs_view (newView sn) = survivors c now (abs_view ?v) \<and>
        live_bits ?sc c now (abs_view ?v) \<le> 64 \<and> srows sn = card (dom (survivors c now (abs_view ?v))))" for c r
  have t: "spec c (mergeView srt ?sc ?v c now True)" for c
    using mergeView_True_spec [OF v srt] by (simp add: spec_def)
  have f: "spec c (mergeView srt ?sc ?v c now False) \<or> mergeView srt ?sc ?v c now False = Inl ErrKeyOverflow" for c
    using mergeView_False_spec [OF v srt, of c now] by (auto simp: spec_def split: sum.splits)
  have cut: "\<exists>c \<in> {c1, c2}. spec c (if \<not> ren0 \<and> mergeView srt ?sc ?v c1 now ren0 = Inl ErrKeyOverflow
      then mergeView srt ?sc ?v c2 now True else mergeView srt ?sc ?v c1 now ren0)" for ren0
    using t f [of c1] by (cases ren0) auto
  define ren0 where "ren0 \<longleftrightarrow> DictCompactInterval ?cfg \<le> 0 \<or>
    wrap64 (now - sto_lastDictCompact s) \<ge> milliseconds (DictCompactInterval ?cfg)"
  define retry where "retry \<longleftrightarrow> \<not> ren0 \<and> mergeView srt ?sc ?v c1 now ren0 = Inl ErrKeyOverflow"
  define r where "r = (if retry then mergeView srt ?sc ?v c2 now True else mergeView srt ?sc ?v c1 now ren0)"
  define ren where "ren \<longleftrightarrow> retry \<or> ren0"
  obtain c where c: "c \<in> {c1, c2}" "spec c r"
    using cut [of ren0] unfolding r_def retry_def by blast
  have res: "res = (case r of
           Inl e \<Rightarrow> (Some e, countFailure s)
         | Inr snap \<Rightarrow>
             if overCap ?cfg (srows snap)
             then (Some (ErrRowLimit (srows snap) (MaxRows ?cfg)), (countFailure s)\<lparr>sto_capBlocked := True\<rparr>)
             else (None, s\<lparr>sto_view := newView snap, sto_capBlocked := False,
                     sto_lastDictCompact := (if ren then now else sto_lastDictCompact s),
                     sto_st := (sto_st s)\<lparr>compactions := compactions (sto_st s) + 1,
                                          lastCompactionMillis := elapsed\<rparr>\<rparr>))"
    unfolding res_def Compact_def isOverflow_iff Let_def c1_def [symmetric] c2_def [symmetric] now_def [symmetric]
      ren0_def [symmetric] retry_def [symmetric]
    by (cases retry) (simp_all add: r_def ren_def)
  have base: "v_base (newView sn) = sn" "drows (v_delta (newView sn)) = 0" for sn
    by (simp_all add: newView_def emptyDelta_def drows_def)
  show "store_ok (snd res)"
    using c(2) ok unfolding res spec_def
    by (auto simp: store_ok_def countFailure_def Rows_def base split: sum.splits)
  show "\<exists>c \<in> {c1, c2}. case spec_compact (sto_sc s) (sto_cfg s) c now (table s) of
       Inl e \<Rightarrow> fst res = Some e \<and> table (snd res) = table s \<and>
         sto_capBlocked (snd res) = (sto_capBlocked s \<or> e \<noteq> ErrKeyOverflow)
     | Inr A \<Rightarrow> fst res = None \<and> table (snd res) = A \<and> \<not> sto_capBlocked (snd res) \<and> DeltaRows (snd res) = 0"
    using c unfolding res spec_def
    by (intro bexI [of _ c])
       (auto simp: spec_compact_def table_def countFailure_def DeltaRows_def base Let_def split: sum.splits)
qed

section \<open>ReplaceAll\<close>

lemma ReplaceAll_refines:
  fixes t1 t2 :: instant
  assumes ok: "store_ok s" and srt: "sorter srt" and len: "length recs < 2 ^ 32"
  defines "res \<equiv> ReplaceAll srt s recs t1 t2"
  shows "store_ok (snd res)"
    and "case fst res of
       Some e \<Rightarrow> table (snd res) = table s \<and>
         (spec_stage (sto_sc s) (ttlCutoff s t1) (zip [0..<length recs] recs) = Inl e \<or>
          e = ErrKeyOverflow \<or> (\<exists>n. e = ErrRowLimit n (MaxRows (sto_cfg s)) \<and> overCap (sto_cfg s) n \<and>
            sto_capBlocked (snd res)))
     | None \<Rightarrow> \<exists>es. spec_stage (sto_sc s) (ttlCutoff s t1) (zip [0..<length recs] recs) = Inr es \<and>
         build_of es (unix_milli t2) (table (snd res)) \<and> \<not> sto_capBlocked (snd res) \<and> DeltaRows (snd res) = 0"
proof -
  let ?sc = "sto_sc s"
  have sc: "schema_ok ?sc" using snap_okD(1) [OF view_okD(1) [OF store_okD(1) [OF ok]]] .
  note b = buildFromRecords_refines [OF srt sc len, of "ttlCutoff s t1" "unix_milli t2"]
  have base: "v_base (newView sn) = sn" "drows (v_delta (newView sn)) = 0" for sn
    by (simp_all add: newView_def emptyDelta_def drows_def)
  show "store_ok (snd res)"
    using b ok unfolding res_def
    by (auto simp: ReplaceAll_def store_ok_def countFailure_def Rows_def base split: sum.splits intro: view_ok_newView)
  show "case fst res of
       Some e \<Rightarrow> table (snd res) = table s \<and>
         (spec_stage (sto_sc s) (ttlCutoff s t1) (zip [0..<length recs] recs) = Inl e \<or>
          e = ErrKeyOverflow \<or> (\<exists>n. e = ErrRowLimit n (MaxRows (sto_cfg s)) \<and> overCap (sto_cfg s) n \<and>
            sto_capBlocked (snd res)))
     | None \<Rightarrow> \<exists>es. spec_stage (sto_sc s) (ttlCutoff s t1) (zip [0..<length recs] recs) = Inr es \<and>
         build_of es (unix_milli t2) (table (snd res)) \<and> \<not> sto_capBlocked (snd res) \<and> DeltaRows (snd res) = 0"
    using b unfolding res_def
    by (auto simp: ReplaceAll_def countFailure_def table_def DeltaRows_def base split: sum.splits)
qed

section \<open>What a batch does to the table\<close>

lemma spec_upsert_cases:
  "spec_upsert blocked key row (A, k) = (A', k') \<Longrightarrow>
   (A' = A \<and> (\<exists>old. A key = Some old \<and> a_upd row < a_upd old) \<and> k' = k) \<or>
   (A' = A \<and> A key = None \<and> blocked \<and> k' = k + 1) \<or>
   (A' = A(key \<mapsto> row) \<and> k' = k \<and> (\<forall>old. A key = Some old \<longrightarrow> a_upd old \<le> a_upd row) \<and> (blocked \<longrightarrow> key \<in> dom A))"
  by (auto simp: spec_upsert_def split: option.splits if_splits)

text \<open>A record that the batch admits: well-formed, not below the cutoff, with the tuple \<open>key\<close>.\<close>

definition admits :: "schema \<Rightarrow> i64 \<Rightarrow> (nat \<times> rec) list \<Rightarrow> dval list \<Rightarrow> arow \<Rightarrow> bool" where
  "admits sc ttl rs key row \<longleftrightarrow>
     (\<exists>(n, rc) \<in> set rs. canon_dims sc n rc [0..<ndims sc] = Inr key \<and> row = rec_row rc \<and>
        \<not> unix_milli (UpdatedAt rc) < ttl)"

lemma spec_rec_Inr:
  assumes "spec_rec sc ttl blocked (n, rc) (A, k) = Inr (A', k')"
  shows "(unix_milli (UpdatedAt rc) < ttl \<and> A' = A \<and> k' = k) \<or>
    (\<exists>key. \<not> unix_milli (UpdatedAt rc) < ttl \<and> canon_dims sc n rc [0..<ndims sc] = Inr key \<and>
      spec_upsert blocked key (rec_row rc) (A, k) = (A', k'))"
  using assms by (auto simp: spec_rec_def split: if_splits sum.splits)

lemma a_upd_rec_row [simp]: "a_upd (rec_row rc) = unix_milli (UpdatedAt rc)"
  by (simp add: rec_row_def)

text \<open>No row is lost and no row moves back in time; every new row is an admitted record.\<close>

lemma spec_recs_mono:
  assumes "spec_recs sc ttl blocked rs (A, k) = Inr (A', k')"
  shows "A key = Some old \<Longrightarrow> \<exists>new. A' key = Some new \<and> a_upd old \<le> a_upd new"
    and "A' key = Some new \<Longrightarrow> A key = Some new \<or> admits sc ttl rs key new"
    and "blocked \<Longrightarrow> dom A' = dom A" and "k \<le> k'" and "\<not> blocked \<Longrightarrow> k' = k"
proof -
  have "(\<forall>old. A key = Some old \<longrightarrow> (\<exists>new. A' key = Some new \<and> a_upd old \<le> a_upd new)) \<and>
    (\<forall>new. A' key = Some new \<longrightarrow> A key = Some new \<or> admits sc ttl rs key new) \<and>
    (blocked \<longrightarrow> dom A' = dom A) \<and> k \<le> k' \<and> (\<not> blocked \<longrightarrow> k' = k)"
    using assms
  proof (induction rs arbitrary: A k)
    case Nil
    then show ?case by auto
  next
    case (Cons r rs)
    obtain n rc where r: "r = (n, rc)" by (cases r)
    obtain A1 k1 where one: "spec_rec sc ttl blocked (n, rc) (A, k) = Inr (A1, k1)"
      and rest: "spec_recs sc ttl blocked rs (A1, k1) = Inr (A', k')"
      using Cons.prems by (auto simp: r split: sum.splits)
    have sub: "admits sc ttl rs key new \<Longrightarrow> admits sc ttl (r # rs) key new" for new
      by (auto simp: admits_def)
    note IH = Cons.IH [OF rest]
    consider (same) "A1 = A" "k \<le> k1" "\<not> blocked \<longrightarrow> k1 = k"
      | (put) key0 where "A1 = A(key0 \<mapsto> rec_row rc)" "k1 = k" "\<forall>old. A key0 = Some old \<longrightarrow> a_upd old \<le> a_upd (rec_row rc)"
        "blocked \<longrightarrow> key0 \<in> dom A" "admits sc ttl (r # rs) key0 (rec_row rc)"
      using spec_rec_Inr [OF one]
    proof (elim disjE exE conjE, goal_cases)
      case 1
      then show thesis using same by simp
    next
      case (2 key0)
      then have adm: "admits sc ttl (r # rs) key0 (rec_row rc)" by (auto simp: admits_def r)
      from spec_upsert_cases [OF 2(5)] show thesis
      proof (elim disjE, goal_cases)
        case 1
        then show thesis by (intro same) auto
      next
        case 2
        then show thesis by (intro same) auto
      next
        case 3
        then show thesis using adm by (intro put) auto
      qed
    qed
    then show ?case
    proof cases
      case same
      with IH sub show ?thesis by auto
    next
      case put
      have old: "\<exists>new. A' key = Some new \<and> a_upd old \<le> a_upd new" if "A key = Some old" for old
      proof (cases "key = key0")
        case True
        with put(1) IH obtain new where "A' key = Some new" "a_upd (rec_row rc) \<le> a_upd new" by auto
        with put(3) True that show ?thesis by (auto intro: order_trans)
      next
        case False
        with put(1) IH that show ?thesis by auto
      qed
      moreover have "A key = Some new \<or> admits sc ttl (r # rs) key new" if "A' key = Some new" for new
        using that IH put(1,5) sub by (cases "key = key0") auto
      moreover have "dom A' = dom A" if "blocked"
      proof -
        have "dom A1 = dom A" using put(4) that unfolding put(1) dom_fun_upd by (simp add: insert_absorb)
        with IH that show ?thesis by simp
      qed
      ultimately show ?thesis using IH put(2) by blast
    qed
  qed
  then show "A key = Some old \<Longrightarrow> \<exists>new. A' key = Some new \<and> a_upd old \<le> a_upd new"
    and "A' key = Some new \<Longrightarrow> A key = Some new \<or> admits sc ttl rs key new"
    and "blocked \<Longrightarrow> dom A' = dom A" and "k \<le> k'" and "\<not> blocked \<Longrightarrow> k' = k" by blast+
qed

text \<open>After the batch the table holds, for every admitted record, a row at least as recent.\<close>

lemma spec_recs_newest:
  assumes "spec_recs sc ttl False rs (A, k) = Inr (A', k')" "admits sc ttl rs key row"
  shows "\<exists>new. A' key = Some new \<and> a_upd row \<le> a_upd new"
  using assms
proof (induction rs arbitrary: A k)
  case Nil
  then show ?case by (simp add: admits_def)
next
  case (Cons r rs)
  obtain n rc where r: "r = (n, rc)" by (cases r)
  obtain A1 k1 where one: "spec_rec sc ttl False (n, rc) (A, k) = Inr (A1, k1)"
    and rest: "spec_recs sc ttl False rs (A1, k1) = Inr (A', k')"
    using Cons.prems by (auto simp: r split: sum.splits)
  show ?case
  proof (cases "admits sc ttl rs key row")
    case True
    with Cons.IH [OF rest] show ?thesis by blast
  next
    case False
    then have here: "canon_dims sc n rc [0..<ndims sc] = Inr key" "row = rec_row rc" "\<not> unix_milli (UpdatedAt rc) < ttl"
      using Cons.prems(2) by (auto simp: admits_def r)
    then have up: "spec_upsert False key row (A, k) = (A1, k1)" using spec_rec_Inr [OF one] by auto
    have "\<exists>new. A1 key = Some new \<and> a_upd row \<le> a_upd new"
      using spec_upsert_cases [OF up] by fastforce
    with spec_recs_mono(1) [OF rest] show ?thesis by (meson order_trans)
  qed
qed

text \<open>The row cap, once it blocks, lets no tuple in that the table does not hold.\<close>

lemma Apply_blocked:
  assumes ok: "store_ok s" and room: "room (sto_sc s) (sto_view s) (length recs)" and b: "sto_capBlocked s"
  shows "dom (table (snd (Apply s recs t))) = dom (table s)"
proof (cases "spec_apply (sto_sc s) (table s) recs (ttlCutoff s t) (sto_capBlocked s)")
  case (Inl e)
  then show ?thesis using Apply_refines(1) [OF ok room, of t] by simp
next
  case (Inr r)
  obtain A k where r: "r = (A, k)" by (cases r)
  with Inr have "table (snd (Apply s recs t)) = A" using Apply_refines(1) [OF ok room, of t] by simp
  with Inr r b show ?thesis using spec_recs_mono(3) by (simp add: spec_apply_def)
qed

lemma Apply_converges:
  assumes ok: "store_ok s" and room: "room (sto_sc s) (sto_view s) (length recs)"
    and b: "\<not> sto_capBlocked s" and none: "fst (Apply s recs t) = None"
  shows "admits (sto_sc s) (ttlCutoff s t) (zip [0..<length recs] recs) key row \<Longrightarrow>
      \<exists>new. table (snd (Apply s recs t)) key = Some new \<and> a_upd row \<le> a_upd new"
    and "table s key = Some old \<Longrightarrow> \<exists>new. table (snd (Apply s recs t)) key = Some new \<and> a_upd old \<le> a_upd new"
    and "table (snd (Apply s recs t)) key = Some new \<Longrightarrow>
      table s key = Some new \<or> admits (sto_sc s) (ttlCutoff s t) (zip [0..<length recs] recs) key new"
proof -
  obtain A k where r: "spec_apply (sto_sc s) (table s) recs (ttlCutoff s t) False = Inr (A, k)"
    using Apply_refines(1) [OF ok room, of t] b none by (cases "spec_apply (sto_sc s) (table s) recs (ttlCutoff s t) False") auto
  then have A: "table (snd (Apply s recs t)) = A" using Apply_refines(1) [OF ok room, of t] b by simp
  note sp = r [unfolded spec_apply_def]
  show "admits (sto_sc s) (ttlCutoff s t) (zip [0..<length recs] recs) key row \<Longrightarrow>
      \<exists>new. table (snd (Apply s recs t)) key = Some new \<and> a_upd row \<le> a_upd new"
    unfolding A by (rule spec_recs_newest [OF sp])
  show "table s key = Some old \<Longrightarrow> \<exists>new. table (snd (Apply s recs t)) key = Some new \<and> a_upd old \<le> a_upd new"
    unfolding A by (rule spec_recs_mono(1) [OF sp])
  show "table (snd (Apply s recs t)) key = Some new \<Longrightarrow>
      table s key = Some new \<or> admits (sto_sc s) (ttlCutoff s t) (zip [0..<length recs] recs) key new"
    unfolding A by (rule spec_recs_mono(2) [OF sp])
qed

section \<open>Executions\<close>

datatype op =
    OpApply "rec list" instant
  | OpCompact instant instant instant i64
  | OpReplaceAll "rec list" instant instant

definition exec :: "nat sort_fn \<Rightarrow> op \<Rightarrow> store \<Rightarrow> err option \<times> store" where
  "exec srt oper s = (case oper of
     OpApply recs t \<Rightarrow> Apply s recs t
   | OpCompact t0 t1 t2 elapsed \<Rightarrow> Compact srt s t0 t1 t2 elapsed
   | OpReplaceAll recs t1 t2 \<Rightarrow> ReplaceAll srt s recs t1 t2)"

text \<open>The host stays below \<open>2^32\<close> values per dimension, where \<open>uint32\<close> ids would wrap round.\<close>

definition op_fits :: "op \<Rightarrow> store \<Rightarrow> bool" where
  "op_fits oper s = (case oper of
     OpApply recs _ \<Rightarrow> room (sto_sc s) (sto_view s) (length recs)
   | OpCompact _ _ _ _ \<Rightarrow> True
   | OpReplaceAll recs _ _ \<Rightarrow> length recs < 2 ^ 32)"

inductive writer_step :: "nat sort_fn \<Rightarrow> store \<Rightarrow> store \<Rightarrow> bool" for srt where
  write_op: "op_fits oper s \<Longrightarrow> exec srt oper s = (r, s1) \<Longrightarrow> writer_step srt s s1"

inductive_cases writer_stepE: "writer_step srt s s1"

abbreviation reach :: "nat sort_fn \<Rightarrow> store \<Rightarrow> store \<Rightarrow> bool" where
  "reach srt \<equiv> (writer_step srt)\<^sup>*\<^sup>*"

lemma exec_frame: "sto_sc (snd (exec srt oper s)) = sto_sc s \<and> sto_cfg (snd (exec srt oper s)) = sto_cfg s"
  by (cases oper) (auto simp: exec_def Apply_frame Compact_def ReplaceAll_def countFailure_def Let_def
      split: sum.splits prod.splits)

lemma exec_ok:
  assumes "store_ok s" "op_fits oper s" "sorter srt"
  shows "store_ok (snd (exec srt oper s))"
  using assms Apply_refines(2) Compact_refines(1) ReplaceAll_refines(1)
  by (cases oper) (simp_all add: exec_def op_fits_def)

interpretation writers: preserved "writer_step srt" "\<lambda>s. sorter srt \<and> store_ok s" "\<lambda>s. (sto_sc s, sto_cfg s)" for srt
proof unfold_locales
  fix s s1 assume "writer_step srt s s1" "sorter srt \<and> store_ok s"
  then show "(sorter srt \<and> store_ok s1) \<and> (sto_sc s1, sto_cfg s1) = (sto_sc s, sto_cfg s)"
    by (metis exec_frame exec_ok snd_conv writer_stepE)
qed

lemma reach_ok:
  assumes "reach srt s s'" "sorter srt" "store_ok s"
  shows "store_ok s' \<and> sto_sc s' = sto_sc s \<and> sto_cfg s' = sto_cfg s"
  using writers.run_ok [OF assms(1)] assms(2,3) by simp

end
