(* ===== verification/Float64.thy ===== *)
theory Float64
  imports Keys
begin

text \<open>
  IEEE 754 binary64 as Go's \<open>float64\<close> has it: the bits of a value, exact arithmetic on
  integer significands, and one rounding to nearest with ties to even. A NaN result is the
  quiet NaN of \<open>math.NaN()\<close>; the payload that hardware would propagate is not modelled.
\<close>

section \<open>Reading the bits\<close>

definition f_sign :: "f64 \<Rightarrow> bool" where
  "f_sign x \<longleftrightarrow> bit x 63"

definition f_exp :: "f64 \<Rightarrow> int" where
  "f_exp x = uint x div 2 ^ 52 mod 2 ^ 11"

definition f_frac :: "f64 \<Rightarrow> int" where
  "f_frac x = uint x mod 2 ^ 52"

definition f_is_nan :: "f64 \<Rightarrow> bool" where
  "f_is_nan x \<longleftrightarrow> f_exp x = 2047 \<and> f_frac x \<noteq> 0"

definition f_is_inf :: "f64 \<Rightarrow> bool" where
  "f_is_inf x \<longleftrightarrow> f_exp x = 2047 \<and> f_frac x = 0"

text \<open>A finite value is \<open>f_sig x * 2 ^ f_scale x\<close>, the significand signed.\<close>

definition f_sig :: "f64 \<Rightarrow> int" where
  "f_sig x = (let m = (if f_exp x = 0 then f_frac x else 2 ^ 52 + f_frac x) in if f_sign x then - m else m)"

definition f_scale :: "f64 \<Rightarrow> int" where
  "f_scale x = (if f_exp x = 0 then - 1074 else f_exp x - 1075)"

definition f_nan :: f64 where "f_nan = 0x7FF8000000000001"

definition f_inf :: "bool \<Rightarrow> f64" where
  "f_inf neg = (if neg then 0xFFF0000000000000 else 0x7FF0000000000000)"

definition f_zero :: "bool \<Rightarrow> f64" where
  "f_zero neg = (if neg then 0x8000000000000000 else 0)"

section \<open>Rounding\<close>

fun int_bits :: "int \<Rightarrow> nat" where
  "int_bits m = (if m \<le> 0 then 0 else Suc (int_bits (m div 2)))"

declare int_bits.simps [simp del]

lemma int_bits_code [code]: "int_bits m = (if m \<le> 0 then 0 else Suc (int_bits (m div 2)))"
  by (rule int_bits.simps)

text \<open>\<open>shift_round m s\<close> is \<open>m / 2 ^ s\<close> to the nearest integer, ties to even.\<close>

definition shift_round :: "int \<Rightarrow> nat \<Rightarrow> int" where
  "shift_round m s =
     (let q = m div 2 ^ s; r = 2 * (m mod 2 ^ s)
      in if r < 2 ^ s \<or> (r = 2 ^ s \<and> even q) then q else q + 1)"

text \<open>
  The float nearest to \<open>m * 2 ^ e\<close>, for \<open>m \<ge> 0\<close>. The quantum \<open>2 ^ q\<close> leaves 53 bits, or
  fewer below the normal range; adding the significand to the shifted exponent field also
  carries a significand that rounds up to \<open>2 ^ 53\<close> into the exponent.
\<close>

definition f_round :: "bool \<Rightarrow> int \<Rightarrow> int \<Rightarrow> f64" where
  "f_round neg m e =
     (if m = 0 then f_zero neg
      else
        let q = max (e + int (int_bits m) - 53) (- 1074);
            r = (if q \<le> e then m * 2 ^ nat (e - q) else shift_round m (nat (q - e)));
            b = (q + 1074) * 2 ^ 52 + r
        in if b \<ge> 0x7FF0000000000000 then f_inf neg
           else f_zero neg OR word_of_int b)"

section \<open>Arithmetic\<close>

definition f_add :: "f64 \<Rightarrow> f64 \<Rightarrow> f64" where
  "f_add x y =
     (if f_is_nan x \<or> f_is_nan y then f_nan
      else if f_is_inf x then (if f_is_inf y \<and> f_sign x \<noteq> f_sign y then f_nan else x)
      else if f_is_inf y then y
      else
        let e = min (f_scale x) (f_scale y);
            s = f_sig x * 2 ^ nat (f_scale x - e) + f_sig y * 2 ^ nat (f_scale y - e)
        in if s = 0 then f_zero (f_sign x \<and> f_sign y) else f_round (s < 0) \<bar>s\<bar> e)"

definition f_mul :: "f64 \<Rightarrow> f64 \<Rightarrow> f64" where
  "f_mul x y =
     (let neg = (f_sign x \<noteq> f_sign y) in
      if f_is_nan x \<or> f_is_nan y then f_nan
      else if f_is_inf x then (if f_is_inf y \<or> f_sig y \<noteq> 0 then f_inf neg else f_nan)
      else if f_is_inf y then (if f_sig x \<noteq> 0 then f_inf neg else f_nan)
      else f_round neg \<bar>f_sig x * f_sig y\<bar> (f_scale x + f_scale y))"

text \<open>Division: 66 bits of quotient and a sticky bit decide the rounding.\<close>

definition f_div :: "f64 \<Rightarrow> f64 \<Rightarrow> f64" where
  "f_div x y =
     (let neg = (f_sign x \<noteq> f_sign y) in
      if f_is_nan x \<or> f_is_nan y then f_nan
      else if f_is_inf x then (if f_is_inf y then f_nan else f_inf neg)
      else if f_is_inf y then f_zero neg
      else if f_sig y = 0 then (if f_sig x = 0 then f_nan else f_inf neg)
      else
        let a = \<bar>f_sig x\<bar> * 2 ^ 120; b = \<bar>f_sig y\<bar>;
            q = 2 * (a div b) + (if a mod b = 0 then 0 else 1)
        in f_round neg q (f_scale x - f_scale y - 121))"

definition f_less :: "f64 \<Rightarrow> f64 \<Rightarrow> bool" where
  "f_less x y \<longleftrightarrow>
     (if f_is_nan x \<or> f_is_nan y then False
      else if f_is_inf x then f_sign x \<and> \<not> (f_is_inf y \<and> f_sign y)
      else if f_is_inf y then \<not> f_sign y
      else
        let e = min (f_scale x) (f_scale y)
        in f_sig x * 2 ^ nat (f_scale x - e) < f_sig y * 2 ^ nat (f_scale y - e))"

definition f_eq :: "f64 \<Rightarrow> f64 \<Rightarrow> bool" where
  "f_eq x y \<longleftrightarrow> \<not> f_is_nan x \<and> \<not> f_is_nan y \<and> \<not> f_less x y \<and> \<not> f_less y x"

definition f_le :: "f64 \<Rightarrow> f64 \<Rightarrow> bool" where
  "f_le x y \<longleftrightarrow> f_less x y \<or> f_eq x y"

text \<open>\<open>float64(n)\<close> of an integer.\<close>

definition f_of_int :: "int \<Rightarrow> f64" where
  "f_of_int n = f_round (n < 0) \<bar>n\<bar> 0"

section \<open>Integers up to \<open>2 ^ 53\<close> are exact\<close>

lemma int_bits_bound: "0 < m \<Longrightarrow> m < 2 ^ int_bits m \<and> 2 ^ (int_bits m - 1) \<le> m"
proof (induction m rule: int_bits.induct)
  case (1 m)
  show ?case
  proof (cases "m div 2 \<le> 0")
    case True
    with 1 have "m = 1" by simp
    then show ?thesis by (simp add: int_bits.simps [of 1] int_bits.simps [of 0])
  next
    case False
    with 1 have IH: "m div 2 < 2 ^ int_bits (m div 2)" "2 ^ (int_bits (m div 2) - 1) \<le> m div 2" by auto
    have pos: "0 < int_bits (m div 2)" using False by (simp add: int_bits.simps [of "m div 2"])
    have eq: "int_bits m = Suc (int_bits (m div 2))" using 1 by (simp add: int_bits.simps [of m])
    have "m < 2 * 2 ^ int_bits (m div 2)" using IH(1) by linarith
    moreover have "2 * 2 ^ (int_bits (m div 2) - 1) \<le> m" using IH(2) by linarith
    ultimately show ?thesis using pos unfolding eq by (cases "int_bits (m div 2)") auto
  qed
qed

lemma int_bits_le: "0 < m \<Longrightarrow> m < 2 ^ k \<Longrightarrow> int_bits m \<le> k"
proof (rule ccontr)
  assume m: "0 < m" "m < 2 ^ k" "\<not> int_bits m \<le> k"
  then have "(2::int) ^ k \<le> 2 ^ (int_bits m - 1)" by (intro power_increasing) auto
  with int_bits_bound [OF m(1)] m(2) show False by linarith
qed

end
