(* ===== verification/Scratch.thy ===== *)
theory Scratch
  imports Store Float64
begin

text \<open>
  \<open>scratch.go\<close> and the data of \<open>query.go\<close>: conditions, plans, the per-query workspace and the
  routing between the stack and the pool. The pools never grow: an append is a reslice within
  the capacity, and beyond it a run-time panic, the value \<open>Inl Panic\<close> here.
\<close>

section \<open>Conditions and plans\<close>

record cond =
  c_dim :: string
  c_value :: string
  c_in :: "string list"
  c_range :: "(i64 \<times> i64) option"

record gplan =
  p_condOff :: nat
  p_condN :: nat
  p_insOff :: nat
  p_insN :: nat
  p_rngOff :: nat
  p_rngN :: nat
  p_lo :: nat
  p_hi :: nat
  p_scan :: bool
  p_dead :: bool
  p_basePossible :: bool

definition freshPlan :: gplan where
  "freshPlan = \<lparr>p_condOff = 0, p_condN = 0, p_insOff = 0, p_insN = 0, p_rngOff = 0, p_rngN = 0,
     p_lo = 0, p_hi = 0, p_scan = False, p_dead = False, p_basePossible = True\<rparr>"

type_synonym iv = "nat \<times> nat"

record inWindow =
  w_dim :: nat
  w_off :: nat
  w_n :: nat

record rangeWindow =
  r_dim :: nat
  r_min :: i64
  r_max :: i64

section \<open>Capacities\<close>

record caps =
  k_plans :: nat
  k_ivs :: nat
  k_condDims :: nat
  k_condIDs :: nat
  k_inWins :: nat
  k_inPool :: nat
  k_rWins :: nat
  k_mets :: nat
  k_ddims :: nat
  k_acc :: nat
  k_bms :: nat

definition fastGroups :: nat where "fastGroups = 16"
definition fastConds :: nat where "fastConds = 32"
definition fastIvs :: nat where "fastIvs = fastGroups"
definition fastInConds :: nat where "fastInConds = 16"
definition fastInIDs :: nat where "fastInIDs = 128"
definition fastRanges :: nat where "fastRanges = 16"
definition fastAggs :: nat where "fastAggs = 16"
definition expansionIvs :: nat where "expansionIvs = 4096"
definition maxPooledScratchBytes :: nat where "maxPooledScratchBytes = 1048576"
definition ivDemandCap :: nat where "ivDemandCap = 1048576"

section \<open>The shape of a query\<close>

fun ivDemand_from :: "nat \<Rightarrow> cond list \<Rightarrow> nat" where
  "ivDemand_from demand [] = demand"
| "ivDemand_from demand (c # cs) =
     (let n = length (c_in c) in
      if n > 0 then (if demand > ivDemandCap div n then ivDemandCap else ivDemand_from (demand * n) cs)
      else ivDemand_from demand cs)"

definition groupIvDemand :: "cond list \<Rightarrow> nat" where
  "groupIvDemand g = ivDemand_from 1 g"

record queryShape =
  h_groups :: nat
  h_conds :: nat
  h_inConds :: nat
  h_inVals :: nat
  h_ranges :: nat
  h_aggs :: nat
  h_ivDemand :: nat

definition measureCond :: "cond \<Rightarrow> queryShape \<Rightarrow> queryShape" where
  "measureCond c sh =
     (if c_range c \<noteq> None then sh\<lparr>h_ranges := h_ranges sh + 1\<rparr>
      else if length (c_in c) > 0 then
        sh\<lparr>h_inConds := h_inConds sh + 1, h_inVals := h_inVals sh + length (c_in c)\<rparr>
      else sh\<lparr>h_conds := h_conds sh + 1\<rparr>)"

definition measureShape :: "cond list list \<Rightarrow> nat \<Rightarrow> queryShape" where
  "measureShape groups nAggs =
     fold (\<lambda>g sh. let sh1 = fold measureCond g sh in sh1\<lparr>h_ivDemand := h_ivDemand sh1 + groupIvDemand g\<rparr>)
       groups
       \<lparr>h_groups = length groups, h_conds = 0, h_inConds = 0, h_inVals = 0, h_ranges = 0,
        h_aggs = nAggs, h_ivDemand = 0\<rparr>"

definition fits :: "queryShape \<Rightarrow> bool" where
  "fits sh =
     (if h_inConds sh > 0 \<and> h_ivDemand sh > fastIvs then False
      else h_groups sh \<le> fastGroups \<and> h_conds sh \<le> fastConds \<and>
           h_inConds sh \<le> fastInConds \<and> h_inVals sh \<le> fastInIDs \<and>
           h_ranges sh \<le> fastRanges \<and> h_aggs sh \<le> fastAggs)"

section \<open>The workspace\<close>

record queryScratch =
  q_pooled :: bool
  q_caps :: caps
  q_plans :: "gplan list"
  q_ivs :: "iv list"
  q_condDims :: "nat list"
  q_condIDs :: "u32 list"
  q_inWins :: "inWindow list"
  q_inPool :: "u32 list"
  q_rWins :: "rangeWindow list"
  q_mets :: "int list"
  q_ddims :: "int list"
  q_acc :: "f64 list"
  q_bms :: "u64 list list"

definition emptyScratch :: "bool \<Rightarrow> caps \<Rightarrow> queryScratch" where
  "emptyScratch pooled k =
     \<lparr>q_pooled = pooled, q_caps = k, q_plans = [], q_ivs = [], q_condDims = [], q_condIDs = [],
      q_inWins = [], q_inPool = [], q_rWins = [], q_mets = [], q_ddims = [], q_acc = [], q_bms = []\<rparr>"

definition fastCaps :: caps where
  "fastCaps = \<lparr>k_plans = fastGroups, k_ivs = fastIvs, k_condDims = fastConds, k_condIDs = fastConds,
     k_inWins = fastInConds, k_inPool = fastInIDs, k_rWins = fastRanges,
     k_mets = fastAggs, k_ddims = fastAggs, k_acc = fastAggs, k_bms = fastAggs\<rparr>"

definition fast :: queryScratch where
  "fast = emptyScratch False fastCaps"

definition grow :: "nat \<Rightarrow> nat \<Rightarrow> nat" where
  "grow c n = (if c < n then n else c)"

text \<open>
  \<open>getPooledScratch\<close>: which workspace \<open>sync.Pool\<close> hands out is not determined, so its
  capacities are an argument (all zero for a fresh one).
\<close>

definition growCaps :: "caps \<Rightarrow> queryShape \<Rightarrow> caps" where
  "growCaps k sh =
     \<lparr>k_plans = grow (k_plans k) (h_groups sh),
      k_ivs = grow (k_ivs k) (if h_inConds sh > 0 then h_groups sh + expansionIvs else h_groups sh),
      k_condDims = grow (k_condDims k) (h_conds sh), k_condIDs = grow (k_condIDs k) (h_conds sh),
      k_inWins = grow (k_inWins k) (h_inConds sh), k_inPool = grow (k_inPool k) (h_inVals sh),
      k_rWins = grow (k_rWins k) (h_ranges sh), k_mets = grow (k_mets k) (h_aggs sh),
      k_ddims = grow (k_ddims k) (h_aggs sh), k_acc = grow (k_acc k) (h_aggs sh),
      k_bms = grow (k_bms k) (h_aggs sh)\<rparr>"

definition getPooledScratch :: "caps \<Rightarrow> queryShape \<Rightarrow> queryScratch" where
  "getPooledScratch k sh = emptyScratch True (growCaps k sh)"

definition routeScratch :: "caps \<Rightarrow> cond list list \<Rightarrow> nat \<Rightarrow> queryScratch" where
  "routeScratch pool groups nAggs =
     (let sh = measureShape groups nAggs in if fits sh then fast else getPooledScratch pool sh)"

text \<open>The sizes that \<open>unsafe.Sizeof\<close> gives on a 64-bit machine.\<close>

definition retainedBytes :: "caps \<Rightarrow> nat" where
  "retainedBytes k = k_plans k * 48 + k_ivs k * 16 + k_condDims k * 4 + k_condIDs k * 4 +
     k_inWins k * 12 + k_inPool k * 4 + k_rWins k * 24 + k_mets k * 8 + k_ddims k * 8 + k_acc k * 8 +
     k_bms k * 24"

definition oversized :: "caps \<Rightarrow> bool" where
  "oversized k \<longleftrightarrow> retainedBytes k > maxPooledScratchBytes"

text \<open>\<open>release\<close>: what goes back to the pool, if anything.\<close>

definition release :: "queryScratch \<Rightarrow> caps option" where
  "release q = (if \<not> q_pooled q \<or> oversized (q_caps q) then None else Some (q_caps q))"

text \<open>The reslice \<open>s = s[:len(s)+1]; s[len(s)-1] = x\<close>.\<close>

definition push :: "nat \<Rightarrow> 'a list \<Rightarrow> 'a \<Rightarrow> err + 'a list" where
  "push cap xs x = (if length xs < cap then Inr (xs @ [x]) else Inl Panic)"

definition push_iv :: "iv \<Rightarrow> queryScratch \<Rightarrow> err + queryScratch" where
  "push_iv x qs = (case push (k_ivs (q_caps qs)) (q_ivs qs) x of
     Inl e \<Rightarrow> Inl e | Inr xs \<Rightarrow> Inr (qs\<lparr>q_ivs := xs\<rparr>))"

definition push_in :: "u32 \<Rightarrow> queryScratch \<Rightarrow> err + queryScratch" where
  "push_in x qs = (case push (k_inPool (q_caps qs)) (q_inPool qs) x of
     Inl e \<Rightarrow> Inl e | Inr xs \<Rightarrow> Inr (qs\<lparr>q_inPool := xs\<rparr>))"

definition push_win :: "inWindow \<Rightarrow> queryScratch \<Rightarrow> err + queryScratch" where
  "push_win x qs = (case push (k_inWins (q_caps qs)) (q_inWins qs) x of
     Inl e \<Rightarrow> Inl e | Inr xs \<Rightarrow> Inr (qs\<lparr>q_inWins := xs\<rparr>))"

definition push_range :: "rangeWindow \<Rightarrow> queryScratch \<Rightarrow> err + queryScratch" where
  "push_range x qs = (case push (k_rWins (q_caps qs)) (q_rWins qs) x of
     Inl e \<Rightarrow> Inl e | Inr xs \<Rightarrow> Inr (qs\<lparr>q_rWins := xs\<rparr>))"

definition push_cond :: "nat \<Rightarrow> u32 \<Rightarrow> queryScratch \<Rightarrow> err + queryScratch" where
  "push_cond d i qs = (case push (k_condDims (q_caps qs)) (q_condDims qs) d of
     Inl e \<Rightarrow> Inl e
   | Inr ds \<Rightarrow> (case push (k_condIDs (q_caps qs)) (q_condIDs qs) i of
       Inl e \<Rightarrow> Inl e | Inr is \<Rightarrow> Inr (qs\<lparr>q_condDims := ds, q_condIDs := is\<rparr>)))"

end
