(* ===== verification/Plan.thy ===== *)
theory Plan
  imports Scratch
begin

text \<open>
  The planner of \<open>query.go\<close>: \<open>plan\<close> resolves the conditions of one OR-group and emits its base
  row intervals, \<open>planExpand\<close> expands IN conditions over the index prefix, \<open>planGroups\<close> plans
  all groups, sorts the intervals and enforces the scan budget.
\<close>

section \<open>Resolving the conditions of a group\<close>

definition resolveVal :: "schema \<Rightarrow> view \<Rightarrow> nat \<Rightarrow> string \<Rightarrow> string \<Rightarrow> err + u32 option" where
  "resolveVal sc v di name val =
     (if isInt sc di then
        (let (i, ok, valid) = lookupNumID v di val
         in if \<not> valid then Inl (ErrNonInteger val name) else Inr (if ok then Some i else None))
      else (let (i, ok) = lookupID v di val in Inr (if ok then Some i else None)))"

text \<open>The loop over \<open>c.In\<close>; the boolean is \<open>anyBase\<close>.\<close>

fun planIn :: "schema \<Rightarrow> view \<Rightarrow> nat \<Rightarrow> string \<Rightarrow> string list \<Rightarrow> bool \<Rightarrow> queryScratch
    \<Rightarrow> err + (bool \<times> queryScratch)" where
  "planIn sc v di name [] anyBase qs = Inr (anyBase, qs)"
| "planIn sc v di name (val # rest) anyBase qs =
     (case resolveVal sc v di name val of
        Inl e \<Rightarrow> Inl e
      | Inr None \<Rightarrow> planIn sc v di name rest anyBase qs
      | Inr (Some i) \<Rightarrow>
          (case push_in i qs of
             Inl e \<Rightarrow> Inl e
           | Inr qs1 \<Rightarrow>
               planIn sc v di name rest (anyBase \<or> unat i < dlen (s_dicts (v_base v) ! di)) qs1))"

text \<open>One iteration of the loop over the conditions; the boolean says that \<open>plan\<close> returns, dead.\<close>

definition planCond :: "schema \<Rightarrow> view \<Rightarrow> cond \<Rightarrow> gplan \<Rightarrow> queryScratch
    \<Rightarrow> err + (bool \<times> gplan \<times> queryScratch)" where
  "planCond sc v c p qs =
     (case dimIndex sc (c_dim c) of
        None \<Rightarrow> Inl (ErrUnknownDim (c_dim c))
      | Some di \<Rightarrow>
          (case c_range c of
             Some (mn, mx) \<Rightarrow>
               if c_value c \<noteq> [] \<or> length (c_in c) > 0 then Inl ErrCondRangeConflict
               else if \<not> isInt sc di then Inl (ErrNotDimInt (c_dim c))
               else (case push_range \<lparr>r_dim = di, r_min = mn, r_max = mx\<rparr> qs of
                       Inl e \<Rightarrow> Inl e | Inr qs1 \<Rightarrow> Inr (False, p, qs1))
           | None \<Rightarrow>
               if length (c_in c) > 0 then
                 if c_value c \<noteq> [] then Inl ErrCondValueAndIn
                 else
                   (let off = length (q_inPool qs) in
                    case planIn sc v di (c_dim c) (c_in c) False qs of
                      Inl e \<Rightarrow> Inl e
                    | Inr (anyBase, qs1) \<Rightarrow>
                        if length (q_inPool qs1) = off then Inr (True, p\<lparr>p_dead := True\<rparr>, qs1)
                        else
                          (let pool = take off (q_inPool qs1) @ sort (drop off (q_inPool qs1));
                               qs2 = qs1\<lparr>q_inPool := pool\<rparr>
                           in case push_win \<lparr>w_dim = di, w_off = off, w_n = length pool - off\<rparr> qs2 of
                                Inl e \<Rightarrow> Inl e
                              | Inr qs3 \<Rightarrow>
                                  Inr (False, if \<not> anyBase then p\<lparr>p_basePossible := False\<rparr> else p, qs3)))
               else
                 (case resolveVal sc v di (c_dim c) (c_value c) of
                    Inl e \<Rightarrow> Inl e
                  | Inr None \<Rightarrow> Inr (True, p\<lparr>p_dead := True\<rparr>, qs)
                  | Inr (Some i) \<Rightarrow>
                      (case push_cond di i qs of Inl e \<Rightarrow> Inl e | Inr qs1 \<Rightarrow> Inr (False, p, qs1)))))"

fun planConds :: "schema \<Rightarrow> view \<Rightarrow> cond list \<Rightarrow> gplan \<Rightarrow> queryScratch
    \<Rightarrow> err + (bool \<times> gplan \<times> queryScratch)" where
  "planConds sc v [] p qs = Inr (False, p, qs)"
| "planConds sc v (c # cs) p qs =
     (case planCond sc v c p qs of
        Inl e \<Rightarrow> Inl e
      | Inr (dead, p1, qs1) \<Rightarrow> if dead then Inr (True, p1, qs1) else planConds sc v cs p1 qs1)"

section \<open>Index prefixes and their row intervals\<close>

text \<open>\<open>has\<close> and \<open>pref\<close> (in \<open>planExpand\<close>, \<open>hasEq\<close> and \<open>eqID\<close>) as one array of options.\<close>

definition eqPrefix :: "schema \<Rightarrow> gplan \<Rightarrow> queryScratch \<Rightarrow> u32 option list" where
  "eqPrefix sc p qs =
     fold (\<lambda>i a. let d = q_condDims qs ! (p_condOff p + i)
                 in if d < idx_dims sc then a[d := Some (q_condIDs qs ! (p_condOff p + i))] else a)
       [0..<p_condN p] (replicate maxDims None)"

text \<open>\<open>lo64\<close>, \<open>hi64\<close> and the two searches, for the ids of a non-empty prefix.\<close>

definition keyInterval :: "snapshot \<Rightarrow> u32 list \<Rightarrow> iv" where
  "keyInterval base is =
     (let lo64 = packKey (s_shifts base) is;
          hi64 = lo64 OR (push_bit (s_shifts base ! (length is - 1)) 1 - 1)
      in (sort_search (length (s_keys base)) (\<lambda>i. s_keys base ! i \<ge> lo64),
          sort_search (length (s_keys base)) (\<lambda>i. s_keys base ! i > hi64)))"

definition scanAll :: "snapshot \<Rightarrow> gplan \<Rightarrow> queryScratch \<Rightarrow> err + (gplan \<times> queryScratch)" where
  "scanAll base p qs =
     (let p1 = p\<lparr>p_scan := True\<rparr>; n = srows base
      in if n > 0 then (case push_iv (0, n) qs of Inl e \<Rightarrow> Inl e | Inr qs1 \<Rightarrow> Inr (p1, qs1))
         else Inr (p1, qs))"

section \<open>Expanding IN conditions\<close>

text \<open>\<open>candOff\<close> and \<open>candN\<close> as one array of pairs.\<close>

definition candidates :: "schema \<Rightarrow> view \<Rightarrow> gplan \<Rightarrow> queryScratch \<Rightarrow> u32 option list \<Rightarrow> (nat \<times> nat) list" where
  "candidates sc v p qs eq =
     fold (\<lambda>i a. let w = q_inWins qs ! (p_insOff p + i) in
         if \<not> w_dim w < idx_dims sc \<or> eq ! w_dim w \<noteq> None \<or> snd (a ! w_dim w) \<noteq> 0 then a
         else a[w_dim w := (w_off w, fst (binary_search (take (w_n w) (drop (w_off w) (q_inPool qs)))
                (of_nat (dlen (s_dicts (v_base v) ! w_dim w)) :: u32)))])
       [0..<p_insN p] (replicate maxDims (0, 0))"

text \<open>The loop that extends the prefix while the combinations pay for themselves and fit.\<close>

function comboLoop :: "nat \<Rightarrow> u32 option list \<Rightarrow> (nat \<times> nat) list \<Rightarrow> nat \<Rightarrow> int \<Rightarrow> nat \<Rightarrow> nat \<Rightarrow> nat \<times> nat" where
  "comboLoop I eq cand nRows rm combos k =
     (if k < I then
        if eq ! k \<noteq> None then comboLoop I eq cand nRows rm combos (k + 1)
        else
          let c = snd (cand ! k) in
          if c = 0 then (combos, k)
          else
            let n = combos * c in
            if n * bits_len nRows > nRows \<or> int n > rm then (combos, k)
            else comboLoop I eq cand nRows rm n (k + 1)
      else (combos, k))"
  by pat_completeness auto
termination
  by (relation "measure (\<lambda>(I, _, _, _, _, _, k). I - k)") auto

declare comboLoop.simps [simp del]

text \<open>The ids of the combination that the odometer \<open>idx\<close> shows.\<close>

definition comboIds :: "queryScratch \<Rightarrow> u32 option list \<Rightarrow> (nat \<times> nat) list \<Rightarrow> nat \<Rightarrow> nat list \<Rightarrow> u32 list" where
  "comboIds qs eq cand k idx =
     map (\<lambda>d. case eq ! d of Some i \<Rightarrow> i | None \<Rightarrow> q_inPool qs ! (fst (cand ! d) + idx ! d)) [0..<k]"

text \<open>The inner loop from \<open>d := k - 1\<close> down; \<open>False\<close> when it runs off the left end.\<close>

fun odoStep :: "u32 option list \<Rightarrow> (nat \<times> nat) list \<Rightarrow> nat \<Rightarrow> nat list \<Rightarrow> bool \<times> nat list" where
  "odoStep eq cand 0 idx = (False, idx)"
| "odoStep eq cand (Suc d) idx =
     (if eq ! d \<noteq> None then odoStep eq cand d idx
      else
        let idx1 = idx[d := idx ! d + 1] in
        if idx1 ! d < snd (cand ! d) then (True, idx1)
        else odoStep eq cand d (idx1[d := 0]))"

definition emitIv :: "iv \<Rightarrow> gplan \<Rightarrow> queryScratch \<Rightarrow> err + (gplan \<times> queryScratch)" where
  "emitIv x p qs =
     (if fst x < snd x then
        (case push_iv x qs of
           Inl e \<Rightarrow> Inl e
         | Inr qs1 \<Rightarrow>
             (let p1 = (if p_hi p = 0 \<or> fst x < p_lo p then p\<lparr>p_lo := fst x\<rparr> else p);
                  p2 = (if snd x > p_hi p1 then p1\<lparr>p_hi := snd x\<rparr> else p1)
              in Inr (p2, qs1)))
      else Inr (p, qs))"

text \<open>
  The outer loop, with the number of combinations as fuel: it turns once per combination, and
  the odometer wraps exactly when the fuel is used up, which is proved below.
\<close>

fun expandLoop :: "nat \<Rightarrow> snapshot \<Rightarrow> u32 option list \<Rightarrow> (nat \<times> nat) list \<Rightarrow> nat \<Rightarrow> nat list
    \<Rightarrow> gplan \<Rightarrow> queryScratch \<Rightarrow> (err + (gplan \<times> queryScratch)) option" where
  "expandLoop 0 base eq cand k idx p qs = None"
| "expandLoop (Suc fuel) base eq cand k idx p qs =
     (case emitIv (keyInterval base (comboIds qs eq cand k idx)) p qs of
        Inl e \<Rightarrow> Some (Inl e)
      | Inr (p1, qs1) \<Rightarrow>
          (let (go, idx1) = odoStep eq cand k idx
           in if go then expandLoop fuel base eq cand k idx1 p1 qs1 else Some (Inr (p1, qs1))))"

definition planExpand :: "schema \<Rightarrow> view \<Rightarrow> gplan \<Rightarrow> queryScratch \<Rightarrow> nat \<Rightarrow> (err + (gplan \<times> queryScratch)) option" where
  "planExpand sc v p qs reserve =
     (let base = v_base v;
          eq = eqPrefix sc p qs;
          cand = candidates sc v p qs eq;
          nRows = srows base;
          rm = int (k_ivs (q_caps qs)) - int (length (q_ivs qs)) - int reserve;
          (combos, k) = comboLoop (idx_dims sc) eq cand nRows rm 1 0
      in if k = 0 then Some (scanAll base p qs)
         else expandLoop combos base eq cand k (replicate maxDims 0) p qs)"

section \<open>One group\<close>

definition plan :: "schema \<Rightarrow> view \<Rightarrow> cond list \<Rightarrow> queryScratch \<Rightarrow> nat \<Rightarrow> (err + (gplan \<times> queryScratch)) option" where
  "plan sc v g qs reserve =
     (if length g = 0 then Some (scanAll (v_base v) freshPlan qs)
      else
        let condOff = length (q_condDims qs); inOff = length (q_inWins qs); rOff = length (q_rWins qs);
            base = v_base v
        in case planConds sc v g freshPlan qs of
             Inl e \<Rightarrow> Some (Inl e)
           | Inr (dead, p0, qs1) \<Rightarrow>
               if dead then Some (Inr (p0, qs1))
               else
                 let p1 = p0\<lparr>p_condOff := condOff, p_condN := length (q_condDims qs1) - condOff,
                             p_insOff := inOff, p_insN := length (q_inWins qs1) - inOff,
                             p_rngOff := rOff, p_rngN := length (q_rWins qs1) - rOff\<rparr>;
                     p2 = (if list_all (\<lambda>i. unat (q_condIDs qs1 ! (condOff + i))
                                < dlen (s_dicts base ! (q_condDims qs1 ! (condOff + i)))) [0..<p_condN p1]
                           then p1 else p1\<lparr>p_basePossible := False\<rparr>)
                 in if \<not> p_basePossible p2 then Some (Inr (p2, qs1))
                    else if p_insN p2 > 0 then planExpand sc v p2 qs1 reserve
                    else
                      let pref = eqPrefix sc p2 qs1;
                          k = skip (idx_dims sc) (\<lambda>k. pref ! k \<noteq> None) 0
                      in if k = 0 then Some (scanAll base p2 qs1)
                         else
                           let (lo, hi) = keyInterval base (map (\<lambda>i. the (pref ! i)) [0..<k]);
                               p3 = p2\<lparr>p_lo := lo, p_hi := hi\<rparr>
                           in if lo < hi then
                                (case push_iv (lo, hi) qs1 of
                                   Inl e \<Rightarrow> Some (Inl e) | Inr qs2 \<Rightarrow> Some (Inr (p3, qs2)))
                              else Some (Inr (p3, qs1)))"

section \<open>All groups\<close>

text \<open>The loop over the groups; the number is that of \<open>fullScans\<close> increments.\<close>

fun planLoop :: "schema \<Rightarrow> view \<Rightarrow> cond list list \<Rightarrow> queryScratch \<Rightarrow> nat
    \<Rightarrow> ((err + queryScratch) \<times> nat) option" where
  "planLoop sc v [] qs scans = Some (Inr qs, scans)"
| "planLoop sc v (g # gs) qs scans =
     (case plan sc v g qs (length gs) of
        None \<Rightarrow> None
      | Some (Inl e) \<Rightarrow> Some (Inl e, scans)
      | Some (Inr (p, qs1)) \<Rightarrow>
          planLoop sc v gs (qs1\<lparr>q_plans := q_plans qs1 @ [p]\<rparr>)
            (if p_scan p then scans + 1 else scans))"

definition ivInsertionSortMax :: nat where "ivInsertionSortMax = 32"

definition cmp_iv :: "iv \<Rightarrow> iv \<Rightarrow> int" where
  "cmp_iv a b = (if fst a < fst b then - 1 else if fst a > fst b then 1 else 0)"

definition sortIvs :: "iv sort_fn \<Rightarrow> iv list \<Rightarrow> iv list" where
  "sortIvs srt xs =
     (if length xs \<le> ivInsertionSortMax then insertion_sort (\<lambda>a b. fst a < fst b) xs else srt cmp_iv xs)"

text \<open>The rows that the sweep will visit, with the high-water mark \<open>hw\<close>.\<close>

fun scanCount :: "iv list \<Rightarrow> nat \<Rightarrow> nat \<Rightarrow> nat" where
  "scanCount [] hw n = n"
| "scanCount ((lo, hi) # xs) hw n =
     (let lo1 = (if lo < hw then hw else lo)
      in if hi \<le> hw then scanCount xs hw n else scanCount xs hi (n + (hi - lo1)))"

definition addScans :: "nat \<Rightarrow> store \<Rightarrow> store" where
  "addScans k s = s\<lparr>sto_st := (sto_st s)\<lparr>fullScans := fullScans (sto_st s) + of_nat k\<rparr>\<rparr>"

definition planGroups :: "iv sort_fn \<Rightarrow> store \<Rightarrow> view \<Rightarrow> cond list list \<Rightarrow> queryScratch
    \<Rightarrow> ((err + queryScratch) \<times> store) option" where
  "planGroups srt s v groups qs =
     (if length groups = 0 then Some (Inl ErrBadGroupCount, s)
      else if length groups > k_plans (q_caps qs) then Some (Inl Panic, s)
      else
        case planLoop (sto_sc s) v groups qs 0 of
          None \<Rightarrow> None
        | Some (Inl e, k) \<Rightarrow> Some (Inl e, addScans k s)
        | Some (Inr qs1, k) \<Rightarrow>
            (let s1 = addScans k s; ivs = sortIvs srt (q_ivs qs1); qs2 = qs1\<lparr>q_ivs := ivs\<rparr>
             in if MaxScanRows (sto_cfg s) > 0 \<and>
                   int (scanCount ivs 0 (drows (v_delta v))) > MaxScanRows (sto_cfg s)
                then Some (Inl ErrScanBudget,
                  s1\<lparr>sto_st := (sto_st s1)\<lparr>scanBudgetRefusals := scanBudgetRefusals (sto_st s1) + 1\<rparr>\<rparr>)
                else Some (Inr qs2, s1)))"

end
