(* ===== verification/Query.thy ===== *)
theory Query
  imports Plan
begin

text \<open>
  The matchers and the sweep of \<open>query.go\<close>: the union of the planned intervals with a
  high-water mark, then the delta, each visible row that some group matches added once.
\<close>

section \<open>Matching\<close>

definition inLinearMax :: nat where "inLinearMax = 16"

definition matchOneIn :: "inWindow \<Rightarrow> u32 list \<Rightarrow> u32 \<Rightarrow> bool" where
  "matchOneIn w pool i =
     (let seg = take (w_n w) (drop (w_off w) pool)
      in if length seg \<le> inLinearMax then list_ex (\<lambda>c. i = c) seg else snd (binary_search seg i))"

definition matchIns :: "inWindow list \<Rightarrow> u32 list \<Rightarrow> u32 list list \<Rightarrow> nat \<Rightarrow> bool" where
  "matchIns ins pool dims r = list_all (\<lambda>w. matchOneIn w pool (dims ! w_dim w ! r)) ins"

definition rangeVal :: "view \<Rightarrow> nat \<Rightarrow> u32 \<Rightarrow> i64" where
  "rangeVal v d i =
     (let n = of_nat (dlen (s_dicts (v_base v) ! d))
      in if i \<ge> n then vals (v_extras v ! d) ! unat (i - n) else vals (s_dicts (v_base v) ! d) ! unat i)"

definition matchRanges :: "rangeWindow list \<Rightarrow> view \<Rightarrow> u32 list list \<Rightarrow> nat \<Rightarrow> bool" where
  "matchRanges rngs v dims r =
     list_all (\<lambda>w. let val = rangeVal v (r_dim w) (dims ! r_dim w ! r)
                   in \<not> (val < r_min w \<or> val > r_max w)) rngs"

definition matchConds :: "gplan \<Rightarrow> queryScratch \<Rightarrow> u32 list list \<Rightarrow> nat \<Rightarrow> bool" where
  "matchConds p qs dims r =
     list_all (\<lambda>i. dims ! (q_condDims qs ! (p_condOff p + i)) ! r = q_condIDs qs ! (p_condOff p + i))
       [0..<p_condN p]"

definition matchBase :: "gplan \<Rightarrow> queryScratch \<Rightarrow> view \<Rightarrow> nat \<Rightarrow> bool" where
  "matchBase p qs v r =
     (if p_dead p \<or> \<not> p_basePossible p then False
      else if \<not> p_scan p \<and> (r < p_lo p \<or> r \<ge> p_hi p) then False
      else matchConds p qs (s_dims (v_base v)) r)"

definition matchDelta :: "gplan \<Rightarrow> queryScratch \<Rightarrow> delta \<Rightarrow> nat \<Rightarrow> bool" where
  "matchDelta p qs d r = (if p_dead p then False else matchConds p qs (d_dims d) r)"

text \<open>The conditions of the \<open>if\<close> in the two sweeps.\<close>

definition insView :: "gplan \<Rightarrow> queryScratch \<Rightarrow> inWindow list" where
  "insView p qs = take (p_insN p) (drop (p_insOff p) (q_inWins qs))"

definition rngsView :: "gplan \<Rightarrow> queryScratch \<Rightarrow> rangeWindow list" where
  "rngsView p qs = take (p_rngN p) (drop (p_rngOff p) (q_rWins qs))"

definition hitBase :: "queryScratch \<Rightarrow> view \<Rightarrow> nat \<Rightarrow> gplan \<Rightarrow> bool" where
  "hitBase qs v r p \<longleftrightarrow>
     matchBase p qs v r \<and>
     (p_insN p = 0 \<or> matchIns (insView p qs) (q_inPool qs) (s_dims (v_base v)) r) \<and>
     (p_rngN p = 0 \<or> matchRanges (rngsView p qs) v (s_dims (v_base v)) r)"

definition hitDelta :: "queryScratch \<Rightarrow> view \<Rightarrow> nat \<Rightarrow> gplan \<Rightarrow> bool" where
  "hitDelta qs v r p \<longleftrightarrow>
     matchDelta p qs (v_delta v) r \<and>
     (p_insN p = 0 \<or> matchIns (insView p qs) (q_inPool qs) (d_dims (v_delta v)) r) \<and>
     (p_rngN p = 0 \<or> matchRanges (rngsView p qs) v (d_dims (v_delta v)) r)"

section \<open>The clock\<close>

definition queryClock :: "view \<Rightarrow> instant \<Rightarrow> bool \<times> bool \<times> i64" where
  "queryClock v t =
     (let baseExp = (s_minExpire (v_base v) \<noteq> 0); deltaExp = d_hasExpiry (v_delta v)
      in if baseExp \<or> deltaExp then
           (let nowMilli = unix_milli t in (baseExp \<and> s_minExpire (v_base v) \<le> nowMilli, deltaExp, nowMilli))
         else (baseExp, deltaExp, 0))"

section \<open>The sweep\<close>

text \<open>
  The loop over the intervals and rows, for any accumulation step \<open>f\<close>: the three query entry
  points share it and differ in what they do with a row.
\<close>

definition sweepRow :: "queryScratch \<Rightarrow> view \<Rightarrow> bool \<Rightarrow> i64 \<Rightarrow> (nat \<Rightarrow> 'a \<Rightarrow> 'a) \<Rightarrow> nat \<Rightarrow> 'a \<Rightarrow> 'a" where
  "sweepRow qs v baseExp nowMilli f r acc =
     (if bitGet (v_overridden v) r then acc
      else if baseExp \<and> s_expire (v_base v) ! r \<noteq> 0 \<and> s_expire (v_base v) ! r \<le> nowMilli then acc
      else if list_ex (hitBase qs v r) (q_plans qs) then f r acc else acc)"

fun sweepBase :: "queryScratch \<Rightarrow> view \<Rightarrow> bool \<Rightarrow> i64 \<Rightarrow> (nat \<Rightarrow> 'a \<Rightarrow> 'a) \<Rightarrow> iv list \<Rightarrow> nat \<Rightarrow> 'a \<Rightarrow> 'a" where
  "sweepBase qs v baseExp nowMilli f [] done0 acc = acc"
| "sweepBase qs v baseExp nowMilli f ((lo, hi) # xs) done0 acc =
     (let lo1 = (if lo < done0 then done0 else lo)
      in if hi \<le> done0 then sweepBase qs v baseExp nowMilli f xs done0 acc
         else sweepBase qs v baseExp nowMilli f xs hi
                (fold (sweepRow qs v baseExp nowMilli f) [lo1..<hi] acc))"

definition sweepDelta :: "queryScratch \<Rightarrow> view \<Rightarrow> bool \<Rightarrow> i64 \<Rightarrow> (nat \<Rightarrow> 'a \<Rightarrow> 'a) \<Rightarrow> 'a \<Rightarrow> 'a" where
  "sweepDelta qs v deltaExp nowMilli f acc =
     fold (\<lambda>r acc.
         if deltaExp \<and> d_expire (v_delta v) ! r \<noteq> 0 \<and> d_expire (v_delta v) ! r \<le> nowMilli then acc
         else if list_ex (hitDelta qs v r) (q_plans qs) then f r acc else acc)
       [0..<drows (v_delta v)] acc"

text \<open>\<open>dst[m] += mets[m][r]\<close> for every column.\<close>

definition addRow :: "f64 list \<Rightarrow> f64 list \<Rightarrow> f64 list" where
  "addRow row dst = map2 f_add dst row"

definition queryGroups :: "iv sort_fn \<Rightarrow> store \<Rightarrow> cond list list \<Rightarrow> instant \<Rightarrow> queryScratch
    \<Rightarrow> ((err + f64 list) \<times> store) option" where
  "queryGroups srt s groups t qs =
     (let v = sto_view s in
      case planGroups srt s v groups qs of
        None \<Rightarrow> None
      | Some (Inl e, s1) \<Rightarrow> Some (Inl e, s1)
      | Some (Inr qs1, s1) \<Rightarrow>
          (let (baseExp, deltaExp, nowMilli) = queryClock v t;
               dst0 = replicate (nmets (sto_sc s)) 0;
               dst1 = sweepBase qs1 v baseExp nowMilli (\<lambda>r. addRow (row_of (s_mets (v_base v)) r)) (q_ivs qs1) 0 dst0;
               dst2 = sweepDelta qs1 v deltaExp nowMilli (\<lambda>r. addRow (row_of (d_mets (v_delta v)) r)) dst1
           in Some (Inr dst2, s1)))"

definition QueryGroups :: "iv sort_fn \<Rightarrow> store \<Rightarrow> cond list list \<Rightarrow> instant \<Rightarrow> caps
    \<Rightarrow> ((err + f64 list) \<times> store) option" where
  "QueryGroups srt s groups t pool = queryGroups srt s groups t (routeScratch pool groups 0)"

end
