(* ===== verification/Matching.thy ===== *)
theory Matching
  imports Query
begin

text \<open>
  What a condition means on a tuple of values, and that resolving the conditions of a group
  keeps that meaning: the pools a plan refers to match exactly the rows whose values satisfy
  the conditions, and no pool is pushed beyond its capacity.
\<close>

section \<open>Conditions on values\<close>

fun in_range :: "i64 \<Rightarrow> i64 \<Rightarrow> dval \<Rightarrow> bool" where
  "in_range mn mx (VInt x) = (mn \<le> x \<and> x \<le> mx)"
| "in_range mn mx (VStr s) = False"

definition cond_sat :: "schema \<Rightarrow> dval list \<Rightarrow> cond \<Rightarrow> bool" where
  "cond_sat sc key c \<longleftrightarrow>
     (case dimIndex sc (c_dim c) of
        None \<Rightarrow> False
      | Some di \<Rightarrow>
          (case c_range c of
             Some (mn, mx) \<Rightarrow> in_range mn mx (key ! di)
           | None \<Rightarrow>
               if c_in c \<noteq> [] then \<exists>val \<in> set (c_in c). canon (isInt sc di) val = Some (key ! di)
               else canon (isInt sc di) (c_value c) = Some (key ! di)))"

definition group_sat :: "schema \<Rightarrow> dval list \<Rightarrow> cond list \<Rightarrow> bool" where
  "group_sat sc key g \<longleftrightarrow> (\<forall>c \<in> set g. cond_sat sc key c)"

text \<open>What is wrong with a condition, whatever the table holds.\<close>

definition bad_value :: "schema \<Rightarrow> nat \<Rightarrow> string \<Rightarrow> bool" where
  "bad_value sc di val \<longleftrightarrow> canon (isInt sc di) val = None"

definition cond_err :: "schema \<Rightarrow> cond \<Rightarrow> err option" where
  "cond_err sc c =
     (case dimIndex sc (c_dim c) of
        None \<Rightarrow> Some (ErrUnknownDim (c_dim c))
      | Some di \<Rightarrow>
          (if c_range c \<noteq> None then
             (if c_value c \<noteq> [] \<or> c_in c \<noteq> [] then Some ErrCondRangeConflict
              else if \<not> isInt sc di then Some (ErrNotDimInt (c_dim c)) else None)
           else if c_in c \<noteq> [] then
             (if c_value c \<noteq> [] then Some ErrCondValueAndIn
              else map_option (\<lambda>val. ErrNonInteger val (c_dim c)) (find (bad_value sc di) (c_in c)))
           else if bad_value sc di (c_value c) then Some (ErrNonInteger (c_value c) (c_dim c))
           else None))"

section \<open>Resolving a value\<close>

text \<open>The id of a value in the combined space.\<close>

lemma lookupID_find:
  assumes "\<not> isInt sc d" "numeric (s_dicts (v_base v) ! d) = isInt sc d" "numeric (v_extras v ! d) = isInt sc d"
  shows "lookupID v d s =
    (case comb_find (s_dicts (v_base v) ! d) (v_extras v ! d) (VStr s) of None \<Rightarrow> (0, False) | Some i \<Rightarrow> (i, True))"
  using assms by (auto simp: lookupID_def lookup_def comb_find_def split: option.splits)

lemma lookupNumID_find:
  assumes "isInt sc d" "numeric (s_dicts (v_base v) ! d) = isInt sc d" "numeric (v_extras v ! d) = isInt sc d"
  shows "lookupNumID v d s =
    (case parse_int s of None \<Rightarrow> (0, False, False)
     | Some f \<Rightarrow>
        (case comb_find (s_dicts (v_base v) ! d) (v_extras v ! d) (VInt f) of
           None \<Rightarrow> (0, False, True) | Some i \<Rightarrow> (i, True, True)))"
  using assms by (auto simp: lookupNumID_def lookupN_def comb_find_def split: option.splits)

lemma view_numeric:
  assumes "view_ok sc v" "d < ndims sc"
  shows "numeric (s_dicts (v_base v) ! d) = isInt sc d" "numeric (v_extras v ! d) = isInt sc d"
  using dicts_okD(3) [OF snap_okD(3) [OF view_okD(1) [OF assms(1)]] assms(2)]
    extras_okD(3) [OF view_okD(2) [OF assms(1)] assms(2)] by auto

lemma resolveVal_canon:
  assumes "view_ok sc v" "d < ndims sc"
  shows "resolveVal sc v d name s =
    (case canon (isInt sc d) s of None \<Rightarrow> Inl (ErrNonInteger s name)
     | Some x \<Rightarrow> Inr (comb_find (s_dicts (v_base v) ! d) (v_extras v ! d) x))"
  using lookupID_find [of sc d v s] lookupNumID_find [of sc d v s] view_numeric [OF assms]
  by (auto simp: resolveVal_def canon_def split: option.splits)

text \<open>An id of the row is the resolved id exactly when the row has the value.\<close>

lemma comb_find_row:
  assumes v: "view_ok sc v" and d: "d < ndims sc"
  shows "comb_find (s_dicts (v_base v) ! d) (v_extras v ! d) x = Some i \<longleftrightarrow>
    unat i < length (view_vals v ! d) \<and> view_vals v ! d ! unat i = x"
proof -
  have c: "comb_ok (s_dicts (v_base v) ! d) (v_extras v ! d)" using view_okD(2) [OF v] d by (rule extras_okD(2))
  have "view_vals v ! d = dict_vals (s_dicts (v_base v) ! d) @ dict_vals (v_extras v ! d)"
    using d view_ok_lengths [OF v] by (simp add: view_vals_nth)
  then show ?thesis by (simp add: comb_find_iff [OF c])
qed

text \<open>The printed value of an id resolves to the id: \<open>dimString\<close> inverts the lookups.\<close>

lemma resolve_dimString:
  assumes v: "view_ok sc v" and d: "d < ndims sc" and i: "unat i < length (view_vals v ! d)"
  shows "resolveVal sc v d name (dimString v d i) = Inr (Some i)"
    and "canon (isInt sc d) (dimString v d i) = Some (view_vals v ! d ! unat i)"
proof -
  let ?b = "s_dicts (v_base v) ! d" and ?e = "v_extras v ! d"
  have c: "comb_ok ?b ?e" using view_okD(2) [OF v] d by (rule extras_okD(2))
  then have ok: "dict_ok ?b" "dict_ok ?e" and len: "dlen ?b + dlen ?e < 2 ^ 32" by (auto simp: comb_ok_def)
  note num = view_numeric [OF v d]
  have vv: "view_vals v ! d = dict_vals ?b @ dict_vals ?e" using d view_ok_lengths [OF v] by (simp add: view_vals_nth)
  have n: "unat (of_nat (dlen ?b) :: u32) = dlen ?b" using len by (intro unat_of_nat_u32) simp
  show can: "canon (isInt sc d) (dimString v d i) = Some (view_vals v ! d ! unat i)"
  proof (cases "unat i < dlen ?b")
    case True
    then have "\<not> of_nat (dlen ?b) \<le> i" by (simp add: word_le_nat_alt n)
    then show ?thesis using dict_vals_str [OF ok(1) True] num True by (simp add: dimString_def Let_def vv nth_append)
  next
    case False
    then have ge: "of_nat (dlen ?b) \<le> i" by (simp add: word_le_nat_alt n)
    then have u: "unat (i - of_nat (dlen ?b)) = unat i - dlen ?b" by (simp add: unat_sub n)
    have "unat (i - of_nat (dlen ?b)) < dlen ?e" using i False by (simp add: u vv)
    from dict_vals_str [OF ok(2) this] show ?thesis
      using ge num False by (simp add: dimString_def Let_def vv nth_append u)
  qed
  have "comb_find ?b ?e (view_vals v ! d ! unat i) = Some i" using i by (simp add: comb_find_row [OF v d])
  then show "resolveVal sc v d name (dimString v d i) = Inr (Some i)"
    by (simp add: resolveVal_canon [OF v d] can)
qed

section \<open>The conditions a plan refers to\<close>

definition seg :: "queryScratch \<Rightarrow> inWindow \<Rightarrow> u32 list" where
  "seg qs w = take (w_n w) (drop (w_off w) (q_inPool qs))"

definition ids_match :: "view \<Rightarrow> (nat \<times> u32) list \<Rightarrow> (nat \<times> u32 list) list \<Rightarrow> rangeWindow list \<Rightarrow> u32 list \<Rightarrow> bool" where
  "ids_match v eqs wins rngs is \<longleftrightarrow>
     (\<forall>x \<in> set eqs. is ! fst x = snd x) \<and> (\<forall>w \<in> set wins. is ! fst w \<in> set (snd w)) \<and>
     (\<forall>w \<in> set rngs. in_range (r_min w) (r_max w) (view_vals v ! r_dim w ! unat (is ! r_dim w)))"

lemma ids_match_append:
  "ids_match v (e1 @ e2) (w1 @ w2) (r1 @ r2) is \<longleftrightarrow> ids_match v e1 w1 r1 is \<and> ids_match v e2 w2 r2 is"
  by (auto simp: ids_match_def)

definition agg_frame :: "queryScratch \<Rightarrow> queryScratch \<Rightarrow> bool" where
  "agg_frame qs qs1 \<longleftrightarrow> q_caps qs1 = q_caps qs \<and> q_mets qs1 = q_mets qs \<and> q_ddims qs1 = q_ddims qs \<and>
     q_bms qs1 = q_bms qs"

lemma agg_frame_refl [simp]: "agg_frame qs qs"
  by (simp add: agg_frame_def)

definition same_frame :: "queryScratch \<Rightarrow> queryScratch \<Rightarrow> bool" where
  "same_frame qs qs1 \<longleftrightarrow> q_caps qs1 = q_caps qs \<and> q_pooled qs1 = q_pooled qs \<and>
     q_plans qs1 = q_plans qs \<and> q_ivs qs1 = q_ivs qs \<and>
     q_mets qs1 = q_mets qs \<and> q_ddims qs1 = q_ddims qs \<and> q_bms qs1 = q_bms qs"

text \<open>Resolving \<open>cs\<close> took \<open>qs\<close> to \<open>qs1\<close> by adding these equalities, windows and ranges.\<close>

definition planned :: "schema \<Rightarrow> view \<Rightarrow> cond list \<Rightarrow> queryScratch \<Rightarrow> queryScratch
    \<Rightarrow> (nat \<times> u32) list \<Rightarrow> inWindow list \<Rightarrow> rangeWindow list \<Rightarrow> bool" where
  "planned sc v cs qs qs1 eqs wins rngs \<longleftrightarrow>
     same_frame qs qs1 \<and>
     q_condDims qs1 = q_condDims qs @ map fst eqs \<and> q_condIDs qs1 = q_condIDs qs @ map snd eqs \<and>
     q_inWins qs1 = q_inWins qs @ wins \<and> q_rWins qs1 = q_rWins qs @ rngs \<and>
     (\<exists>np. q_inPool qs1 = q_inPool qs @ np) \<and>
     (\<forall>w \<in> set wins. w_off w + w_n w \<le> length (q_inPool qs1) \<and> 0 < w_n w \<and> w_dim w < ndims sc \<and>
        sorted (seg qs1 w)) \<and>
     (\<forall>x \<in> set eqs. fst x < ndims sc \<and> unat (snd x) < length (view_vals v ! fst x)) \<and>
     (\<forall>w \<in> set rngs. r_dim w < ndims sc \<and> isInt sc (r_dim w)) \<and>
     (\<forall>is. ids_ok (view_vals v) is \<longrightarrow>
        (ids_match v eqs (map (\<lambda>w. (w_dim w, seg qs1 w)) wins) rngs is \<longleftrightarrow>
         group_sat sc (decode (view_vals v) is) cs))"

lemma seg_prefix: "w_off w + w_n w \<le> length (q_inPool qs) \<Longrightarrow> q_inPool qs1 = q_inPool qs @ np \<Longrightarrow> seg qs1 w = seg qs w"
  by (simp add: seg_def)

lemma planned_append:
  assumes a: "planned sc v cs qs qs1 eqs wins rngs" and b: "planned sc v ds qs1 qs2 eqs' wins' rngs'"
  shows "planned sc v (cs @ ds) qs qs2 (eqs @ eqs') (wins @ wins') (rngs @ rngs')"
proof -
  obtain np where np: "q_inPool qs2 = q_inPool qs1 @ np" using b by (auto simp: planned_def)
  have np1: "\<exists>np. q_inPool qs2 = q_inPool qs @ np" using a by (auto simp: planned_def np)
  have old: "seg qs2 w = seg qs1 w" if "w \<in> set wins" for w
    using a that np by (intro seg_prefix) (auto simp: planned_def)
  then have m: "map (\<lambda>w. (w_dim w, seg qs2 w)) wins = map (\<lambda>w. (w_dim w, seg qs1 w)) wins" by simp
  show ?thesis
    using a b np1 unfolding planned_def
    by (simp add: same_frame_def m ids_match_append group_sat_def ball_Un old) (simp add: np trans_le_add1)
qed

lemma planned_Nil [simp]: "planned sc v [] qs qs [] [] []"
  by (simp add: planned_def same_frame_def ids_match_def group_sat_def)

section \<open>Capacity\<close>

definition is_rng :: "cond \<Rightarrow> bool" where "is_rng c \<longleftrightarrow> c_range c \<noteq> None"
definition is_in :: "cond \<Rightarrow> bool" where "is_in c \<longleftrightarrow> c_range c = None \<and> c_in c \<noteq> []"
definition is_eq :: "cond \<Rightarrow> bool" where "is_eq c \<longleftrightarrow> c_range c = None \<and> c_in c = []"

definition n_vals :: "cond list \<Rightarrow> nat" where
  "n_vals cs = sum_list (map (\<lambda>c. if is_in c then length (c_in c) else 0) cs)"

text \<open>The pools still have room for the conditions \<open>cs\<close>.\<close>

definition cond_room :: "cond list \<Rightarrow> queryScratch \<Rightarrow> bool" where
  "cond_room cs qs \<longleftrightarrow>
     length (q_condDims qs) + length (filter is_eq cs) \<le> k_condDims (q_caps qs) \<and>
     length (q_condIDs qs) + length (filter is_eq cs) \<le> k_condIDs (q_caps qs) \<and>
     length (q_inWins qs) + length (filter is_in cs) \<le> k_inWins (q_caps qs) \<and>
     length (q_inPool qs) + n_vals cs \<le> k_inPool (q_caps qs) \<and>
     length (q_rWins qs) + length (filter is_rng cs) \<le> k_rWins (q_caps qs)"

text \<open>What resolving \<open>cs\<close> may use up; the pools only grow at their ends.\<close>

definition consumes :: "cond list \<Rightarrow> queryScratch \<Rightarrow> queryScratch \<Rightarrow> bool" where
  "consumes cs qs qs1 \<longleftrightarrow> same_frame qs qs1 \<and>
     (\<exists>ds. q_condDims qs1 = q_condDims qs @ ds \<and> length ds \<le> length (filter is_eq cs)) \<and>
     (\<exists>is. q_condIDs qs1 = q_condIDs qs @ is \<and> length is \<le> length (filter is_eq cs)) \<and>
     (\<exists>ws. q_inWins qs1 = q_inWins qs @ ws \<and> length ws \<le> length (filter is_in cs)) \<and>
     (\<exists>np. q_inPool qs1 = q_inPool qs @ np \<and> length np \<le> n_vals cs) \<and>
     (\<exists>rs. q_rWins qs1 = q_rWins qs @ rs \<and> length rs \<le> length (filter is_rng cs))"

lemma n_vals_append [simp]: "n_vals (xs @ ys) = n_vals xs + n_vals ys"
  by (simp add: n_vals_def)

lemma n_vals_Cons: "n_vals (c # cs) = (if is_in c then length (c_in c) else 0) + n_vals cs"
  by (simp add: n_vals_def)

lemma n_vals_Nil [simp]: "n_vals [] = 0"
  by (simp add: n_vals_def)

lemma consumes_refl [simp]: "consumes [] qs qs"
  by (simp add: consumes_def same_frame_def)

lemma consumes_trans:
  assumes "consumes cs qs qs1" "consumes ds qs1 qs2"
  shows "consumes (cs @ ds) qs qs2"
  using assms unfolding consumes_def same_frame_def
  by (elim conjE exE) (simp add: add_mono)

lemma consumes_weaken: "consumes cs qs qs1 \<Longrightarrow> consumes (cs @ ds) qs qs1"
  unfolding consumes_def by (auto intro: trans_le_add1)

lemma cond_room_rest: "cond_room (cs @ ds) qs \<Longrightarrow> consumes cs qs qs1 \<Longrightarrow> cond_room ds qs1"
  unfolding consumes_def cond_room_def same_frame_def by (elim conjE exE) simp

lemma cond_room_first: "cond_room (cs @ ds) qs \<Longrightarrow> cond_room cs qs"
  unfolding cond_room_def by simp

section \<open>Resolving one condition\<close>

lemma planIn_spec:
  assumes v: "view_ok sc v" and d: "di < ndims sc"
    and room: "length (q_inPool qs) + length rest \<le> k_inPool (q_caps qs)"
  shows "case planIn sc v di name rest ab qs of
      Inl e \<Rightarrow> map_option (\<lambda>val. ErrNonInteger val name) (find (bad_value sc di) rest) = Some e
    | Inr (ab1, qs1) \<Rightarrow> find (bad_value sc di) rest = None \<and>
        (\<exists>np. qs1 = qs\<lparr>q_inPool := q_inPool qs @ np\<rparr> \<and> length np \<le> length rest \<and>
          (ab1 \<longleftrightarrow> ab \<or> (\<exists>i \<in> set np. unat i < dlen (s_dicts (v_base v) ! di))) \<and>
          (\<forall>i. i \<in> set np \<longleftrightarrow> unat i < length (view_vals v ! di) \<and>
            (\<exists>val \<in> set rest. canon (isInt sc di) val = Some (view_vals v ! di ! unat i))))"
  using room
proof (induction rest arbitrary: ab qs)
  case Nil
  then show ?case by (auto intro!: exI [of _ "[]"])
next
  case (Cons val rest)
  have room': "length (q_inPool qs) + length rest \<le> k_inPool (q_caps qs)" using Cons.prems by simp
  let ?b = "s_dicts (v_base v) ! di" and ?e = "v_extras v ! di"
  show ?case
  proof (cases "canon (isInt sc di) val")
    case None
    then show ?thesis by (simp add: resolveVal_canon [OF v d] bad_value_def)
  next
    case (Some x)
    then have good: "\<not> bad_value sc di val" by (simp add: bad_value_def)
    note at = comb_find_row [OF v d, of x]
    show ?thesis
    proof (cases "comb_find ?b ?e x")
      case None
      then have no: "\<not> (unat i < length (view_vals v ! di) \<and> view_vals v ! di ! unat i = x)" for i :: u32
        using at [of i] None by simp
      have "planIn sc v di name (val # rest) ab qs = planIn sc v di name rest ab qs"
        using Some None by (simp add: resolveVal_canon [OF v d])
      then have step: "planIn sc v di name (val # rest) ab qs = planIn sc v di name rest ab qs" .
      have set: "unat i < length (view_vals v ! di) \<and>
          (\<exists>val' \<in> set (val # rest). canon (isInt sc di) val' = Some (view_vals v ! di ! unat i)) \<longleftrightarrow>
        unat i < length (view_vals v ! di) \<and>
          (\<exists>val' \<in> set rest. canon (isInt sc di) val' = Some (view_vals v ! di ! unat i))" for i :: u32
        using no [of i] Some by auto
      show ?thesis
        unfolding step set using Cons.IH [OF room', of ab] good
        by (cases "planIn sc v di name rest ab qs") (simp_all add: case_prod_beta, blast intro: le_SucI)
    next
      case (Some j)
      let ?qs = "qs\<lparr>q_inPool := q_inPool qs @ [j]\<rparr>"
      let ?ab = "ab \<or> unat j < dlen ?b"
      have j: "unat j < length (view_vals v ! di)" "view_vals v ! di ! unat j = x" using at Some by auto
      have "push_in j qs = Inr ?qs" using Cons.prems by (simp add: push_in_def push_def)
      then have step: "planIn sc v di name (val # rest) ab qs = planIn sc v di name rest ?ab ?qs"
        using Some \<open>canon (isInt sc di) val = Some x\<close> by (simp add: resolveVal_canon [OF v d])
      have mem: "i = j \<longleftrightarrow> unat i < length (view_vals v ! di) \<and> view_vals v ! di ! unat i = x" for i
        using at [of i] Some by auto
      have "length (q_inPool ?qs) + length rest \<le> k_inPool (q_caps ?qs)" using Cons.prems by simp
      note IH = Cons.IH [OF this, of ?ab]
      show ?thesis
      proof (cases "planIn sc v di name rest ?ab ?qs")
        case (Inl e)
        with IH step good show ?thesis by simp
      next
        case (Inr res)
        obtain ab1 qs1 where res: "res = (ab1, qs1)" by (cases res)
        with IH Inr obtain np where np: "qs1 = ?qs\<lparr>q_inPool := q_inPool ?qs @ np\<rparr>" "length np \<le> length rest"
          "ab1 \<longleftrightarrow> ?ab \<or> (\<exists>i \<in> set np. unat i < dlen ?b)"
          "\<forall>i. i \<in> set np \<longleftrightarrow> unat i < length (view_vals v ! di) \<and>
            (\<exists>val \<in> set rest. canon (isInt sc di) val = Some (view_vals v ! di ! unat i))"
          "find (bad_value sc di) rest = None" by auto
        have set: "i \<in> set (j # np) \<longleftrightarrow> unat i < length (view_vals v ! di) \<and>
            (\<exists>val' \<in> set (val # rest). canon (isInt sc di) val' = Some (view_vals v ! di ! unat i))" for i
          using np(4) mem [of i] \<open>canon (isInt sc di) val = Some x\<close> by auto
        show ?thesis unfolding step Inr res sum.case prod.case
        proof (intro conjI exI [of _ "j # np"] allI)
          show "find (bad_value sc di) (val # rest) = None" using good np(5) by simp
          show "qs1 = qs\<lparr>q_inPool := q_inPool qs @ (j # np)\<rparr>" using np(1) by simp
          show "length (j # np) \<le> length (val # rest)" using np(2) by simp
          show "ab1 \<longleftrightarrow> ab \<or> (\<exists>i \<in> set (j # np). unat i < dlen ?b)" using np(3) by auto
        qed (rule set)
      qed
    qed
  qed
qed

definition win_base :: "view \<Rightarrow> queryScratch \<Rightarrow> inWindow \<Rightarrow> bool" where
  "win_base v qs w \<longleftrightarrow> (\<exists>i \<in> set (seg qs w). unat i < dlen (s_dicts (v_base v) ! w_dim w))"

text \<open>The result of resolving conditions: an error, a dead group, or the pools extended.\<close>

definition cond_result :: "schema \<Rightarrow> view \<Rightarrow> cond list \<Rightarrow> gplan \<Rightarrow> queryScratch
    \<Rightarrow> err + (bool \<times> gplan \<times> queryScratch) \<Rightarrow> bool" where
  "cond_result sc v cs p qs res \<longleftrightarrow>
     (case res of
        Inl e \<Rightarrow> \<exists>c \<in> set cs. cond_err sc c = Some e
      | Inr (dead, p1, qs1) \<Rightarrow> consumes cs qs qs1 \<and>
          (if dead then p1 = p\<lparr>p_basePossible := p_basePossible p1, p_dead := True\<rparr> \<and>
             (\<forall>is. ids_ok (view_vals v) is \<longrightarrow> \<not> group_sat sc (decode (view_vals v) is) cs)
           else \<exists>eqs wins rngs. planned sc v cs qs qs1 eqs wins rngs \<and>
             p1 = p\<lparr>p_basePossible := (p_basePossible p \<and> (\<forall>w \<in> set wins. win_base v qs1 w))\<rparr>))"

lemma cond_resultI:
  assumes "planned sc v cs qs qs1 eqs wins rngs" "consumes cs qs qs1"
    and "p1 = p\<lparr>p_basePossible := (p_basePossible p \<and> (\<forall>w \<in> set wins. win_base v qs1 w))\<rparr>"
  shows "cond_result sc v cs p qs (Inr (False, p1, qs1))"
  using assms unfolding cond_result_def sum.case prod.case if_False by blast

lemma decode_at:
  "view_ok sc v \<Longrightarrow> ids_ok (view_vals v) is \<Longrightarrow> d < ndims sc \<Longrightarrow>
   decode (view_vals v) is ! d = view_vals v ! d ! unat (is ! d) \<and> unat (is ! d) < length (view_vals v ! d)"
  using view_ok_lengths(3) [of sc v] ids_okD [of "view_vals v" "is"] by (simp add: decode_nth del: length_view_vals)

lemma planCond_range:
  assumes v: "view_ok sc v" and room: "cond_room [c] qs"
    and di: "dimIndex sc (c_dim c) = Some di" and r: "c_range c = Some mm"
  shows "cond_result sc v [c] p qs (planCond sc v c p qs)"
proof (cases "c_value c = [] \<and> c_in c = [] \<and> isInt sc di")
  case False
  then show ?thesis using di r
    by (cases mm) (auto simp: planCond_def cond_result_def cond_err_def)
next
  case True
  obtain mn mx where mm: "mm = (mn, mx)" by (cases mm)
  let ?w = "\<lparr>r_dim = di, r_min = mn, r_max = mx\<rparr>" and ?qs = "qs\<lparr>q_rWins := q_rWins qs @ [\<lparr>r_dim = di, r_min = mn, r_max = mx\<rparr>]\<rparr>"
  have d: "di < ndims sc" using dimIndex_Some [OF di] by simp
  have kinds: "is_rng c" "\<not> is_in c" "\<not> is_eq c" using r by (simp_all add: is_rng_def is_in_def is_eq_def)
  have "push_range ?w qs = Inr ?qs" using room kinds by (simp add: cond_room_def push_range_def push_def)
  then have res: "planCond sc v c p qs = Inr (False, p, ?qs)" using True di r by (simp add: planCond_def mm)
  have sem: "ids_match v [] [] [?w] is \<longleftrightarrow> group_sat sc (decode (view_vals v) is) [c]"
    if "ids_ok (view_vals v) is" for "is"
    using decode_at [OF v that d] di r by (simp add: ids_match_def group_sat_def cond_sat_def mm)
  have "planned sc v [c] qs ?qs [] [] [?w]"
    using d True sem by (simp add: planned_def same_frame_def)
  moreover have "consumes [c] qs ?qs" using kinds by (simp add: consumes_def same_frame_def)
  ultimately show ?thesis unfolding res by (rule cond_resultI) simp
qed

lemma planCond_value:
  assumes v: "view_ok sc v" and room: "cond_room [c] qs"
    and di: "dimIndex sc (c_dim c) = Some di" and c: "c_range c = None" "c_in c = []"
  shows "cond_result sc v [c] p qs (planCond sc v c p qs)"
proof -
  have d: "di < ndims sc" using dimIndex_Some [OF di] by simp
  have kinds: "is_eq c" "\<not> is_in c" "\<not> is_rng c" using c by (simp_all add: is_rng_def is_in_def is_eq_def)
  let ?b = "s_dicts (v_base v) ! di" and ?e = "v_extras v ! di"
  show ?thesis
  proof (cases "canon (isInt sc di) (c_value c)")
    case None
    then show ?thesis using di c
      by (simp add: planCond_def resolveVal_canon [OF v d] cond_result_def cond_err_def bad_value_def)
  next
    case (Some x)
    note at = comb_find_row [OF v d, of x]
    show ?thesis
    proof (cases "comb_find ?b ?e x")
      case None
      then have "planCond sc v c p qs = Inr (True, p\<lparr>p_dead := True\<rparr>, qs)"
        using Some di c by (simp add: planCond_def resolveVal_canon [OF v d])
      moreover have "\<not> group_sat sc (decode (view_vals v) is) [c]" if "ids_ok (view_vals v) is" for "is"
        using decode_at [OF v that d] di c Some None at [of "is ! di"] by (auto simp: group_sat_def cond_sat_def)
      moreover have "consumes [c] qs qs" by (simp add: consumes_def same_frame_def)
      ultimately show ?thesis by (simp add: cond_result_def)
    next
      case f: (Some i)
      let ?qs = "qs\<lparr>q_condDims := q_condDims qs @ [di], q_condIDs := q_condIDs qs @ [i]\<rparr>"
      have "push_cond di i qs = Inr ?qs" using room kinds by (simp add: cond_room_def push_cond_def push_def)
      then have res: "planCond sc v c p qs = Inr (False, p, ?qs)"
        using Some f di c by (simp add: planCond_def resolveVal_canon [OF v d])
      have i: "unat i < length (view_vals v ! di)" using at [of i] f by simp
      have sem: "ids_match v [(di, i)] [] [] is \<longleftrightarrow> group_sat sc (decode (view_vals v) is) [c]"
        if "ids_ok (view_vals v) is" for "is"
        using decode_at [OF v that d] di c Some f at [of "is ! di"] by (auto simp: ids_match_def group_sat_def cond_sat_def)
      have "planned sc v [c] qs ?qs [(di, i)] [] []"
        using d i sem by (simp add: planned_def same_frame_def)
      moreover have "consumes [c] qs ?qs" using kinds by (simp add: consumes_def same_frame_def)
      ultimately show ?thesis unfolding res by (rule cond_resultI) simp
    qed
  qed
qed

lemma planCond_in:
  assumes v: "view_ok sc v" and room: "cond_room [c] qs"
    and di: "dimIndex sc (c_dim c) = Some di" and c: "c_range c = None" "c_in c \<noteq> []"
  shows "cond_result sc v [c] p qs (planCond sc v c p qs)"
proof (cases "c_value c = []")
  case False
  then show ?thesis using di c by (simp add: planCond_def cond_result_def cond_err_def)
next
  case True
  have d: "di < ndims sc" using dimIndex_Some [OF di] by simp
  have kinds: "is_in c" "\<not> is_eq c" "\<not> is_rng c" using c by (simp_all add: is_rng_def is_in_def is_eq_def)
  let ?off = "length (q_inPool qs)"
  have roomIn: "?off + length (c_in c) \<le> k_inPool (q_caps qs)"
    using room kinds by (simp add: cond_room_def n_vals_def)
  note spec = planIn_spec [OF v d roomIn, of "c_dim c" False]
  show ?thesis
  proof (cases "planIn sc v di (c_dim c) (c_in c) False qs")
    case (Inl e)
    with spec have "cond_err sc c = Some e" using True di c by (simp add: cond_err_def)
    with Inl True di c show ?thesis by (simp add: planCond_def cond_result_def)
  next
    case (Inr res)
    obtain ab qs1 where "res = (ab, qs1)" by (cases res)
    with spec Inr obtain np where P: "planIn sc v di (c_dim c) (c_in c) False qs = Inr (ab, qs1)"
      and qs1: "qs1 = qs\<lparr>q_inPool := q_inPool qs @ np\<rparr>" and len: "length np \<le> length (c_in c)"
      and ab: "ab \<longleftrightarrow> (\<exists>i \<in> set np. unat i < dlen (s_dicts (v_base v) ! di))"
      and np: "\<forall>i. i \<in> set np \<longleftrightarrow> unat i < length (view_vals v ! di) \<and>
          (\<exists>val \<in> set (c_in c). canon (isInt sc di) val = Some (view_vals v ! di ! unat i))" by auto
    have sem: "is ! di \<in> set np \<longleftrightarrow> group_sat sc (decode (view_vals v) is) [c]"
      if "ids_ok (view_vals v) is" for "is"
      using decode_at [OF v that d] di c np by (auto simp: group_sat_def cond_sat_def)
    show ?thesis
    proof (cases "np = []")
      case nil: True
      have "planCond sc v c p qs = Inr (True, p\<lparr>p_dead := True\<rparr>, qs1)"
        using True di c P nil by (simp add: planCond_def qs1)
      moreover have "consumes [c] qs qs1" by (simp add: consumes_def same_frame_def qs1 nil)
      ultimately show ?thesis using sem nil by (simp add: cond_result_def)
    next
      case False
      let ?w = "\<lparr>w_dim = di, w_off = ?off, w_n = length np\<rparr>"
      let ?qs = "qs\<lparr>q_inPool := q_inPool qs @ sort np, q_inWins := q_inWins qs @ [?w]\<rparr>"
      have "push_win ?w (qs\<lparr>q_inPool := q_inPool qs @ sort np\<rparr>) = Inr ?qs"
        using room kinds by (simp add: cond_room_def push_win_def push_def)
      then have res: "planCond sc v c p qs = Inr (False, if \<not> ab then p\<lparr>p_basePossible := False\<rparr> else p, ?qs)"
        using True di c P False by (simp add: planCond_def qs1 Let_def)
      have sg: "seg ?qs ?w = sort np" by (simp add: seg_def)
      have "ids_match v [] [(di, sort np)] [] is \<longleftrightarrow> group_sat sc (decode (view_vals v) is) [c]"
        if "ids_ok (view_vals v) is" for "is"
        using sem [OF that] by (simp add: ids_match_def)
      then have "planned sc v [c] qs ?qs [] [?w] []"
        using d sg False by (simp add: planned_def same_frame_def)
      moreover have "consumes [c] qs ?qs" using kinds len by (simp add: consumes_def same_frame_def n_vals_def)
      moreover have "(if \<not> ab then p\<lparr>p_basePossible := False\<rparr> else p) =
          p\<lparr>p_basePossible := (p_basePossible p \<and> (\<forall>w \<in> set [?w]. win_base v ?qs w))\<rparr>"
        using sg ab by (simp add: win_base_def)
      ultimately show ?thesis unfolding res by (rule cond_resultI)
    qed
  qed
qed

lemma planCond_result:
  assumes v: "view_ok sc v" and room: "cond_room [c] qs"
  shows "cond_result sc v [c] p qs (planCond sc v c p qs)"
proof (cases "dimIndex sc (c_dim c)")
  case None
  then show ?thesis by (simp add: planCond_def cond_result_def cond_err_def)
next
  case (Some di)
  then show ?thesis
    using planCond_range [OF v room Some] planCond_value [OF v room Some] planCond_in [OF v room Some]
    by (cases "c_range c"; cases "c_in c = []") blast+
qed

section \<open>Resolving a group\<close>

lemma win_base_prefix:
  assumes "planned sc v ds qs1 qs2 eqs wins rngs" "w_off w + w_n w \<le> length (q_inPool qs1)"
  shows "win_base v qs2 w = win_base v qs1 w"
proof -
  obtain np where "q_inPool qs2 = q_inPool qs1 @ np" using assms(1) by (auto simp: planned_def)
  with assms(2) have "seg qs2 w = seg qs1 w" by (intro seg_prefix) auto
  then show ?thesis by (simp add: win_base_def)
qed

lemma group_sat_append: "group_sat sc key (xs @ ys) \<longleftrightarrow> group_sat sc key xs \<and> group_sat sc key ys"
  by (auto simp: group_sat_def)

lemma planConds_result:
  assumes v: "view_ok sc v" and room: "cond_room cs qs"
  shows "cond_result sc v cs p qs (planConds sc v cs p qs)"
  using room
proof (induction cs arbitrary: p qs)
  case Nil
  then show ?case by (auto simp: cond_result_def intro!: exI [of _ "[]"])
next
  case (Cons c cs)
  have r1: "cond_room [c] qs" using Cons.prems cond_room_first [of "[c]" cs qs] by simp
  note one = planCond_result [OF v r1, of p]
  show ?case
  proof (cases "planCond sc v c p qs")
    case (Inl e)
    with one show ?thesis by (simp add: cond_result_def)
  next
    case (Inr res)
    obtain dead p1 qs1 where res: "res = (dead, p1, qs1)" by (cases res)
    have c1: "consumes [c] qs qs1" using one Inr res by (simp add: cond_result_def)
    show ?thesis
    proof (cases dead)
      case True
      then show ?thesis using one Inr res consumes_weaken [OF c1, of cs]
        by (auto simp: cond_result_def group_sat_def)
    next
      case False
      then obtain eqs wins rngs where pl: "planned sc v [c] qs qs1 eqs wins rngs"
        and p1: "p1 = p\<lparr>p_basePossible := (p_basePossible p \<and> (\<forall>w \<in> set wins. win_base v qs1 w))\<rparr>"
        using one Inr res by (auto simp: cond_result_def)
      have "cond_room cs qs1" using Cons.prems cond_room_rest [of "[c]" cs qs qs1] c1 by simp
      note IH = Cons.IH [OF this, of p1]
      have step: "planConds sc v (c # cs) p qs = planConds sc v cs p1 qs1" using Inr res False by simp
      show ?thesis
      proof (cases "planConds sc v cs p1 qs1")
        case (Inl e)
        with IH step show ?thesis by (auto simp: cond_result_def)
      next
        case r2: (Inr res2)
        obtain dead2 p2 qs2 where res2: "res2 = (dead2, p2, qs2)" by (cases res2)
        have c2: "consumes (c # cs) qs qs2"
          using consumes_trans [OF c1, of cs qs2] IH r2 res2 by (simp add: cond_result_def)
        show ?thesis
        proof (cases dead2)
          case True
          then have "\<not> group_sat sc (decode (view_vals v) is) (c # cs)" if "ids_ok (view_vals v) is" for "is"
            using IH r2 res2 that group_sat_append [of sc _ "[c]" cs] by (auto simp: cond_result_def)
          moreover have "p2 = p\<lparr>p_basePossible := p_basePossible p2, p_dead := True\<rparr>"
            using IH r2 res2 True p1 by (simp add: cond_result_def)
          ultimately show ?thesis using c2 True unfolding step r2 res2 cond_result_def by simp
        next
          case False
          then obtain eqs' wins' rngs' where pl': "planned sc v cs qs1 qs2 eqs' wins' rngs'"
            and p2: "p2 = p1\<lparr>p_basePossible := (p_basePossible p1 \<and> (\<forall>w \<in> set wins'. win_base v qs2 w))\<rparr>"
            using IH r2 res2 by (auto simp: cond_result_def)
          have "win_base v qs2 w = win_base v qs1 w" if "w \<in> set wins" for w
            using pl that by (intro win_base_prefix [OF pl']) (auto simp: planned_def)
          then have "p2 = p\<lparr>p_basePossible := (p_basePossible p \<and> (\<forall>w \<in> set (wins @ wins'). win_base v qs2 w))\<rparr>"
            by (simp add: p2 p1 ball_Un conj_assoc)
          then show ?thesis
            using c2 False planned_append [OF pl pl'] unfolding step r2 res2 by (auto intro: cond_resultI)
        qed
      qed
    qed
  qed
qed

end
