(* ===== verification/Prefix.thy ===== *)
theory Prefix
  imports Matching
begin

text \<open>
  The key interval of an index prefix holds exactly the base rows with that prefix, and the
  odometer of \<open>planExpand\<close> runs through every combination of candidates once.
\<close>

section \<open>Packed prefixes\<close>

lemma key_val_append:
  "length xs = length vs \<Longrightarrow> key_val (vs @ ws) (xs @ ys) = key_val vs xs * 2 ^ sum_list ws + key_val ws ys"
  by (induction vs xs rule: list_induct2') (auto simp: power_add algebra_simps)

lemma packKey_zeros: "packKey ss (replicate n 0) = 0"
proof (induction ss arbitrary: n)
  case (Cons s ss)
  then show ?case by (cases n) auto
qed simp

lemma packKey_pad: "packKey ss (is @ replicate n 0) = packKey ss is"
proof (induction ss arbitrary: "is")
  case (Cons s ss)
  then show ?case by (cases "is") (auto simp: packKey_zeros simp del: replicate_append_same)
qed simp

lemma key_val_zeros: "key_val ws (replicate n 0) = 0"
proof (induction ws arbitrary: n)
  case (Cons w ws)
  then show ?case by (cases n) auto
qed simp

lemma low_mask: "s < 64 \<Longrightarrow> unat (push_bit s 1 - 1 :: u64) = 2 ^ s - 1"
proof -
  assume s: "s < 64"
  then have "(2::nat) ^ s < 2 ^ 64" by (intro power_strict_increasing) auto
  then have "unat (of_nat (2 ^ s) :: u64) = 2 ^ s" by (rule unat_of_nat_u64)
  then have two: "unat (2 ^ s :: u64) = 2 ^ s" by simp
  then have "unat (2 ^ s - 1 :: u64) = 2 ^ s - 1"
    by (subst unat_sub) (simp_all add: word_le_nat_alt)
  then show ?thesis by (simp add: push_bit_of_1)
qed

text \<open>\<open>lo64\<close> and \<open>hi64\<close> as numbers: the prefix value, followed by zeros and by ones.\<close>

lemma prefix_bounds:
  assumes ws: "sum_list ws \<le> 64" and k: "0 < k" "k \<le> length ws" and pos: "\<forall>w \<in> set ws. 0 < w"
    and pre: "key_fits (take k ws) (map unat is)"
  defines "lo64 \<equiv> packKey (shifts_of ws) is" and "S \<equiv> sum_list (drop k ws)"
  shows "unat lo64 = key_val (take k ws) (map unat is) * 2 ^ S"
    and "unat (lo64 OR (push_bit (shifts_of ws ! (k - 1)) 1 - 1)) = key_val (take k ws) (map unat is) * 2 ^ S + (2 ^ S - 1)"
proof -
  let ?P = "key_val (take k ws) (map unat is)"
  have len: "length is = k" using pre k by (auto simp: key_fits_def dest: list_all2_lengthD)
  have split: "sum_list ws = sum_list (take k ws) + S"
    by (metis S_def append_take_drop_id sum_list_append)
  have P: "?P < 2 ^ sum_list (take k ws)" using pre by (rule key_val_less)
  obtain w ws' where t: "take k ws = w # ws'" using k by (cases ws; cases k) auto
  then have "w \<in> set ws" by (metis in_set_takeD list.set_intros(1))
  with pos t split ws have S: "S < 64" by auto
  have zf: "key_fits (drop k ws) (map unat (replicate (length ws - k) (0 :: u32)))"
    by (simp add: key_fits_def list_all2_conv_all_nth)
  have fits: "key_fits ws (map unat (is @ replicate (length ws - k) 0))"
    using pre zf list_all2_appendI [of "\<lambda>w i. i < 2 ^ w" "take k ws" "map unat is"]
    by (metis append_take_drop_id key_fits_def map_append)
  have "unat lo64 = key_val ws (map unat (is @ replicate (length ws - k) 0))"
    using unat_packKey [OF ws fits] by (simp add: lo64_def packKey_pad)
  also have "\<dots> = key_val (take k ws @ drop k ws) (map unat is @ replicate (length ws - k) 0)"
    by simp
  also have "\<dots> = ?P * 2 ^ S"
    using len k by (subst key_val_append) (simp_all add: key_val_zeros S_def)
  finally show lo: "unat lo64 = ?P * 2 ^ S" .
  have "(0::nat) < 2 ^ S" by simp
  then have "?P * 2 ^ S + (2 ^ S - 1) < ?P * 2 ^ S + 2 ^ S" by linarith
  also have "\<dots> = (?P + 1) * 2 ^ S" by simp
  also have "\<dots> \<le> 2 ^ sum_list (take k ws) * 2 ^ S" using P by (intro mult_le_mono1) simp
  also have "\<dots> = 2 ^ sum_list ws" by (simp add: split power_add)
  also have "\<dots> \<le> 2 ^ 64" using ws by (intro power_increasing) auto
  finally have bnd: "?P * 2 ^ S + (2 ^ S - 1) < 2 ^ 64" .
  then have Ple: "?P < 2 ^ 64"
    by (metis (no_types, opaque_lifting) add_lessD1 le_less_trans mult.right_neutral mult_le_mono2 one_le_numeral one_le_power)
  have x: "unat (of_nat ?P :: u64) = ?P" using Ple by (rule unat_of_nat_u64)
  have "lo64 = push_bit S (of_nat ?P)"
  proof (rule word_unat_eq_iff [THEN iffD2])
    have "unat (push_bit S (of_nat ?P :: u64)) = unat (of_nat (?P * 2 ^ S) :: u64)" by (simp add: push_bit_eq_mult)
    also have "\<dots> = ?P * 2 ^ S" using bnd by (intro unat_of_nat_u64) linarith
    finally show "unat lo64 = unat (push_bit S (of_nat ?P :: u64))" using lo by simp
  qed
  moreover have "shifts_of ws ! (k - 1) = S" using k by (simp add: shifts_of_nth S_def)
  ultimately show "unat (lo64 OR (push_bit (shifts_of ws ! (k - 1)) 1 - 1)) = ?P * 2 ^ S + (2 ^ S - 1)"
    using unat_or_shifted [of "push_bit S 1 - 1" S "of_nat ?P"] bnd low_mask [OF S] x by simp
qed

lemma digit_eq:
  assumes "(y::nat) < 2 ^ S"
  shows "p * 2 ^ S \<le> x * 2 ^ S + y \<and> x * 2 ^ S + y \<le> p * 2 ^ S + (2 ^ S - 1) \<longleftrightarrow> x = p"
proof -
  define z :: nat where "z = 2 ^ S"
  have z: "0 < z" "y < z" using assms by (simp_all add: z_def)
  have "p * z \<le> x * z + y \<and> x * z + y \<le> p * z + (z - 1) \<longleftrightarrow> x = p"
  proof (cases x p rule: linorder_cases)
    case less
    then have "(x + 1) * z \<le> p * z" by (intro mult_le_mono1) simp
    then have "x * z + z \<le> p * z" by simp
    with less z show ?thesis by linarith
  next
    case greater
    then have "(p + 1) * z \<le> x * z" by (intro mult_le_mono1) simp
    then have "p * z + z \<le> x * z" by simp
    with greater z show ?thesis by linarith
  qed (use z in auto)
  then show ?thesis by (simp only: z_def)
qed

section \<open>The interval of a prefix\<close>

text \<open>The widths of the index dimensions, and the key of a base row split after the first \<open>k\<close> of them.\<close>

definition base_widths :: "schema \<Rightarrow> snapshot \<Rightarrow> nat list" where
  "base_widths sc s = key_widths (map dlen (s_dicts s)) (idx_dims sc)"

lemma base_widths:
  assumes s: "snap_ok sc s"
  shows "s_shifts s = shifts_of (base_widths sc s)" "sum_list (base_widths sc s) \<le> 64"
    and "length (base_widths sc s) = idx_dims sc" "\<forall>w \<in> set (base_widths sc s). 0 < w"
    and "d < idx_dims sc \<Longrightarrow> base_widths sc s ! d = dictBits (dlen (s_dicts s ! d))"
proof -
  have "computeShifts (map dlen (s_dicts s)) (idx_dims sc) = Inr (s_shifts s)"
    using snap_okD(2,5) [OF s] by (simp add: keys_ok_def)
  then show "s_shifts s = shifts_of (base_widths sc s)" "sum_list (base_widths sc s) \<le> 64"
    by (simp_all add: computeShifts_Inr base_widths_def)
  show "length (base_widths sc s) = idx_dims sc" "\<forall>w \<in> set (base_widths sc s). 0 < w"
    by (auto simp: base_widths_def key_widths_def)
  show "d < idx_dims sc \<Longrightarrow> base_widths sc s ! d = dictBits (dlen (s_dicts s ! d))"
    using dicts_okD(1) [OF snap_okD(3) [OF s]] schema_okD [OF snap_okD(1) [OF s]] by (simp add: base_widths_def key_widths_def)
qed

lemma base_key_split:
  assumes s: "snap_ok sc s" and r: "r < srows s"
  defines "ws \<equiv> base_widths sc s" and "row \<equiv> take (idx_dims sc) (row_of (s_dims s) r)"
  shows "key_fits (take k ws) (map unat (take k row))"
    and "unat (s_keys s ! r) = key_val (take k ws) (map unat (take k row)) * 2 ^ sum_list (drop k ws) +
      key_val (drop k ws) (map unat (drop k row))"
    and "key_val (drop k ws) (map unat (drop k row)) < 2 ^ sum_list (drop k ws)"
proof -
  have rid: "ids_ok (snap_vals s) (row_of (s_dims s) r)"
    using r by (auto simp: srows_def intro: rows_okD(6) [OF snap_okD(4) [OF s]])
  have fits: "key_fits ws (map unat row)"
    unfolding ws_def base_widths_def row_def
    using rid dicts_okD(1) [OF snap_okD(3) [OF s]] schema_okD [OF snap_okD(1) [OF s]]
    by (intro ids_within_fits ids_ok_within) (simp_all add: snap_vals_def)
  show f1: "key_fits (take k ws) (map unat (take k row))"
    using list_all2_takeI [OF fits [unfolded key_fits_def], of k] unfolding key_fits_def take_map .
  have f2: "key_fits (drop k ws) (map unat (drop k row))"
    using list_all2_dropI [OF fits [unfolded key_fits_def], of k] unfolding key_fits_def drop_map .
  show "key_val (drop k ws) (map unat (drop k row)) < 2 ^ sum_list (drop k ws)" by (rule key_val_less [OF f2])
  have "unat (s_keys s ! r) = key_val ws (map unat row)"
    using snap_keys_nth [OF s r] unat_packKey [OF base_widths(2) [OF s], folded ws_def, OF fits] base_widths(1) [OF s]
    by (simp add: row_def ws_def)
  also have "\<dots> = key_val (take k ws @ drop k ws) (map unat (take k row) @ map unat (drop k row))"
    by (simp only: append_take_drop_id map_append [symmetric])
  also have "\<dots> = key_val (take k ws) (map unat (take k row)) * 2 ^ sum_list (drop k ws) + key_val (drop k ws) (map unat (drop k row))"
    using f1 by (subst key_val_append) (auto simp: key_fits_def dest: list_all2_lengthD)
  finally show "unat (s_keys s ! r) = key_val (take k ws) (map unat (take k row)) * 2 ^ sum_list (drop k ws) +
      key_val (drop k ws) (map unat (drop k row))" .
qed

text \<open>The interval as a pair of bounds on the keys.\<close>

lemma keyInterval_keys:
  assumes s: "snap_ok sc s"
  defines "hi64 is \<equiv> packKey (s_shifts s) is OR (push_bit (s_shifts s ! (length is - 1)) 1 - 1)"
  shows "fst (keyInterval s is) \<le> srows s" "snd (keyInterval s is) \<le> srows s"
    and "r < srows s \<Longrightarrow> fst (keyInterval s is) \<le> r \<and> r < snd (keyInterval s is) \<longleftrightarrow>
      packKey (s_shifts s) is \<le> s_keys s ! r \<and> s_keys s ! r \<le> hi64 is"
proof -
  let ?lo = "packKey (s_shifts s) is" and ?hi = "hi64 is"
  have srt: "sorted (s_keys s)" using snap_okD(5) [OF s] unfolding keys_ok_def by blast
  have len: "length (s_keys s) = srows s" by (rule length_snap_keys [OF s])
  have iv: "keyInterval s is = (sort_search (srows s) (\<lambda>i. s_keys s ! i \<ge> ?lo), sort_search (srows s) (\<lambda>i. s_keys s ! i > ?hi))"
    by (simp add: keyInterval_def Let_def hi64_def len)
  have up1: "k \<le> l \<Longrightarrow> l < srows s \<Longrightarrow> s_keys s ! k \<ge> ?lo \<Longrightarrow> s_keys s ! l \<ge> ?lo" for k l
    by (rule order_trans [OF _ sorted_nth_mono [OF srt]]) (simp_all add: len)
  have up2: "k \<le> l \<Longrightarrow> l < srows s \<Longrightarrow> s_keys s ! k > ?hi \<Longrightarrow> s_keys s ! l > ?hi" for k l
    by (rule less_le_trans [OF _ sorted_nth_mono [OF srt]]) (simp_all add: len)
  show "fst (keyInterval s is) \<le> srows s" "snd (keyInterval s is) \<le> srows s"
    unfolding iv fst_conv snd_conv using up1 up2 by (blast intro: sort_search_le)+
  assume r: "r < srows s"
  have "sort_search (srows s) (\<lambda>i. s_keys s ! i \<ge> ?lo) \<le> r \<longleftrightarrow> s_keys s ! r \<ge> ?lo"
    by (rule sort_search_iff) (use up1 r in blast)+
  moreover have "sort_search (srows s) (\<lambda>i. s_keys s ! i > ?hi) \<le> r \<longleftrightarrow> s_keys s ! r > ?hi"
    by (rule sort_search_iff) (use up2 r in blast)+
  ultimately show "fst (keyInterval s is) \<le> r \<and> r < snd (keyInterval s is) \<longleftrightarrow> ?lo \<le> s_keys s ! r \<and> s_keys s ! r \<le> ?hi"
    unfolding iv fst_conv snd_conv by auto
qed

lemma keyInterval_rows:
  assumes s: "snap_ok sc s" and k: "0 < length is" "length is \<le> idx_dims sc"
    and ids: "\<And>d. d < length is \<Longrightarrow> unat (is ! d) < dlen (s_dicts s ! d)"
  shows "fst (keyInterval s is) \<le> srows s" "snd (keyInterval s is) \<le> srows s"
    and "r < srows s \<Longrightarrow> fst (keyInterval s is) \<le> r \<and> r < snd (keyInterval s is) \<longleftrightarrow>
      take (length is) (row_of (s_dims s) r) = is"
proof -
  define ws where "ws = base_widths sc s"
  define S where "S = sum_list (drop (length is) ws)"
  define P where "P = key_val (take (length is) ws) (map unat is)"
  note W = base_widths [OF s, folded ws_def]
  have pre: "key_fits (take (length is) ws) (map unat is)"
    using k ids W(3,5) by (auto simp: key_fits_def list_all2_conv_all_nth dictBits_fits)
  have k0: "length is \<le> length ws" using k(2) W(3) by simp
  note bounds = prefix_bounds [OF W(2) k(1) k0 W(4) pre, folded W(1) S_def P_def]
  show "fst (keyInterval s is) \<le> srows s" "snd (keyInterval s is) \<le> srows s" by (rule keyInterval_keys(1,2) [OF s])+
  assume r: "r < srows s"
  let ?row = "take (idx_dims sc) (row_of (s_dims s) r)"
  note key = base_key_split [OF s r, of "length is", folded ws_def, folded S_def]
  have "fst (keyInterval s is) \<le> r \<and> r < snd (keyInterval s is) \<longleftrightarrow>
      P * 2 ^ S \<le> unat (s_keys s ! r) \<and> unat (s_keys s ! r) \<le> P * 2 ^ S + (2 ^ S - 1)"
    unfolding keyInterval_keys(3) [OF s r] by (simp only: word_le_nat_alt bounds)
  also have "\<dots> \<longleftrightarrow> key_val (take (length is) ws) (map unat (take (length is) ?row)) = P"
    unfolding key(2) by (rule digit_eq [OF key(3)])
  also have "\<dots> \<longleftrightarrow> map unat (take (length is) ?row) = map unat is"
    unfolding P_def using key_val_inj [OF key(1) pre] by auto
  also have "\<dots> \<longleftrightarrow> take (length is) ?row = is"
    by (simp add: inj_map_eq_map inj_on_def word_unat_eq_iff)
  finally show "fst (keyInterval s is) \<le> r \<and> r < snd (keyInterval s is) \<longleftrightarrow> take (length is) (row_of (s_dims s) r) = is"
    using k by (simp add: min_def)
qed

section \<open>The odometer as a mixed-radix counter\<close>

definition radix :: "u32 option list \<Rightarrow> (nat \<times> nat) list \<Rightarrow> nat \<Rightarrow> nat" where
  "radix eq cand d = (if eq ! d \<noteq> None then 1 else snd (cand ! d))"

definition digit :: "u32 option list \<Rightarrow> nat list \<Rightarrow> nat \<Rightarrow> nat" where
  "digit eq idx d = (if eq ! d \<noteq> None then 0 else idx ! d)"

fun odoVal :: "u32 option list \<Rightarrow> (nat \<times> nat) list \<Rightarrow> nat list \<Rightarrow> nat \<Rightarrow> nat" where
  "odoVal eq cand idx 0 = 0"
| "odoVal eq cand idx (Suc d) = odoVal eq cand idx d * radix eq cand d + digit eq idx d"

fun odoSize :: "u32 option list \<Rightarrow> (nat \<times> nat) list \<Rightarrow> nat \<Rightarrow> nat" where
  "odoSize eq cand 0 = 1"
| "odoSize eq cand (Suc d) = odoSize eq cand d * radix eq cand d"

definition odo_ok :: "u32 option list \<Rightarrow> (nat \<times> nat) list \<Rightarrow> nat \<Rightarrow> nat list \<Rightarrow> bool" where
  "odo_ok eq cand k idx \<longleftrightarrow> k \<le> length idx \<and> (\<forall>d < k. digit eq idx d < radix eq cand d)"

lemma odo_ok_mono: "odo_ok eq cand (Suc k) idx \<Longrightarrow> odo_ok eq cand k idx"
  by (auto simp: odo_ok_def)

lemma odoVal_cong:
  "(\<And>d. d < k \<Longrightarrow> digit eq idx d = digit eq idx' d) \<Longrightarrow> odoVal eq cand idx k = odoVal eq cand idx' k"
  by (induction k) auto

lemma odoVal_less: "odo_ok eq cand k idx \<Longrightarrow> odoVal eq cand idx k < odoSize eq cand k"
proof (induction k)
  case (Suc k)
  then have lt: "odoVal eq cand idx k + 1 \<le> odoSize eq cand k" and d: "digit eq idx k < radix eq cand k"
    using odo_ok_mono by (auto simp: odo_ok_def Suc_le_eq)
  have "odoVal eq cand idx (Suc k) < (odoVal eq cand idx k + 1) * radix eq cand k" using d by simp
  also have "\<dots> \<le> odoSize eq cand k * radix eq cand k" using lt by (rule mult_le_mono1)
  finally show ?case by simp
qed simp

lemma odoVal_inj:
  "odo_ok eq cand k i1 \<Longrightarrow> odo_ok eq cand k i2 \<Longrightarrow> odoVal eq cand i1 k = odoVal eq cand i2 k \<Longrightarrow>
   d < k \<Longrightarrow> digit eq i1 d = digit eq i2 d"
proof (induction k)
  case (Suc k)
  let ?r = "radix eq cand k"
  have r: "digit eq i1 k < ?r" "digit eq i2 k < ?r" using Suc.prems(1,2) by (auto simp: odo_ok_def)
  have e: "odoVal eq cand i1 k * ?r + digit eq i1 k = odoVal eq cand i2 k * ?r + digit eq i2 k"
    using Suc.prems(3) by simp
  from arg_cong [OF e, of "\<lambda>n. n div ?r"] r have v: "odoVal eq cand i1 k = odoVal eq cand i2 k" by simp
  with e have "digit eq i1 k = digit eq i2 k" by simp
  with Suc.IH [OF odo_ok_mono [OF Suc.prems(1)] odo_ok_mono [OF Suc.prems(2)] v] Suc.prems(4) show ?case
    by (cases "d = k") auto
qed simp

lemma odoStep_spec:
  assumes "odo_ok eq cand k idx" "odoStep eq cand k idx = (carry, idx')"
  shows "length idx' = length idx \<and> (\<forall>d \<ge> k. idx' ! d = idx ! d) \<and>
    (if carry then odo_ok eq cand k idx' \<and> odoVal eq cand idx' k = odoVal eq cand idx k + 1
     else odoVal eq cand idx k + 1 = odoSize eq cand k)"
  using assms
proof (induction k arbitrary: idx)
  case 0
  then show ?case by simp
next
  case (Suc k)
  let ?r = "radix eq cand k"
  have ok: "odo_ok eq cand k idx" and len: "k < length idx" and dig: "digit eq idx k < ?r"
    using Suc.prems(1) by (auto simp: odo_ok_def)
  show ?case
  proof (cases "eq ! k = None")
    case False
    then have r: "?r = 1" "\<And>i. digit eq i k = 0" by (simp_all add: radix_def digit_def)
    have "odoStep eq cand k idx = (carry, idx')" using Suc.prems(2) False by simp
    from Suc.IH [OF ok this] show ?thesis
      using len by (auto simp: r odo_ok_def less_Suc_eq)
  next
    case None: True
    then have r: "?r = snd (cand ! k)" "\<And>i. digit eq i k = i ! k" by (simp_all add: radix_def digit_def)
    define idx1 where "idx1 = idx[k := idx ! k + 1]"
    have same1: "digit eq (idx[k := x]) d = digit eq idx d" if "d < k" for d x
      using that by (simp add: digit_def)
    show ?thesis
    proof (cases "idx ! k + 1 < ?r")
      case True
      then have res: "carry" "idx' = idx1" using Suc.prems(2) None len r by (simp_all add: idx1_def)
      have "odoVal eq cand idx1 k = odoVal eq cand idx k" unfolding idx1_def by (rule odoVal_cong) (rule same1)
      moreover have "odo_ok eq cand (Suc k) idx1"
        using ok same1 True len r by (auto simp: odo_ok_def idx1_def less_Suc_eq)
      ultimately show ?thesis using res len r by (simp add: idx1_def)
    next
      case False
      define idx2 where "idx2 = idx[k := 0]"
      have full: "idx ! k + 1 = ?r" using False dig r by simp
      have step: "odoStep eq cand k idx2 = (carry, idx')"
        using Suc.prems(2) None len False r by (simp add: idx2_def)
      have v2: "odoVal eq cand idx2 k = odoVal eq cand idx k" unfolding idx2_def by (rule odoVal_cong) (rule same1)
      have ok2: "odo_ok eq cand k idx2" using ok same1 by (simp add: odo_ok_def idx2_def)
      note IH = Suc.IH [OF ok2 step]
      have at: "idx' ! k = 0" "length idx' = length idx" using IH len by (simp_all add: idx2_def)
      have rest: "\<forall>d \<ge> Suc k. idx' ! d = idx ! d" using IH by (simp add: idx2_def)
      show ?thesis
      proof (cases carry)
        case True
        then have ok': "odo_ok eq cand k idx'" and v': "odoVal eq cand idx' k = odoVal eq cand idx k + 1"
          using IH v2 by simp_all
        have "odo_ok eq cand (Suc k) idx'" using ok' at full r len by (auto simp: odo_ok_def less_Suc_eq)
        moreover have "odoVal eq cand idx' (Suc k) = odoVal eq cand idx (Suc k) + 1"
          using v' full at r by simp
        ultimately show ?thesis using True at rest by simp
      next
        case F: False
        then have "odoVal eq cand idx k + 1 = odoSize eq cand k" using IH v2 by simp
        then have "(odoVal eq cand idx k + 1) * ?r = odoSize eq cand k * ?r" by simp
        then have "odoVal eq cand idx (Suc k) + 1 = odoSize eq cand (Suc k)" using full r by simp
        then show ?thesis using F at rest by simp
      qed
    qed
  qed
qed

section \<open>What the expansion emits\<close>

lemma comboIds_cong:
  "q_inPool qs1 = q_inPool qs \<Longrightarrow> (\<And>d. d < k \<Longrightarrow> digit eq i1 d = digit eq i2 d) \<Longrightarrow>
   comboIds qs1 eq cand k i1 = comboIds qs eq cand k i2"
proof -
  assume pool: "q_inPool qs1 = q_inPool qs" and dig: "\<And>d. d < k \<Longrightarrow> digit eq i1 d = digit eq i2 d"
  have "i1 ! d = i2 ! d" if "d < k" "eq ! d = None" for d
    using dig [OF that(1)] that(2) by (simp add: digit_def)
  then show ?thesis by (auto simp: comboIds_def pool split: option.splits)
qed

text \<open>The plan's hull \<open>[lo, hi)\<close> covers what was emitted, and what it covered before.\<close>

definition hull_of :: "gplan \<Rightarrow> gplan \<Rightarrow> iv list \<Rightarrow> bool" where
  "hull_of p p1 E \<longleftrightarrow>
     p1 = p\<lparr>p_lo := p_lo p1, p_hi := p_hi p1\<rparr> \<and>
     (\<forall>x \<in> set E. p_lo p1 \<le> fst x \<and> snd x \<le> p_hi p1) \<and>
     (p_hi p \<noteq> 0 \<longrightarrow> p_lo p1 \<le> p_lo p \<and> p_hi p \<le> p_hi p1)"

lemma emitIv_spec:
  assumes "length (q_ivs qs) < k_ivs (q_caps qs)"
  shows "\<exists>p1 E. emitIv x p qs = Inr (p1, qs\<lparr>q_ivs := q_ivs qs @ E\<rparr>) \<and> hull_of p p1 E \<and>
    E = (if fst x < snd x then [x] else [])"
proof (cases "fst x < snd x")
  case True
  define p1 where "p1 = (if p_hi p = 0 \<or> fst x < p_lo p then p\<lparr>p_lo := fst x\<rparr> else p)"
  define p2 where "p2 = (if snd x > p_hi p1 then p1\<lparr>p_hi := snd x\<rparr> else p1)"
  have "emitIv x p qs = Inr (p2, qs\<lparr>q_ivs := q_ivs qs @ [x]\<rparr>)"
    using assms True by (simp add: emitIv_def push_iv_def push_def p1_def p2_def Let_def)
  moreover have "hull_of p p2 [x]" by (simp add: hull_of_def p1_def p2_def)
  ultimately show ?thesis using True by auto
next
  case False
  then show ?thesis by (simp add: emitIv_def hull_of_def)
qed

lemma hull_of_trans:
  assumes "hull_of p p1 E" "hull_of p1 p2 F" "\<forall>x \<in> set E. fst x < snd x"
  shows "hull_of p p2 (E @ F)"
proof -
  have "p2 = p\<lparr>p_lo := p_lo p2, p_hi := p_hi p2\<rparr>"
    using assms(1,2) unfolding hull_of_def by (metis (no_types, lifting) gplan.surjective gplan.update_convs(7,8))
  moreover have "p_lo p2 \<le> fst x \<and> snd x \<le> p_hi p2" if "x \<in> set E" for x
  proof -
    have "snd x \<le> p_hi p1" "p_lo p1 \<le> fst x" "0 < snd x" using assms(1,3) that by (force simp: hull_of_def)+
    with assms(2) show ?thesis by (auto simp: hull_of_def)
  qed
  ultimately show ?thesis using assms(1,2) by (auto simp: hull_of_def)
qed

lemma expandLoop_spec:
  assumes "odo_ok eq cand k idx" "fuel = odoSize eq cand k - odoVal eq cand idx k"
    and "length (q_ivs qs) + fuel \<le> k_ivs (q_caps qs)"
  shows "\<exists>p1 E. expandLoop fuel base eq cand k idx p qs = Some (Inr (p1, qs\<lparr>q_ivs := q_ivs qs @ E\<rparr>)) \<and>
    hull_of p p1 E \<and> length E \<le> fuel \<and>
    (\<forall>x. x \<in> set E \<longleftrightarrow> fst x < snd x \<and>
      (\<exists>i. odo_ok eq cand k i \<and> odoVal eq cand idx k \<le> odoVal eq cand i k \<and>
        x = keyInterval base (comboIds qs eq cand k i)))"
  using assms
proof (induction fuel arbitrary: idx p qs)
  case 0
  with odoVal_less [OF 0(1)] show ?case by simp
next
  case (Suc fuel)
  let ?x = "keyInterval base (comboIds qs eq cand k idx)"
  have "length (q_ivs qs) < k_ivs (q_caps qs)" using Suc.prems(3) by simp
  then obtain p1 E1 where one: "emitIv ?x p qs = Inr (p1, qs\<lparr>q_ivs := q_ivs qs @ E1\<rparr>)" "hull_of p p1 E1"
    "E1 = (if fst ?x < snd ?x then [?x] else [])" using emitIv_spec by blast
  obtain carry idx1 where st: "odoStep eq cand k idx = (carry, idx1)" by (cases "odoStep eq cand k idx")
  note step = odoStep_spec [OF Suc.prems(1) st]
  have same: "comboIds qs eq cand k i = comboIds qs eq cand k idx"
    if "odo_ok eq cand k i" "odoVal eq cand i k = odoVal eq cand idx k" for i
    using odoVal_inj [OF that(1) Suc.prems(1) that(2)] by (intro comboIds_cong) auto
  show ?case
  proof (cases carry)
    case False
    then have last: "odoVal eq cand idx k + 1 = odoSize eq cand k" using step by simp
    have "expandLoop (Suc fuel) base eq cand k idx p qs = Some (Inr (p1, qs\<lparr>q_ivs := q_ivs qs @ E1\<rparr>))"
      using one st False by simp
    moreover have "x \<in> set E1 \<longleftrightarrow> fst x < snd x \<and>
      (\<exists>i. odo_ok eq cand k i \<and> odoVal eq cand idx k \<le> odoVal eq cand i k \<and>
        x = keyInterval base (comboIds qs eq cand k i))" for x
    proof -
      have "odoVal eq cand idx k = odoVal eq cand i k" if "odo_ok eq cand k i" "odoVal eq cand idx k \<le> odoVal eq cand i k" for i
        using odoVal_less [OF that(1)] that(2) last by simp
      then have "(\<exists>i. odo_ok eq cand k i \<and> odoVal eq cand idx k \<le> odoVal eq cand i k \<and>
          x = keyInterval base (comboIds qs eq cand k i)) \<longleftrightarrow> x = ?x"
        using same Suc.prems(1) by (metis order_refl)
      then show ?thesis by (auto simp: one(3))
    qed
    ultimately show ?thesis using one(2,3) by (intro exI [of _ p1] exI [of _ E1]) auto
  next
    case True
    let ?qs = "qs\<lparr>q_ivs := q_ivs qs @ E1\<rparr>"
    have ok1: "odo_ok eq cand k idx1" and v1: "odoVal eq cand idx1 k = odoVal eq cand idx k + 1"
      using step True by simp_all
    have f: "fuel = odoSize eq cand k - odoVal eq cand idx1 k" using Suc.prems(2) v1 by simp
    have "length (q_ivs ?qs) + fuel \<le> k_ivs (q_caps ?qs)" using Suc.prems(3) one(3) by simp
    from Suc.IH [OF ok1 f this, of p1] obtain p2 E2 where two:
      "expandLoop fuel base eq cand k idx1 p1 ?qs = Some (Inr (p2, ?qs\<lparr>q_ivs := q_ivs ?qs @ E2\<rparr>))"
      "hull_of p1 p2 E2" "length E2 \<le> fuel"
      "\<forall>x. x \<in> set E2 \<longleftrightarrow> fst x < snd x \<and>
        (\<exists>i. odo_ok eq cand k i \<and> odoVal eq cand idx1 k \<le> odoVal eq cand i k \<and>
          x = keyInterval base (comboIds ?qs eq cand k i))" by blast
    have pool: "comboIds ?qs eq cand k i = comboIds qs eq cand k i" for i
      by (rule comboIds_cong) simp_all
    have "expandLoop (Suc fuel) base eq cand k idx p qs = Some (Inr (p2, qs\<lparr>q_ivs := q_ivs qs @ (E1 @ E2)\<rparr>))"
      using one st True two(1) by simp
    moreover have "hull_of p p2 (E1 @ E2)" using one(2,3) two(2) by (intro hull_of_trans) auto
    moreover have "x \<in> set (E1 @ E2) \<longleftrightarrow> fst x < snd x \<and>
      (\<exists>i. odo_ok eq cand k i \<and> odoVal eq cand idx k \<le> odoVal eq cand i k \<and>
        x = keyInterval base (comboIds qs eq cand k i))" for x
    proof -
      have "odoVal eq cand idx k \<le> odoVal eq cand i k \<longleftrightarrow>
          odoVal eq cand i k = odoVal eq cand idx k \<or> odoVal eq cand idx1 k \<le> odoVal eq cand i k" for i
        using v1 by auto
      then have "(\<exists>i. odo_ok eq cand k i \<and> odoVal eq cand idx k \<le> odoVal eq cand i k \<and>
          x = keyInterval base (comboIds qs eq cand k i)) \<longleftrightarrow>
        x = ?x \<or> (\<exists>i. odo_ok eq cand k i \<and> odoVal eq cand idx1 k \<le> odoVal eq cand i k \<and>
          x = keyInterval base (comboIds qs eq cand k i))"
        using same Suc.prems(1) by metis
      moreover have "x \<in> set E1 \<longleftrightarrow> fst x < snd x \<and> x = ?x" by (auto simp: one(3))
      moreover have "x \<in> set E2 \<longleftrightarrow> fst x < snd x \<and>
        (\<exists>i. odo_ok eq cand k i \<and> odoVal eq cand idx1 k \<le> odoVal eq cand i k \<and>
          x = keyInterval base (comboIds qs eq cand k i))" using two(4) unfolding pool by blast
      ultimately show ?thesis unfolding set_append Un_iff by blast
    qed
    moreover have "length (E1 @ E2) \<le> Suc fuel" using one(3) two(3) by simp
    ultimately show ?thesis by blast
  qed
qed

end
