(* ===== verification/Planning.thy ===== *)
theory Planning
  imports Prefix
begin

text \<open>
  Correctness of the planner: the pools a plan refers to match the rows that satisfy its group,
  every such base row lies in one of the emitted intervals, no pool is pushed beyond its
  capacity, and the odometer of an expansion always comes to its end.
\<close>

section \<open>What a plan refers to\<close>

definition refs :: "gplan \<Rightarrow> queryScratch \<Rightarrow> (nat \<times> u32) list \<Rightarrow> inWindow list \<Rightarrow> rangeWindow list \<Rightarrow> bool" where
  "refs p qs eqs wins rngs \<longleftrightarrow>
     p_condN p = length eqs \<and> p_insN p = length wins \<and> p_rngN p = length rngs \<and>
     take (length eqs) (drop (p_condOff p) (q_condDims qs)) = map fst eqs \<and>
     take (length eqs) (drop (p_condOff p) (q_condIDs qs)) = map snd eqs \<and>
     insView p qs = wins \<and> rngsView p qs = rngs \<and>
     (\<forall>w \<in> set wins. w_off w + w_n w \<le> length (q_inPool qs))"

definition pools_grow :: "queryScratch \<Rightarrow> queryScratch \<Rightarrow> bool" where
  "pools_grow qs qs1 \<longleftrightarrow>
     (\<exists>xs. q_condDims qs1 = q_condDims qs @ xs) \<and> (\<exists>xs. q_condIDs qs1 = q_condIDs qs @ xs) \<and>
     (\<exists>xs. q_inWins qs1 = q_inWins qs @ xs) \<and> (\<exists>xs. q_inPool qs1 = q_inPool qs @ xs) \<and>
     (\<exists>xs. q_rWins qs1 = q_rWins qs @ xs)"

lemma pools_grow_refl [simp]: "pools_grow qs qs"
  by (simp add: pools_grow_def)

lemma pools_grow_trans: "pools_grow a b \<Longrightarrow> pools_grow b c \<Longrightarrow> pools_grow a c"
  unfolding pools_grow_def by (elim conjE exE) simp

lemma consumes_grow: "consumes cs qs qs1 \<Longrightarrow> pools_grow qs qs1"
  unfolding consumes_def pools_grow_def by blast

lemma take_drop_append:
  "take n (drop off xs) = ys \<Longrightarrow> length ys = n \<Longrightarrow> take n (drop off (xs @ zs)) = ys"
  by (cases "off \<le> length xs") auto

lemma refs_grow:
  assumes r: "refs p qs eqs wins rngs" and g: "pools_grow qs qs1"
  shows "refs p qs1 eqs wins rngs" "w \<in> set wins \<Longrightarrow> seg qs1 w = seg qs w"
proof -
  obtain a b c d e where x: "q_condDims qs1 = q_condDims qs @ a" "q_condIDs qs1 = q_condIDs qs @ b"
    "q_inWins qs1 = q_inWins qs @ c" "q_inPool qs1 = q_inPool qs @ d" "q_rWins qs1 = q_rWins qs @ e"
    using g unfolding pools_grow_def by blast
  note f = r [unfolded refs_def insView_def rngsView_def]
  show "w \<in> set wins \<Longrightarrow> seg qs1 w = seg qs w" using f by (intro seg_prefix [OF _ x(4)]) simp
  have w: "\<forall>w \<in> set wins. w_off w + w_n w \<le> length (q_inPool qs1)" using f unfolding x by (simp add: trans_le_add1)
  have n: "length wins = p_insN p" "length rngs = p_rngN p" using f by simp_all
  have t: "take (p_insN p) (drop (p_insOff p) (q_inWins qs)) = wins"
    "take (p_rngN p) (drop (p_rngOff p) (q_rWins qs)) = rngs"
    "take (length eqs) (drop (p_condOff p) (q_condDims qs)) = map fst eqs"
    "take (length eqs) (drop (p_condOff p) (q_condIDs qs)) = map snd eqs" using f by blast+
  note t' = take_drop_append [OF t(1) n(1), of c] take_drop_append [OF t(2) n(2), of e]
    take_drop_append [OF t(3) length_map, of a] take_drop_append [OF t(4) length_map, of b]
  show "refs p qs1 eqs wins rngs"
    unfolding refs_def insView_def rngsView_def x(1,2,3,5) using f w t' by blast
qed

text \<open>The index loops over the pools are loops over the lists.\<close>

lemma nth_take_drop:
  assumes "take (length ys) (drop off xs) = ys" "i < length ys"
  shows "xs ! (off + i) = ys ! i"
proof -
  have "off + i < length xs" using arg_cong [OF assms(1), of length] assms(2) by simp
  then have "xs ! (off + i) = take (length ys) (drop off xs) ! i" using assms(2) by simp
  then show ?thesis by (simp only: assms(1))
qed

lemma refs_nth:
  assumes "refs p qs eqs wins rngs" "i < length eqs"
  shows "q_condDims qs ! (p_condOff p + i) = fst (eqs ! i)" "q_condIDs qs ! (p_condOff p + i) = snd (eqs ! i)"
  using nth_take_drop [of "map fst eqs" "p_condOff p" "q_condDims qs" i]
    nth_take_drop [of "map snd eqs" "p_condOff p" "q_condIDs qs" i] assms by (simp_all add: refs_def)

lemma refs_win:
  assumes "refs p qs eqs wins rngs" "i < length wins"
  shows "q_inWins qs ! (p_insOff p + i) = wins ! i"
proof -
  have "p_insN p = length wins" "take (p_insN p) (drop (p_insOff p) (q_inWins qs)) = wins"
    using assms(1) by (auto simp: refs_def insView_def)
  then show ?thesis using assms(2) by (intro nth_take_drop) simp_all
qed

lemma fold_nth: "fold (\<lambda>i. f (xs ! i)) [0..<length xs] a = fold f xs a"
proof -
  have "fold f (map (\<lambda>i. xs ! i) [0..<length xs]) a = fold (\<lambda>i. f (xs ! i)) [0..<length xs] a"
    by (simp only: fold_map comp_def)
  then show ?thesis by (simp only: map_nth)
qed

lemma fold_upt_cong: "(\<And>i. i < n \<Longrightarrow> f i = g i) \<Longrightarrow> fold f [0..<n] a = fold g [0..<n] a"
  by (rule fold_cong) auto

lemma all_upt_nth: "list_all (\<lambda>i. P (xs ! i)) [0..<length xs] \<longleftrightarrow> (\<forall>x \<in> set xs. P x)"
  by (auto simp: list_all_iff all_set_conv_all_nth)

lemma matchConds_refs:
  assumes "refs p qs eqs wins rngs" "\<forall>x \<in> set eqs. fst x < length dims"
  shows "matchConds p qs dims r \<longleftrightarrow> (\<forall>x \<in> set eqs. row_of dims r ! fst x = snd x)"
proof -
  have "matchConds p qs dims r \<longleftrightarrow> list_all (\<lambda>i. dims ! fst (eqs ! i) ! r = snd (eqs ! i)) [0..<length eqs]"
    using refs_nth [OF assms(1)] assms(1) by (simp add: matchConds_def list_all_iff refs_def)
  then show ?thesis using assms(2) all_upt_nth [of "\<lambda>x. dims ! fst x ! r = snd x" eqs] by auto
qed

lemma matchOneIn_seg: "sorted (seg qs w) \<Longrightarrow> matchOneIn w (q_inPool qs) i \<longleftrightarrow> i \<in> set (seg qs w)"
  by (auto simp: matchOneIn_def Let_def list_ex_iff binary_search_found simp flip: seg_def)

lemma matchIns_refs:
  assumes "refs p qs eqs wins rngs" "\<forall>w \<in> set wins. sorted (seg qs w) \<and> w_dim w < length dims"
  shows "(p_insN p = 0 \<or> matchIns (insView p qs) (q_inPool qs) dims r) \<longleftrightarrow>
    (\<forall>w \<in> set wins. row_of dims r ! w_dim w \<in> set (seg qs w))"
  using assms by (auto simp: refs_def matchIns_def list_all_iff matchOneIn_seg)

text \<open>A range check reads the integer that the id stands for.\<close>

lemma rangeVal_vals:
  assumes v: "view_ok sc v" and d: "d < ndims sc" "isInt sc d" and i: "unat i < length (view_vals v ! d)"
  shows "view_vals v ! d ! unat i = VInt (rangeVal v d i)"
proof -
  let ?b = "s_dicts (v_base v) ! d" and ?e = "v_extras v ! d"
  have c: "comb_ok ?b ?e" using view_okD(2) [OF v] d(1) by (rule extras_okD(2))
  then have len: "dlen ?b + dlen ?e < 2 ^ 32" by (simp add: comb_ok_def)
  note num = view_numeric [OF v d(1)]
  have vv: "view_vals v ! d = map VInt (vals ?b) @ map VInt (vals ?e)"
    using d view_ok_lengths [OF v] num by (simp add: view_vals_nth dict_vals_def)
  have lb: "dlen ?b = length (vals ?b)" using num d by (simp add: dlen_def)
  have n: "unat (of_nat (dlen ?b) :: u32) = dlen ?b" using len by (intro unat_of_nat_u32) simp
  show ?thesis
  proof (cases "unat i < dlen ?b")
    case True
    then have "\<not> of_nat (dlen ?b) \<le> i" by (simp add: word_le_nat_alt n)
    then show ?thesis using True by (simp add: rangeVal_def Let_def vv nth_append lb)
  next
    case False
    then have ge: "of_nat (dlen ?b) \<le> i" by (simp add: word_le_nat_alt n)
    then have "unat (i - of_nat (dlen ?b)) = unat i - dlen ?b" by (simp add: unat_sub n)
    then show ?thesis using ge False i by (simp add: rangeVal_def Let_def vv nth_append lb)
  qed
qed

lemma matchRanges_refs:
  assumes v: "view_ok sc v" and r: "refs p qs eqs wins rngs"
    and rng: "\<forall>w \<in> set rngs. r_dim w < ndims sc \<and> isInt sc (r_dim w)"
    and dims: "length dims = ndims sc" "ids_ok (view_vals v) (row_of dims r)"
  shows "(p_rngN p = 0 \<or> matchRanges (rngsView p qs) v dims r) \<longleftrightarrow>
    (\<forall>w \<in> set rngs. in_range (r_min w) (r_max w) (view_vals v ! r_dim w ! unat (row_of dims r ! r_dim w)))"
proof -
  have one: "in_range (r_min w) (r_max w) (view_vals v ! r_dim w ! unat (row_of dims r ! r_dim w)) \<longleftrightarrow>
      \<not> (rangeVal v (r_dim w) (dims ! r_dim w ! r) < r_min w \<or> rangeVal v (r_dim w) (dims ! r_dim w ! r) > r_max w)"
    if w: "w \<in> set rngs" for w
  proof -
    have d: "r_dim w < ndims sc" "isInt sc (r_dim w)" using rng w by auto
    have "unat (row_of dims r ! r_dim w) < length (view_vals v ! r_dim w)"
      using ids_okD(2) [OF dims(2), of "r_dim w"] d(1) view_ok_lengths [OF v] by simp
    from rangeVal_vals [OF v d this] show ?thesis using d(1) dims(1) by auto
  qed
  have "matchRanges rngs v dims r \<longleftrightarrow>
    (\<forall>w \<in> set rngs. in_range (r_min w) (r_max w) (view_vals v ! r_dim w ! unat (row_of dims r ! r_dim w)))"
    unfolding matchRanges_def list_all_iff Let_def using one by blast
  with r show ?thesis by (auto simp: refs_def)
qed

section \<open>A good plan\<close>

text \<open>
  A dead plan's group has no row. Any other plan matches exactly the rows of its group, and
  each base row of the group lies in an emitted interval and passes the plan's prefilter.
\<close>

definition live_plan :: "schema \<Rightarrow> view \<Rightarrow> cond list \<Rightarrow> gplan \<Rightarrow> queryScratch \<Rightarrow> iv list \<Rightarrow> bool" where
  "live_plan sc v g p qs E \<longleftrightarrow> \<not> p_dead p \<and>
     (\<exists>eqs wins rngs. refs p qs eqs wins rngs \<and>
        (\<forall>x \<in> set eqs. fst x < ndims sc) \<and>
        (\<forall>w \<in> set wins. sorted (seg qs w) \<and> w_dim w < ndims sc) \<and>
        (\<forall>w \<in> set rngs. r_dim w < ndims sc \<and> isInt sc (r_dim w)) \<and>
        (\<forall>is. ids_ok (view_vals v) is \<longrightarrow>
           (ids_match v eqs (map (\<lambda>w. (w_dim w, seg qs w)) wins) rngs is \<longleftrightarrow>
            group_sat sc (decode (view_vals v) is) g))) \<and>
     (\<forall>r < srows (v_base v). group_sat sc (decode (view_vals v) (row_of (s_dims (v_base v)) r)) g \<longrightarrow>
        p_basePossible p \<and> (p_scan p \<or> p_lo p \<le> r \<and> r < p_hi p) \<and>
        (\<exists>x \<in> set E. fst x \<le> r \<and> r < snd x))"

definition good_plan :: "schema \<Rightarrow> view \<Rightarrow> cond list \<Rightarrow> gplan \<Rightarrow> queryScratch \<Rightarrow> iv list \<Rightarrow> bool" where
  "good_plan sc v g p qs E \<longleftrightarrow>
     (p_dead p \<and> (\<forall>is. ids_ok (view_vals v) is \<longrightarrow> \<not> group_sat sc (decode (view_vals v) is) g)) \<or>
     live_plan sc v g p qs E"

lemma good_plan_grow:
  assumes "good_plan sc v g p qs E" "pools_grow qs qs1" "set E \<subseteq> set F"
  shows "good_plan sc v g p qs1 F"
  using assms(1) unfolding good_plan_def
proof
  assume l: "live_plan sc v g p qs E"
  then obtain eqs wins rngs where r: "refs p qs eqs wins rngs"
    "\<forall>x \<in> set eqs. fst x < ndims sc" "\<forall>w \<in> set wins. sorted (seg qs w) \<and> w_dim w < ndims sc"
    "\<forall>w \<in> set rngs. r_dim w < ndims sc \<and> isInt sc (r_dim w)"
    "\<forall>is. ids_ok (view_vals v) is \<longrightarrow>
           (ids_match v eqs (map (\<lambda>w. (w_dim w, seg qs w)) wins) rngs is \<longleftrightarrow>
            group_sat sc (decode (view_vals v) is) g)"
    by (auto simp: live_plan_def)
  note g = refs_grow [OF r(1) assms(2)]
  have m: "map (\<lambda>w. (w_dim w, seg qs1 w)) wins = map (\<lambda>w. (w_dim w, seg qs w)) wins" using g(2) by simp
  have "\<forall>w \<in> set wins. sorted (seg qs1 w) \<and> w_dim w < ndims sc" using r(3) g(2) by simp
  moreover have "\<forall>is. ids_ok (view_vals v) is \<longrightarrow>
           (ids_match v eqs (map (\<lambda>w. (w_dim w, seg qs1 w)) wins) rngs is \<longleftrightarrow>
            group_sat sc (decode (view_vals v) is) g)" unfolding m by (rule r(5))
  moreover have "\<forall>r < srows (v_base v). group_sat sc (decode (view_vals v) (row_of (s_dims (v_base v)) r)) g \<longrightarrow>
        p_basePossible p \<and> (p_scan p \<or> p_lo p \<le> r \<and> r < p_hi p) \<and> (\<exists>x \<in> set F. fst x \<le> r \<and> r < snd x)"
    using l assms(3) unfolding live_plan_def by (meson subsetD)
  ultimately have "live_plan sc v g p qs1 F"
    using l g(1) r(2,4) unfolding live_plan_def by blast
  then show "p_dead p \<and> (\<forall>is. ids_ok (view_vals v) is \<longrightarrow> \<not> group_sat sc (decode (view_vals v) is) g) \<or>
     live_plan sc v g p qs1 F" ..
qed blast

text \<open>The two tests of the sweep, on rows.\<close>

lemma hitDelta_group:
  assumes v: "view_ok sc v" and p: "good_plan sc v g p qs E" and r: "r < drows (v_delta v)"
  shows "hitDelta qs v r p \<longleftrightarrow> group_sat sc (decode (view_vals v) (row_of (d_dims (v_delta v)) r)) g"
proof -
  let ?dims = "d_dims (v_delta v)"
  have ids: "ids_ok (view_vals v) (row_of ?dims r)" using delta_row_ids_ok [OF v r] .
  have len: "length ?dims = ndims sc" using rows_okD(1) [OF view_okD(3) [OF v]] .
  show ?thesis using p unfolding good_plan_def
  proof
    assume "live_plan sc v g p qs E"
    then obtain eqs wins rngs where nd: "\<not> p_dead p" and f: "refs p qs eqs wins rngs"
      "\<forall>x \<in> set eqs. fst x < ndims sc" "\<forall>w \<in> set wins. sorted (seg qs w) \<and> w_dim w < ndims sc"
      "\<forall>w \<in> set rngs. r_dim w < ndims sc \<and> isInt sc (r_dim w)"
      "ids_match v eqs (map (\<lambda>w. (w_dim w, seg qs w)) wins) rngs (row_of ?dims r) \<longleftrightarrow>
            group_sat sc (decode (view_vals v) (row_of ?dims r)) g"
      using ids by (auto simp: live_plan_def)
    have "hitDelta qs v r p \<longleftrightarrow> ids_match v eqs (map (\<lambda>w. (w_dim w, seg qs w)) wins) rngs (row_of ?dims r)"
      unfolding hitDelta_def matchDelta_def ids_match_def
      using nd f len matchConds_refs [OF f(1), of ?dims r] matchIns_refs [OF f(1), of ?dims r]
        matchRanges_refs [OF v f(1) f(4) len ids] by simp
    with f(5) show ?thesis by simp
  qed (use ids in \<open>auto simp: hitDelta_def matchDelta_def\<close>)
qed

lemma hitBase_group:
  assumes v: "view_ok sc v" and p: "good_plan sc v g p qs E" and r: "r < srows (v_base v)"
  shows "hitBase qs v r p \<longleftrightarrow> group_sat sc (decode (view_vals v) (row_of (s_dims (v_base v)) r)) g"
    and "group_sat sc (decode (view_vals v) (row_of (s_dims (v_base v)) r)) g \<Longrightarrow> \<exists>x \<in> set E. fst x \<le> r \<and> r < snd x"
proof -
  let ?dims = "s_dims (v_base v)"
  have ids: "ids_ok (view_vals v) (row_of ?dims r)" using base_row_ids_ok(2) [OF v r] .
  have len: "length ?dims = ndims sc" using rows_okD(1) [OF snap_okD(4) [OF view_okD(1) [OF v]]] .
  have "(hitBase qs v r p \<longleftrightarrow> group_sat sc (decode (view_vals v) (row_of ?dims r)) g) \<and>
    (group_sat sc (decode (view_vals v) (row_of ?dims r)) g \<longrightarrow> (\<exists>x \<in> set E. fst x \<le> r \<and> r < snd x))"
    using p unfolding good_plan_def
  proof
    assume l: "live_plan sc v g p qs E"
    then obtain eqs wins rngs where nd: "\<not> p_dead p" and f: "refs p qs eqs wins rngs"
      "\<forall>x \<in> set eqs. fst x < ndims sc" "\<forall>w \<in> set wins. sorted (seg qs w) \<and> w_dim w < ndims sc"
      "\<forall>w \<in> set rngs. r_dim w < ndims sc \<and> isInt sc (r_dim w)"
      "ids_match v eqs (map (\<lambda>w. (w_dim w, seg qs w)) wins) rngs (row_of ?dims r) \<longleftrightarrow>
            group_sat sc (decode (view_vals v) (row_of ?dims r)) g"
      using ids by (auto simp: live_plan_def)
    have pre: "group_sat sc (decode (view_vals v) (row_of ?dims r)) g \<longrightarrow>
        p_basePossible p \<and> (p_scan p \<or> p_lo p \<le> r \<and> r < p_hi p) \<and> (\<exists>x \<in> set E. fst x \<le> r \<and> r < snd x)"
      using l r by (auto simp: live_plan_def)
    have "hitBase qs v r p \<longleftrightarrow> p_basePossible p \<and> (p_scan p \<or> p_lo p \<le> r \<and> r < p_hi p) \<and>
        ids_match v eqs (map (\<lambda>w. (w_dim w, seg qs w)) wins) rngs (row_of ?dims r)"
      unfolding hitBase_def matchBase_def ids_match_def
      using nd f len matchConds_refs [OF f(1), of ?dims r] matchIns_refs [OF f(1), of ?dims r]
        matchRanges_refs [OF v f(1) f(4) len ids] by auto
    with f(5) pre show ?thesis by blast
  qed (use ids in \<open>auto simp: hitBase_def matchBase_def\<close>)
  then show "hitBase qs v r p \<longleftrightarrow> group_sat sc (decode (view_vals v) (row_of ?dims r)) g"
    and "group_sat sc (decode (view_vals v) (row_of ?dims r)) g \<Longrightarrow> \<exists>x \<in> set E. fst x \<le> r \<and> r < snd x" by blast+
qed

end
