(* ===== verification/Expand.thy ===== *)
theory Expand
  imports Planning
begin

text \<open>
  The index prefix that a group covers and the intervals that \<open>planExpand\<close> emits for it: every
  base row with the group's equalities and IN values lies in one of them, they lie within the
  base, and their number stays within the room left by \<open>reserve\<close>.
\<close>

section \<open>Equalities on index dimensions\<close>

definition eq_upd :: "nat \<Rightarrow> nat \<times> u32 \<Rightarrow> u32 option list \<Rightarrow> u32 option list" where
  "eq_upd I x a = (if fst x < I then a[fst x := Some (snd x)] else a)"

lemma fold_eq_upd:
  "length (fold (eq_upd I) eqs a) = length a \<and>
   (\<forall>d i. d < length a \<longrightarrow> fold (eq_upd I) eqs a ! d = Some i \<longrightarrow> (d, i) \<in> set eqs \<or> a ! d = Some i)"
proof (induction eqs arbitrary: a)
  case (Cons x eqs)
  have l: "length (eq_upd I x a) = length a" by (simp add: eq_upd_def)
  have n: "eq_upd I x a ! d = Some i \<Longrightarrow> d < length a \<Longrightarrow> (d, i) = x \<or> a ! d = Some i" for d i
    by (cases x; cases "fst x = d") (auto simp: eq_upd_def split: if_splits)
  show ?case using Cons.IH [of "eq_upd I x a"] n by (auto simp: l)
qed simp

lemma eqPrefix_fold:
  assumes "refs p qs eqs wins rngs"
  shows "eqPrefix sc p qs = fold (eq_upd (idx_dims sc)) eqs (replicate maxDims None)"
proof -
  have n: "p_condN p = length eqs" using assms by (simp add: refs_def)
  have "eqPrefix sc p qs = fold (\<lambda>i. eq_upd (idx_dims sc) (eqs ! i)) [0..<length eqs] (replicate maxDims None)"
    unfolding eqPrefix_def n Let_def
    by (rule fold_upt_cong) (simp add: refs_nth [OF assms] eq_upd_def fun_eq_iff)
  then show ?thesis by (simp only: fold_nth)
qed

lemma eqPrefix_Some:
  assumes "refs p qs eqs wins rngs" "d < maxDims" "eqPrefix sc p qs ! d = Some i"
  shows "(d, i) \<in> set eqs"
  using fold_eq_upd [of "idx_dims sc" eqs "replicate maxDims None"] assms(2,3)
  by (simp add: eqPrefix_fold [OF assms(1)])

section \<open>Candidates of IN conditions\<close>

definition cand_upd :: "nat \<Rightarrow> (nat \<Rightarrow> u32) \<Rightarrow> u32 option list \<Rightarrow> (inWindow \<Rightarrow> u32 list) \<Rightarrow> inWindow
    \<Rightarrow> (nat \<times> nat) list \<Rightarrow> (nat \<times> nat) list" where
  "cand_upd I B eq S w a =
     (if \<not> w_dim w < I \<or> eq ! w_dim w \<noteq> None \<or> snd (a ! w_dim w) \<noteq> 0 then a
      else a[w_dim w := (w_off w, fst (binary_search (S w) (B (w_dim w))))])"

lemma fold_cand_upd:
  "length (fold (cand_upd I B eq S) wins a) = length a \<and>
   (\<forall>d < length a. fold (cand_upd I B eq S) wins a ! d = a ! d \<or>
      (\<exists>w \<in> set wins. w_dim w = d \<and>
         fold (cand_upd I B eq S) wins a ! d = (w_off w, fst (binary_search (S w) (B d)))))"
proof (induction wins arbitrary: a)
  case (Cons w wins)
  have l: "length (cand_upd I B eq S w a) = length a" by (simp add: cand_upd_def)
  have n: "cand_upd I B eq S w a ! d = a ! d \<or> w_dim w = d \<and>
      cand_upd I B eq S w a ! d = (w_off w, fst (binary_search (S w) (B d)))" if "d < length a" for d
    using that by (cases "w_dim w = d") (auto simp: cand_upd_def)
  show ?case using Cons.IH [of "cand_upd I B eq S w a"] n by (fastforce simp: l)
qed simp

lemma candidates_fold:
  assumes "refs p qs eqs wins rngs"
  shows "candidates sc v p qs eq =
    fold (cand_upd (idx_dims sc) (\<lambda>d. of_nat (dlen (s_dicts (v_base v) ! d))) eq (seg qs)) wins (replicate maxDims (0, 0))"
proof -
  have n: "p_insN p = length wins" using assms by (simp add: refs_def)
  have "candidates sc v p qs eq =
    fold (\<lambda>i. cand_upd (idx_dims sc) (\<lambda>d. of_nat (dlen (s_dicts (v_base v) ! d))) eq (seg qs) (wins ! i))
      [0..<length wins] (replicate maxDims (0, 0))"
    unfolding candidates_def n Let_def
    by (rule fold_upt_cong) (simp add: refs_win [OF assms] cand_upd_def seg_def fun_eq_iff)
  then show ?thesis by (simp only: fold_nth)
qed

lemma candidates_window:
  assumes "refs p qs eqs wins rngs" "d < maxDims" "snd (candidates sc v p qs eq ! d) \<noteq> 0"
  obtains w where "w \<in> set wins" "w_dim w = d"
    "candidates sc v p qs eq ! d =
       (w_off w, fst (binary_search (seg qs w) (of_nat (dlen (s_dicts (v_base v) ! d)))))"
  using fold_cand_upd [of "idx_dims sc" "\<lambda>d. of_nat (dlen (s_dicts (v_base v) ! d))" eq "seg qs" wins
      "replicate maxDims (0, 0)"] assms(2,3) that
  unfolding candidates_fold [OF assms(1)] by fastforce

text \<open>The candidates are the ids of the window that a base row can carry.\<close>

lemma candidates_ids:
  assumes r: "refs p qs eqs wins rngs" and d: "d < maxDims" and s: "\<forall>w \<in> set wins. sorted (seg qs w)"
    and len: "dlen (s_dicts (v_base v) ! d) < 2 ^ 32"
    and c: "candidates sc v p qs eq ! d = (off, n)" "n \<noteq> 0"
  shows "\<exists>w \<in> set wins. w_dim w = d \<and>
    (\<forall>x. unat x < dlen (s_dicts (v_base v) ! d) \<and> x \<in> set (seg qs w) \<longleftrightarrow> (\<exists>j < n. q_inPool qs ! (off + j) = x))"
proof -
  let ?b = "of_nat (dlen (s_dicts (v_base v) ! d)) :: u32"
  have ub: "unat ?b = dlen (s_dicts (v_base v) ! d)" using len by (rule unat_of_nat_u32)
  have "snd (candidates sc v p qs eq ! d) \<noteq> 0" using c by simp
  then obtain w where w: "w \<in> set wins" "w_dim w = d" "off = w_off w" "n = fst (binary_search (seg qs w) ?b)"
    using candidates_window [OF r d] c(1) by (metis prod.inject)
  have sw: "sorted (seg qs w)" using s w(1) by blast
  have n: "n \<le> length (seg qs w)" unfolding w(4) by (rule binary_search_le [OF sw])
  have at: "q_inPool qs ! (off + j) = seg qs w ! j" if "j < length (seg qs w)" for j
    using that w(3) by (auto simp: seg_def less_diff_conv add.commute)
  have lt: "j < n \<longleftrightarrow> unat (seg qs w ! j) < dlen (s_dicts (v_base v) ! d)" if "j < length (seg qs w)" for j
    using binary_search_pos [OF sw that, of ?b] ub w(4) by (simp add: word_le_nat_alt not_le [symmetric])
  have "unat x < dlen (s_dicts (v_base v) ! d) \<and> x \<in> set (seg qs w) \<longleftrightarrow> (\<exists>j < n. q_inPool qs ! (off + j) = x)" for x
  proof
    assume x: "unat x < dlen (s_dicts (v_base v) ! d) \<and> x \<in> set (seg qs w)"
    then obtain j where j: "j < length (seg qs w)" "seg qs w ! j = x" by (auto simp: in_set_conv_nth)
    then have "j < n" using lt [OF j(1)] x by simp
    then show "\<exists>j < n. q_inPool qs ! (off + j) = x" using at [OF j(1)] j(2) by auto
  next
    assume "\<exists>j < n. q_inPool qs ! (off + j) = x"
    then obtain j where j: "j < n" "q_inPool qs ! (off + j) = x" by blast
    then have l: "j < length (seg qs w)" using n by simp
    then have "seg qs w ! j = x" using at [OF l] j(2) by simp
    then show "unat x < dlen (s_dicts (v_base v) ! d) \<and> x \<in> set (seg qs w)"
      using lt [OF l] j(1) nth_mem [OF l] by simp
  qed
  with w(1,2) show ?thesis by blast
qed

section \<open>The cost crossover\<close>

lemma comboLoop_spec:
  assumes "comboLoop I eq cand nRows rm combos k = (c, k1)"
    and "combos = odoSize eq cand k" "k \<le> I" "int combos \<le> rm" "\<forall>d < k. 0 < radix eq cand d"
  shows "c = odoSize eq cand k1 \<and> k1 \<le> I \<and> int c \<le> rm \<and> (\<forall>d < k1. 0 < radix eq cand d)"
  using assms
proof (induction "I - k" arbitrary: combos k rule: less_induct)
  case less
  show ?case
  proof (cases "k < I \<and> (eq ! k \<noteq> None \<or> snd (cand ! k) \<noteq> 0 \<and>
      \<not> (combos * snd (cand ! k) * bits_len nRows > nRows \<or> int (combos * snd (cand ! k)) > rm))")
    case False
    then have "comboLoop I eq cand nRows rm combos k = (combos, k)"
      by (subst comboLoop.simps) (auto simp: Let_def)
    with less.prems show ?thesis by simp
  next
    case True
    let ?n = "combos * radix eq cand k"
    have step: "comboLoop I eq cand nRows rm combos k = comboLoop I eq cand nRows rm ?n (k + 1)"
      using True by (subst comboLoop.simps) (auto simp: Let_def radix_def)
    have pre: "?n = odoSize eq cand (k + 1)" "k + 1 \<le> I" "\<forall>d < k + 1. 0 < radix eq cand d"
      using True less.prems by (auto simp: radix_def less_Suc_eq)
    have "int ?n \<le> rm" using True less.prems(4) by (cases "eq ! k = None") (auto simp: radix_def)
    with pre less.prems(1) show ?thesis unfolding step using True by (intro less.hyps) auto
  qed
qed

section \<open>What a plan covers\<close>

text \<open>Each base row with these equalities and IN values lies in an interval of \<open>E\<close> and passes
  the prefilter of \<open>p\<close>.\<close>

definition row_fits :: "queryScratch \<Rightarrow> (nat \<times> u32) list \<Rightarrow> inWindow list \<Rightarrow> u32 list \<Rightarrow> bool" where
  "row_fits qs eqs wins is \<longleftrightarrow>
     (\<forall>x \<in> set eqs. is ! fst x = snd x) \<and> (\<forall>w \<in> set wins. is ! w_dim w \<in> set (seg qs w))"

definition cover :: "view \<Rightarrow> queryScratch \<Rightarrow> (nat \<times> u32) list \<Rightarrow> inWindow list \<Rightarrow> gplan \<Rightarrow> iv list \<Rightarrow> bool" where
  "cover v qs eqs wins p E \<longleftrightarrow>
     (\<forall>r < srows (v_base v). row_fits qs eqs wins (row_of (s_dims (v_base v)) r) \<longrightarrow>
        (p_scan p \<or> p_lo p \<le> r \<and> r < p_hi p) \<and> (\<exists>x \<in> set E. fst x \<le> r \<and> r < snd x))"

definition emitted :: "view \<Rightarrow> queryScratch \<Rightarrow> nat \<Rightarrow> iv list \<Rightarrow> bool" where
  "emitted v qs reserve E \<longleftrightarrow> length (q_ivs qs) + length E + reserve \<le> k_ivs (q_caps qs) \<and>
     (\<forall>x \<in> set E. fst x < snd x \<and> snd x \<le> srows (v_base v))"

definition same_plan :: "gplan \<Rightarrow> gplan \<Rightarrow> bool" where
  "same_plan p p1 \<longleftrightarrow> p1 = p\<lparr>p_lo := p_lo p1, p_hi := p_hi p1, p_scan := p_scan p1\<rparr>"

definition plan_out :: "view \<Rightarrow> queryScratch \<Rightarrow> nat \<Rightarrow> (nat \<times> u32) list \<Rightarrow> inWindow list \<Rightarrow> gplan
    \<Rightarrow> err + (gplan \<times> queryScratch) \<Rightarrow> bool" where
  "plan_out v qs reserve eqs wins p res \<longleftrightarrow>
     (\<exists>p1 E. res = Inr (p1, qs\<lparr>q_ivs := q_ivs qs @ E\<rparr>) \<and> emitted v qs reserve E \<and> same_plan p p1 \<and>
        cover v qs eqs wins p1 E)"

lemma scanAll_out:
  assumes "length (q_ivs qs) + 1 + reserve \<le> k_ivs (q_caps qs)"
  shows "plan_out v qs reserve eqs wins p (scanAll (v_base v) p qs)"
proof -
  define E :: "iv list" where "E = (if srows (v_base v) > 0 then [(0, srows (v_base v))] else [])"
  have "scanAll (v_base v) p qs = Inr (p\<lparr>p_scan := True\<rparr>, qs\<lparr>q_ivs := q_ivs qs @ E\<rparr>)"
    using assms by (simp add: scanAll_def push_iv_def push_def E_def Let_def)
  moreover have "emitted v qs reserve E" using assms by (simp add: emitted_def E_def)
  moreover have "same_plan p (p\<lparr>p_scan := True\<rparr>)" by (simp add: same_plan_def)
  moreover have "cover v qs eqs wins (p\<lparr>p_scan := True\<rparr>) E" by (simp add: cover_def E_def)
  ultimately show ?thesis unfolding plan_out_def by blast
qed

lemma base_row_id:
  assumes "view_ok sc v" "r < srows (v_base v)" "d < ndims sc"
  shows "unat (row_of (s_dims (v_base v)) r ! d) < dlen (s_dicts (v_base v) ! d)"
proof -
  have "length (s_dicts (v_base v)) = ndims sc" using view_ok_lengths [OF assms(1)] by simp
  then show ?thesis
    using ids_okD(2) [OF base_row_ids_ok(1) [OF assms(1,2)], of d] assms(3) by (simp add: snap_vals_def)
qed

lemma dlen_base: "view_ok sc v \<Longrightarrow> d < ndims sc \<Longrightarrow> dlen (s_dicts (v_base v) ! d) < 2 ^ 32"
  using extras_okD(2) [OF view_okD(2)] by (fastforce simp: comb_ok_def)

section \<open>The expansion\<close>

lemma odo_zero:
  "k \<le> n \<Longrightarrow> \<forall>d < k. 0 < radix eq cand d \<Longrightarrow> odo_ok eq cand k (replicate n 0) \<and> odoVal eq cand (replicate n 0) k = 0"
  by (induction k) (auto simp: odo_ok_def digit_def)

lemma comboIds_nth:
  "d < k \<Longrightarrow> comboIds qs eq cand k idx ! d =
     (case eq ! d of Some i \<Rightarrow> i | None \<Rightarrow> q_inPool qs ! (fst (cand ! d) + idx ! d))"
  by (simp add: comboIds_def split: option.splits)

text \<open>What the planner has resolved when it expands: base ids for the equalities, sorted windows.\<close>

definition resolved :: "schema \<Rightarrow> view \<Rightarrow> gplan \<Rightarrow> queryScratch \<Rightarrow> (nat \<times> u32) list \<Rightarrow> inWindow list \<Rightarrow> rangeWindow list \<Rightarrow> bool" where
  "resolved sc v p qs eqs wins rngs \<longleftrightarrow> refs p qs eqs wins rngs \<and>
     (\<forall>x \<in> set eqs. fst x < ndims sc \<and> unat (snd x) < dlen (s_dicts (v_base v) ! fst x)) \<and>
     (\<forall>w \<in> set wins. sorted (seg qs w) \<and> w_dim w < ndims sc)"

lemma resolved_refs: "resolved sc v p qs eqs wins rngs \<Longrightarrow> refs p qs eqs wins rngs"
  by (simp add: resolved_def)

text \<open>Every combination consists of base ids, and each base row that fits is one of them.\<close>

lemma combos_base:
  assumes v: "view_ok sc v" and r: "resolved sc v p qs eqs wins rngs"
    and d: "d < k" "k \<le> idx_dims sc" and pos: "\<forall>d < k. 0 < radix eq cand d"
    and eq: "eq = eqPrefix sc p qs" and cand: "cand = candidates sc v p qs eq"
    and i: "odo_ok eq cand k i"
  shows "unat (comboIds qs eq cand k i ! d) < dlen (s_dicts (v_base v) ! d)"
proof -
  have I: "idx_dims sc \<le> ndims sc" "ndims sc \<le> maxDims"
    using schema_okD [OF snap_okD(1) [OF view_okD(1) [OF v]]] by (simp_all add: maxDims_def)
  show ?thesis
  proof (cases "eq ! d")
    case (Some x)
    then have "(d, x) \<in> set eqs" using eqPrefix_Some [OF resolved_refs [OF r]] d I eq by simp
    then show ?thesis using r Some d(1) by (auto simp: resolved_def comboIds_nth)
  next
    case None
    obtain off n where c: "cand ! d = (off, n)" by (cases "cand ! d")
    have n: "n \<noteq> 0" "i ! d < n" using pos d(1) i None c by (auto simp: radix_def odo_ok_def digit_def)
    have "\<exists>j < n. q_inPool qs ! (off + j) = q_inPool qs ! (off + i ! d)" using n(2) by blast
    then show ?thesis
      using candidates_ids [OF resolved_refs [OF r], of d v sc eq off n] c n(1) cand r d I dlen_base [OF v]
      by (auto simp: resolved_def comboIds_nth None)
  qed
qed

lemma combos_complete:
  assumes v: "view_ok sc v" and r: "resolved sc v p qs eqs wins rngs"
    and k: "k \<le> idx_dims sc" and pos: "\<forall>d < k. 0 < radix eq cand d"
    and eq: "eq = eqPrefix sc p qs" and cand: "cand = candidates sc v p qs eq"
    and row: "row_fits qs eqs wins is" "length is = ndims sc"
    and base: "\<And>d. d < ndims sc \<Longrightarrow> unat (is ! d) < dlen (s_dicts (v_base v) ! d)"
  shows "\<exists>i. odo_ok eq cand k i \<and> comboIds qs eq cand k i = take k is"
proof -
  have I: "idx_dims sc \<le> ndims sc" "ndims sc \<le> maxDims"
    using schema_okD [OF snap_okD(1) [OF view_okD(1) [OF v]]] by (simp_all add: maxDims_def)
  have "\<exists>j. eq ! d = None \<longrightarrow> j < snd (cand ! d) \<and> q_inPool qs ! (fst (cand ! d) + j) = is ! d" if d: "d < k" for d
  proof (cases "eq ! d = None")
    case True
    obtain off n where c: "cand ! d = (off, n)" by (cases "cand ! d")
    have n: "n \<noteq> 0" using pos d True c by (auto simp: radix_def)
    have "\<exists>w \<in> set wins. w_dim w = d \<and>
      (\<forall>x. unat x < dlen (s_dicts (v_base v) ! d) \<and> x \<in> set (seg qs w) \<longleftrightarrow> (\<exists>j < n. q_inPool qs ! (off + j) = x))"
      using c n cand r d k I dlen_base [OF v] by (intro candidates_ids [OF resolved_refs [OF r]]) (auto simp: resolved_def)
    then have "\<exists>j < n. q_inPool qs ! (off + j) = is ! d" using row(1) base [of d] d k I by (auto simp: row_fits_def)
    then show ?thesis using c by auto
  next
    case False
    then show ?thesis by (intro exI [of _ 0] impI) (rule notE)
  qed
  then obtain f where f: "\<And>d. d < k \<Longrightarrow> eq ! d = None \<Longrightarrow>
      f d < snd (cand ! d) \<and> q_inPool qs ! (fst (cand ! d) + f d) = is ! d" by metis
  have "odo_ok eq cand k (map f [0..<k])" using f pos by (auto simp: odo_ok_def digit_def radix_def)
  moreover have "comboIds qs eq cand k (map f [0..<k]) = take k is"
  proof (rule nth_equalityI)
    show "length (comboIds qs eq cand k (map f [0..<k])) = length (take k is)"
      using k I row(2) by (simp add: comboIds_def)
    show "comboIds qs eq cand k (map f [0..<k]) ! d = take k is ! d"
      if "d < length (comboIds qs eq cand k (map f [0..<k]))" for d
    proof -
      have d: "d < k" using that by (simp add: comboIds_def)
      show ?thesis
      proof (cases "eq ! d")
        case None
        then show ?thesis using f [OF d] d by (simp add: comboIds_nth)
      next
        case (Some x)
        then have "(d, x) \<in> set eqs" using eqPrefix_Some [OF resolved_refs [OF r]] d k I eq by simp
        then show ?thesis using row(1) Some d by (auto simp: row_fits_def comboIds_nth)
      qed
    qed
  qed
  ultimately show ?thesis by blast
qed

lemma planExpand_out:
  assumes v: "view_ok sc v" and r: "resolved sc v p qs eqs wins rngs"
    and room: "length (q_ivs qs) + 1 + reserve \<le> k_ivs (q_caps qs)"
  shows "\<exists>res. planExpand sc v p qs reserve = Some res \<and> plan_out v qs reserve eqs wins p res"
proof -
  let ?base = "v_base v"
  define eq where "eq = eqPrefix sc p qs"
  define cand where "cand = candidates sc v p qs eq"
  define rm where "rm = int (k_ivs (q_caps qs)) - int (length (q_ivs qs)) - int reserve"
  obtain c k where loop: "comboLoop (idx_dims sc) eq cand (srows ?base) rm 1 0 = (c, k)"
    by (cases "comboLoop (idx_dims sc) eq cand (srows ?base) rm 1 0")
  have ck: "c = odoSize eq cand k" "k \<le> idx_dims sc" "int c \<le> rm" and pos: "\<forall>d < k. 0 < radix eq cand d"
    using comboLoop_spec [OF loop] room by (auto simp: rm_def)
  have run: "planExpand sc v p qs reserve =
      (if k = 0 then Some (scanAll ?base p qs) else expandLoop c ?base eq cand k (replicate maxDims 0) p qs)"
    using loop by (simp add: planExpand_def Let_def eq_def cand_def rm_def)
  show ?thesis
  proof (cases "k = 0")
    case True
    then show ?thesis using run scanAll_out [OF room] by simp
  next
    case False
    have s: "snap_ok sc ?base" using view_okD(1) [OF v] .
    have I: "idx_dims sc \<le> ndims sc" "k \<le> maxDims"
      using schema_okD [OF snap_okD(1) [OF s]] ck(2) by (simp_all add: maxDims_def)
    note z = odo_zero [OF I(2) pos]
    have len: "length (comboIds qs eq cand k i) = k" for i by (simp add: comboIds_def)
    have ids: "unat (comboIds qs eq cand k i ! d) < dlen (s_dicts ?base ! d)" if "odo_ok eq cand k i" "d < k" for i d
      using combos_base [OF v r that(2) ck(2) pos eq_def cand_def that(1)] .
    have c: "c = odoSize eq cand k - odoVal eq cand (replicate maxDims 0) k"
      "length (q_ivs qs) + c \<le> k_ivs (q_caps qs)" using ck z by (auto simp: rm_def)
    obtain p1 E where out: "expandLoop c ?base eq cand k (replicate maxDims 0) p qs =
        Some (Inr (p1, qs\<lparr>q_ivs := q_ivs qs @ E\<rparr>))" "hull_of p p1 E" "length E \<le> c"
      and E: "\<forall>x. x \<in> set E \<longleftrightarrow> fst x < snd x \<and>
        (\<exists>i. odo_ok eq cand k i \<and> x = keyInterval ?base (comboIds qs eq cand k i))"
      using expandLoop_spec [OF conjunct1 [OF z] c, of ?base p] z by auto
    have "snd x \<le> srows ?base" if x: "x \<in> set E" for x
    proof -
      obtain i where "odo_ok eq cand k i" "x = keyInterval ?base (comboIds qs eq cand k i)" using E x by blast
      with keyInterval_rows(2) [OF s, of "comboIds qs eq cand k i"] show ?thesis
        using ids [of i] len [of i] False ck(2) by simp
    qed
    then have em: "emitted v qs reserve E" using E out(3) ck(3) by (auto simp: emitted_def rm_def)
    have sp: "same_plan p p1"
      using out(2) by (simp add: hull_of_def same_plan_def)
    have cov: "cover v qs eqs wins p1 E" unfolding cover_def
    proof (intro allI impI)
      fix r0 assume r0: "r0 < srows ?base" and fits: "row_fits qs eqs wins (row_of (s_dims ?base) r0)"
      let ?is = "row_of (s_dims ?base) r0"
      have l: "length ?is = ndims sc" using rows_okD(1) [OF snap_okD(4) [OF s]] by simp
      obtain i where i: "odo_ok eq cand k i" "comboIds qs eq cand k i = take k ?is"
        using combos_complete [OF v r ck(2) pos eq_def cand_def fits l base_row_id [OF v r0]] by blast
      let ?x = "keyInterval ?base (take k ?is)"
      have "length (take k ?is) = k" using len [of i] i(2) by simp
      then have "fst ?x \<le> r0 \<and> r0 < snd ?x"
        using keyInterval_rows(3) [OF s, of "take k ?is" r0] ids [OF i(1)] i(2) False ck(2) r0 by simp
      moreover from this have "?x \<in> set E" using E i by (metis order_le_less_trans)
      ultimately show "(p_scan p1 \<or> p_lo p1 \<le> r0 \<and> r0 < p_hi p1) \<and> (\<exists>x \<in> set E. fst x \<le> r0 \<and> r0 < snd x)"
        using out(2) by (auto simp: hull_of_def)
    qed
    show ?thesis using run False out(1) em sp cov unfolding plan_out_def by auto
  qed
qed

end
