(* ===== verification/PlanSound.thy ===== *)
theory PlanSound
  imports Expand
begin

text \<open>
  Correctness of \<open>plan\<close> for one OR-group: it always returns, its error is that of one of the
  conditions, it stays within the pools and leaves \<open>reserve\<close> interval slots free, and the plan
  it returns matches exactly the rows of the group.
\<close>

lemma skip_all: "i \<le> d \<Longrightarrow> d < skip n f i \<Longrightarrow> f d"
proof (induction n f i rule: skip.induct)
  case (1 n f i)
  then show ?case by (cases "i < n \<and> f i"; cases "d = i") (auto simp: skip.simps [of n f i])
qed

lemma skip_le: "i \<le> n \<Longrightarrow> skip n f i \<le> n"
proof (induction n f i rule: skip.induct)
  case (1 n f i)
  then show ?case by (cases "i < n \<and> f i") (auto simp: skip.simps [of n f i])
qed

lemma same_plan_fields:
  assumes "same_plan p p1"
  shows "p_condOff p1 = p_condOff p" "p_condN p1 = p_condN p" "p_insOff p1 = p_insOff p" "p_insN p1 = p_insN p"
    "p_rngOff p1 = p_rngOff p" "p_rngN p1 = p_rngN p" "p_dead p1 = p_dead p" "p_basePossible p1 = p_basePossible p"
  using assms unfolding same_plan_def by (cases p; cases p1; simp)+

lemma same_plan_refs: "same_plan p p1 \<Longrightarrow> refs p1 qs eqs wins rngs \<longleftrightarrow> refs p qs eqs wins rngs"
  by (simp add: refs_def insView_def rngsView_def same_plan_fields)

lemma refs_ivs [simp]: "refs p (qs\<lparr>q_ivs := xs\<rparr>) eqs wins rngs \<longleftrightarrow> refs p qs eqs wins rngs"
  by (simp add: refs_def insView_def rngsView_def)

lemma refs_basePossible [simp]: "refs (p\<lparr>p_basePossible := b\<rparr>) qs eqs wins rngs \<longleftrightarrow> refs p qs eqs wins rngs"
  by (simp add: refs_def insView_def rngsView_def)

lemma seg_ivs [simp]: "seg (qs\<lparr>q_ivs := xs\<rparr>) w = seg qs w"
  by (simp add: seg_def)

section \<open>A prefix of equalities\<close>

definition prefixTail :: "schema \<Rightarrow> view \<Rightarrow> gplan \<Rightarrow> queryScratch \<Rightarrow> err + (gplan \<times> queryScratch)" where
  "prefixTail sc v p qs =
     (let pref = eqPrefix sc p qs; k = skip (idx_dims sc) (\<lambda>k. pref ! k \<noteq> None) 0
      in if k = 0 then scanAll (v_base v) p qs
         else
           let (lo, hi) = keyInterval (v_base v) (map (\<lambda>i. the (pref ! i)) [0..<k]); p3 = p\<lparr>p_lo := lo, p_hi := hi\<rparr>
           in if lo < hi then (case push_iv (lo, hi) qs of Inl e \<Rightarrow> Inl e | Inr qs2 \<Rightarrow> Inr (p3, qs2))
              else Inr (p3, qs))"

lemma plan_tail:
  "(let pref = eqPrefix sc p qs; k = skip (idx_dims sc) (\<lambda>k. pref ! k \<noteq> None) 0
      in if k = 0 then Some (scanAll (v_base v) p qs)
         else
           let (lo, hi) = keyInterval (v_base v) (map (\<lambda>i. the (pref ! i)) [0..<k]); p3 = p\<lparr>p_lo := lo, p_hi := hi\<rparr>
           in if lo < hi then (case push_iv (lo, hi) qs of Inl e \<Rightarrow> Some (Inl e) | Inr qs2 \<Rightarrow> Some (Inr (p3, qs2)))
              else Some (Inr (p3, qs))) = Some (prefixTail sc v p qs)"
  by (simp add: prefixTail_def Let_def split: prod.splits sum.splits)

lemma prefixTail_out:
  assumes v: "view_ok sc v" and r: "resolved sc v p qs eqs wins rngs"
    and room: "length (q_ivs qs) + 1 + reserve \<le> k_ivs (q_caps qs)"
  shows "plan_out v qs reserve eqs wins p (prefixTail sc v p qs)"
proof -
  define pref where "pref = eqPrefix sc p qs"
  define k where "k = skip (idx_dims sc) (\<lambda>k. pref ! k \<noteq> None) 0"
  show ?thesis
  proof (cases "k = 0")
    case True
    then show ?thesis using scanAll_out [OF room] by (simp add: prefixTail_def pref_def k_def Let_def)
  next
    case False
    have s: "snap_ok sc (v_base v)" using view_okD(1) [OF v] .
    have k: "k \<le> idx_dims sc" unfolding k_def by (rule skip_le) simp
    have I: "idx_dims sc \<le> ndims sc" "k \<le> maxDims"
      using schema_okD [OF snap_okD(1) [OF s]] k by (simp_all add: maxDims_def)
    have e: "(d, the (pref ! d)) \<in> set eqs" if "d < k" for d
    proof -
      have "pref ! d \<noteq> None" using skip_all [of 0 d "idx_dims sc" "\<lambda>k. pref ! k \<noteq> None"] that by (simp add: k_def)
      then show ?thesis using eqPrefix_Some [OF resolved_refs [OF r], of d sc] that I by (auto simp: pref_def)
    qed
    define ids where "ids = map (\<lambda>i. the (pref ! i)) [0..<k]"
    have len: "length ids = k" by (simp add: ids_def)
    have nth: "ids ! d = the (pref ! d)" if "d < k" for d using that by (simp add: ids_def)
    have ok: "unat (ids ! d) < dlen (s_dicts (v_base v) ! d)" if "d < length ids" for d
      using that e [of d] r nth by (auto simp: resolved_def len)
    obtain lo hi where iv: "keyInterval (v_base v) ids = (lo, hi)" by (cases "keyInterval (v_base v) ids")
    have rows: "hi \<le> srows (v_base v)"
      "r < srows (v_base v) \<Longrightarrow> lo \<le> r \<and> r < hi \<longleftrightarrow> take k (row_of (s_dims (v_base v)) r) = ids" for r
      using keyInterval_rows(2,3) [OF s _ _ ok] k False len iv by auto
    define E where "E = (if lo < hi then [(lo, hi)] else [])"
    let ?p = "p\<lparr>p_lo := lo, p_hi := hi\<rparr>"
    have "prefixTail sc v p qs = Inr (?p, qs\<lparr>q_ivs := q_ivs qs @ E\<rparr>)"
      using False iv room
      unfolding prefixTail_def Let_def pref_def [symmetric] k_def [symmetric] ids_def [symmetric]
      by (simp add: push_iv_def push_def E_def)
    moreover have "emitted v qs reserve E" using room rows(1) by (simp add: emitted_def E_def)
    moreover have "same_plan p ?p" by (simp add: same_plan_def)
    moreover have "cover v qs eqs wins ?p E" unfolding cover_def
    proof (intro allI impI)
      fix r0 assume r0: "r0 < srows (v_base v)" and fits: "row_fits qs eqs wins (row_of (s_dims (v_base v)) r0)"
      let ?is = "row_of (s_dims (v_base v)) r0"
      have l: "length ?is = ndims sc" using rows_okD(1) [OF snap_okD(4) [OF s]] by simp
      have "take k ?is = ids"
      proof (rule nth_equalityI)
        show "take k ?is ! d = ids ! d" if "d < length (take k ?is)" for d
          using that e [of d] fits nth by (auto simp: row_fits_def)
      qed (use k I l len in simp)
      then have "lo \<le> r0 \<and> r0 < hi" using rows(2) [OF r0] by simp
      then show "(p_scan ?p \<or> p_lo ?p \<le> r0 \<and> r0 < p_hi ?p) \<and> (\<exists>x \<in> set E. fst x \<le> r0 \<and> r0 < snd x)"
        by (simp add: E_def)
    qed
    ultimately show ?thesis unfolding plan_out_def by blast
  qed
qed

section \<open>From the pools to the group\<close>

lemma planned_refs:
  assumes "planned sc v g qs qs1 eqs wins rngs" "length (q_condIDs qs) = length (q_condDims qs)"
  shows "refs (p\<lparr>p_condOff := length (q_condDims qs), p_condN := length (q_condDims qs1) - length (q_condDims qs),
      p_insOff := length (q_inWins qs), p_insN := length (q_inWins qs1) - length (q_inWins qs),
      p_rngOff := length (q_rWins qs), p_rngN := length (q_rWins qs1) - length (q_rWins qs)\<rparr>) qs1 eqs wins rngs"
proof -
  have p: "q_condDims qs1 = q_condDims qs @ map fst eqs" "q_condIDs qs1 = q_condIDs qs @ map snd eqs"
    "q_inWins qs1 = q_inWins qs @ wins" "q_rWins qs1 = q_rWins qs @ rngs"
    "\<forall>w \<in> set wins. w_off w + w_n w \<le> length (q_inPool qs1)"
    using assms by (auto simp: planned_def)
  show ?thesis using assms(2) p(5) by (simp add: refs_def insView_def rngsView_def p(1-4))
qed

lemma row_fits_sat:
  assumes "planned sc v g qs qs1 eqs wins rngs" "ids_ok (view_vals v) is" "group_sat sc (decode (view_vals v) is) g"
  shows "row_fits qs1 eqs wins is"
proof -
  have "ids_match v eqs (map (\<lambda>w. (w_dim w, seg qs1 w)) wins) rngs is" using assms by (simp add: planned_def)
  then show ?thesis by (auto simp: row_fits_def ids_match_def)
qed

lemma live_planI:
  assumes v: "view_ok sc v" and p: "planned sc v g qs qs1 eqs wins rngs" "refs p1 qs1 eqs wins rngs" "\<not> p_dead p1"
    and cov: "\<And>r. r < srows (v_base v) \<Longrightarrow> row_fits qs1 eqs wins (row_of (s_dims (v_base v)) r) \<Longrightarrow>
      p_basePossible p1 \<and> (p_scan p1 \<or> p_lo p1 \<le> r \<and> r < p_hi p1) \<and> (\<exists>x \<in> set E. fst x \<le> r \<and> r < snd x)"
  shows "live_plan sc v g p1 qs1 E"
  unfolding live_plan_def
proof (intro conjI exI [of _ eqs] exI [of _ wins] exI [of _ rngs] allI impI)
  show "\<forall>x \<in> set eqs. fst x < ndims sc" "\<forall>w \<in> set wins. sorted (seg qs1 w) \<and> w_dim w < ndims sc"
    "\<forall>w \<in> set rngs. r_dim w < ndims sc \<and> isInt sc (r_dim w)" using p(1) by (auto simp: planned_def)
  show "ids_match v eqs (map (\<lambda>w. (w_dim w, seg qs1 w)) wins) rngs is = group_sat sc (decode (view_vals v) is) g"
    if "ids_ok (view_vals v) is" for "is" using p(1) that by (simp add: planned_def)
qed (use p cov row_fits_sat [OF p(1) base_row_ids_ok(2) [OF v]] in blast)+

section \<open>One group\<close>

lemma planIn_frame:
  "planIn sc v di name rest ab qs = Inr (ab1, qs1) \<Longrightarrow> q_condDims qs1 = q_condDims qs \<and> q_condIDs qs1 = q_condIDs qs"
  by (induction rest arbitrary: ab qs) (auto simp: push_in_def push_def split: sum.splits option.splits if_splits)

lemma planCond_lengths:
  assumes "planCond sc v c p qs = Inr (dead, p1, qs1)" "length (q_condIDs qs) = length (q_condDims qs)"
  shows "length (q_condIDs qs1) = length (q_condDims qs1)"
  using assms
  by (auto simp: planCond_def push_range_def push_win_def push_cond_def push_def Let_def dest!: planIn_frame
      split: option.splits sum.splits if_splits)

lemma planConds_lengths:
  "planConds sc v cs p qs = Inr (dead, p1, qs1) \<Longrightarrow> length (q_condIDs qs) = length (q_condDims qs) \<Longrightarrow>
   length (q_condIDs qs1) = length (q_condDims qs1)"
proof (induction cs arbitrary: p qs)
  case (Cons c cs)
  then show ?case by (auto split: sum.splits if_splits dest: planCond_lengths)
qed simp

definition plan_ok :: "schema \<Rightarrow> view \<Rightarrow> cond list \<Rightarrow> queryScratch \<Rightarrow> nat \<Rightarrow> err + (gplan \<times> queryScratch) \<Rightarrow> bool" where
  "plan_ok sc v g qs reserve res \<longleftrightarrow>
     (case res of
        Inl e \<Rightarrow> \<exists>c \<in> set g. cond_err sc c = Some e
      | Inr (p, qs1) \<Rightarrow> \<exists>qs0 E. consumes g qs qs0 \<and> qs1 = qs0\<lparr>q_ivs := q_ivs qs @ E\<rparr> \<and>
          length (q_condIDs qs1) = length (q_condDims qs1) \<and> emitted v qs reserve E \<and> good_plan sc v g p qs1 E)"

lemma plan_okI:
  assumes "consumes g qs qs0" "length (q_condIDs qs0) = length (q_condDims qs0)" "emitted v qs reserve E"
    and "good_plan sc v g p qs0 E"
  shows "plan_ok sc v g qs reserve (Inr (p, qs0\<lparr>q_ivs := q_ivs qs @ E\<rparr>))"
proof -
  have "pools_grow qs0 (qs0\<lparr>q_ivs := q_ivs qs @ E\<rparr>)" by (simp add: pools_grow_def)
  then have "good_plan sc v g p (qs0\<lparr>q_ivs := q_ivs qs @ E\<rparr>) E" using good_plan_grow assms(4) by blast
  then show ?thesis unfolding plan_ok_def sum.case prod.case using assms(1-3) by auto
qed

text \<open>A plan whose intervals cover the resolved rows is good.\<close>

lemma plan_out_ok:
  assumes v: "view_ok sc v" and c: "consumes g qs qs1" "length (q_condIDs qs1) = length (q_condDims qs1)"
    and p: "planned sc v g qs qs1 eqs wins rngs" "refs p qs1 eqs wins rngs" "\<not> p_dead p" "p_basePossible p"
    and out: "plan_out v qs1 reserve eqs wins p res"
  shows "plan_ok sc v g qs reserve res"
proof -
  obtain p1 E where o: "res = Inr (p1, qs1\<lparr>q_ivs := q_ivs qs1 @ E\<rparr>)" "emitted v qs1 reserve E" "same_plan p p1"
    "cover v qs1 eqs wins p1 E" using out by (auto simp: plan_out_def)
  have f: "q_ivs qs1 = q_ivs qs" "q_caps qs1 = q_caps qs" using c(1) by (simp_all add: consumes_def same_frame_def)
  have "live_plan sc v g p1 qs1 E"
    using p o(3,4) by (intro live_planI [OF v p(1)]) (auto simp: same_plan_refs same_plan_fields cover_def)
  then have "good_plan sc v g p1 qs1 E" by (simp add: good_plan_def)
  moreover have "emitted v qs reserve E" using o(2) f by (simp add: emitted_def)
  ultimately show ?thesis unfolding o(1) f(1) by (intro plan_okI c) auto
qed

text \<open>The check that every equality has a base id.\<close>

lemma base_check:
  assumes "refs p qs eqs wins rngs"
  shows "list_all (\<lambda>i. unat (q_condIDs qs ! (p_condOff p + i)) < dlen (s_dicts base ! (q_condDims qs ! (p_condOff p + i))))
      [0..<length eqs] \<longleftrightarrow> (\<forall>x \<in> set eqs. unat (snd x) < dlen (s_dicts base ! fst x))"
proof -
  have "list_all (\<lambda>i. unat (q_condIDs qs ! (p_condOff p + i)) < dlen (s_dicts base ! (q_condDims qs ! (p_condOff p + i))))
      [0..<length eqs] \<longleftrightarrow> list_all (\<lambda>i. unat (snd (eqs ! i)) < dlen (s_dicts base ! fst (eqs ! i))) [0..<length eqs]"
    using refs_nth [OF assms] by (intro list.pred_cong) auto
  also have "\<dots> \<longleftrightarrow> (\<forall>x \<in> set eqs. unat (snd x) < dlen (s_dicts base ! fst x))"
    by (rule all_upt_nth)
  finally show ?thesis .
qed

text \<open>A plan with a value that no base row carries needs no interval.\<close>

lemma live_plan_none:
  assumes v: "view_ok sc v" and pl: "planned sc v g qs qs1 eqs wins rngs" and r2: "refs p qs1 eqs wins rngs" "\<not> p_dead p"
    and no: "\<not> ((\<forall>w \<in> set wins. win_base v qs1 w) \<and> (\<forall>x \<in> set eqs. unat (snd x) < dlen (s_dicts (v_base v) ! fst x)))"
  shows "live_plan sc v g p qs1 []"
proof (rule live_planI [OF v pl r2])
  fix r assume r: "r < srows (v_base v)" "row_fits qs1 eqs wins (row_of (s_dims (v_base v)) r)"
  have d: "fst x < ndims sc" if "x \<in> set eqs" for x using pl that by (auto simp: planned_def)
  have w: "w_dim w < ndims sc" if "w \<in> set wins" for w using pl that by (auto simp: planned_def)
  have "\<forall>x \<in> set eqs. unat (snd x) < dlen (s_dicts (v_base v) ! fst x)"
    using r(2) base_row_id [OF v r(1) d] by (auto simp: row_fits_def)
  moreover have "\<forall>w \<in> set wins. win_base v qs1 w"
    using r(2) base_row_id [OF v r(1) w] by (auto simp: row_fits_def win_base_def)
  ultimately have False using no by blast
  then show "p_basePossible p \<and> (p_scan p \<or> p_lo p \<le> r \<and> r < p_hi p) \<and> (\<exists>x \<in> set []. fst x \<le> r \<and> r < snd x)" ..
qed

text \<open>What \<open>plan\<close> does once the conditions are resolved.\<close>

lemma plan_alive:
  assumes v: "view_ok sc v" and room: "length (q_ivs qs) + 1 + reserve \<le> k_ivs (q_caps qs)"
    and len: "length (q_condIDs qs) = length (q_condDims qs)" and ne: "g \<noteq> []"
    and conds: "planConds sc v g freshPlan qs = Inr (False, p0, qs1)" and con: "consumes g qs qs1"
    and pl: "planned sc v g qs qs1 eqs wins rngs"
    and p0: "p0 = freshPlan\<lparr>p_basePossible := (p_basePossible freshPlan \<and> (\<forall>w \<in> set wins. win_base v qs1 w))\<rparr>"
  shows "\<exists>res. plan sc v g qs reserve = Some res \<and> plan_ok sc v g qs reserve res"
proof -
  have len1: "length (q_condIDs qs1) = length (q_condDims qs1)" using planConds_lengths [OF conds len] .
  have f: "q_ivs qs1 = q_ivs qs" "q_caps qs1 = q_caps qs" using con by (simp_all add: consumes_def same_frame_def)
  define p1 where "p1 = p0\<lparr>p_condOff := length (q_condDims qs), p_condN := length (q_condDims qs1) - length (q_condDims qs),
    p_insOff := length (q_inWins qs), p_insN := length (q_inWins qs1) - length (q_inWins qs),
    p_rngOff := length (q_rWins qs), p_rngN := length (q_rWins qs1) - length (q_rWins qs)\<rparr>"
  define p2 where "p2 = (if \<forall>x \<in> set eqs. unat (snd x) < dlen (s_dicts (v_base v) ! fst x) then p1
    else p1\<lparr>p_basePossible := False\<rparr>)"
  have r1: "refs p1 qs1 eqs wins rngs" unfolding p1_def by (rule planned_refs [OF pl len])
  then have r2: "refs p2 qs1 eqs wins rngs" by (simp add: p2_def)
  have n1: "p_condN p1 = length eqs" "p_condOff p1 = length (q_condDims qs)" using r1 by (simp_all add: refs_def p1_def)
  have run: "plan sc v g qs reserve =
      (if \<not> p_basePossible p2 then Some (Inr (p2, qs1))
       else if p_insN p2 > 0 then planExpand sc v p2 qs1 reserve
       else Some (prefixTail sc v p2 qs1))"
    using ne unfolding plan_def Let_def conds sum.case prod.case plan_tail [unfolded Let_def]
    unfolding p1_def [symmetric] unfolding n1(1) n1(2) [symmetric] base_check [OF r1]
    unfolding p2_def [symmetric] by simp
  have dead2: "\<not> p_dead p2" by (simp add: p2_def p1_def p0 freshPlan_def)
  have bp: "p_basePossible p2 \<longleftrightarrow> (\<forall>w \<in> set wins. win_base v qs1 w) \<and>
      (\<forall>x \<in> set eqs. unat (snd x) < dlen (s_dicts (v_base v) ! fst x))"
    by (simp add: p2_def p1_def p0 freshPlan_def)
  show ?thesis
  proof (cases "p_basePossible p2")
    case False
    have nil: "emitted v qs reserve []" "qs1\<lparr>q_ivs := q_ivs qs @ []\<rparr> = qs1" using room f(1) by (simp_all add: emitted_def)
    have "good_plan sc v g p2 qs1 []" using live_plan_none [OF v pl r2 dead2] False bp by (simp add: good_plan_def)
    then have "plan_ok sc v g qs reserve (Inr (p2, qs1\<lparr>q_ivs := q_ivs qs @ []\<rparr>))" by (intro plan_okI con len1 nil(1))
    then show ?thesis using run False by (simp only: nil(2)) simp
  next
    case True
    have rs: "resolved sc v p2 qs1 eqs wins rngs" using r2 pl True bp by (simp add: resolved_def planned_def)
    have rm: "length (q_ivs qs1) + 1 + reserve \<le> k_ivs (q_caps qs1)" using room by (simp add: f)
    show ?thesis
      using run True plan_out_ok [OF v con len1 pl r2 dead2 True] planExpand_out [OF v rs rm] prefixTail_out [OF v rs rm] by auto
  qed
qed

lemma plan_result:
  assumes v: "view_ok sc v" and room: "cond_room g qs" "length (q_ivs qs) + 1 + reserve \<le> k_ivs (q_caps qs)"
    and len: "length (q_condIDs qs) = length (q_condDims qs)"
  shows "\<exists>res. plan sc v g qs reserve = Some res \<and> plan_ok sc v g qs reserve res"
proof (cases "g = []")
  case True
  have pl: "planned sc v [] qs qs [] [] []" by simp
  have "refs freshPlan qs [] [] []" by (simp add: refs_def insView_def rngsView_def freshPlan_def)
  then have "plan_ok sc v [] qs reserve (scanAll (v_base v) freshPlan qs)"
    using scanAll_out [OF room(2)] len by (intro plan_out_ok [OF v _ _ pl]) (auto simp: freshPlan_def)
  then show ?thesis by (simp add: plan_def True)
next
  case ne: False
  note cr = planConds_result [OF v room(1), of freshPlan]
  show ?thesis
  proof (cases "planConds sc v g freshPlan qs")
    case (Inl e)
    then show ?thesis using cr ne by (simp add: plan_def cond_result_def plan_ok_def)
  next
    case (Inr res)
    obtain dead p0 qs1 where res: "res = (dead, p0, qs1)" by (cases res)
    have con: "consumes g qs qs1" using cr Inr res by (simp add: cond_result_def)
    show ?thesis
    proof (cases dead)
      case True
      have nil: "emitted v qs reserve []" "qs1\<lparr>q_ivs := q_ivs qs @ []\<rparr> = qs1"
        using room(2) con by (simp_all add: emitted_def consumes_def same_frame_def)
      have "p_dead p0" "\<forall>is. ids_ok (view_vals v) is \<longrightarrow> \<not> group_sat sc (decode (view_vals v) is) g"
        using cr Inr res True unfolding cond_result_def by (auto, metis gplan.select_convs(10) gplan.surjective gplan.update_convs(10))
      then have "plan_ok sc v g qs reserve (Inr (p0, qs1\<lparr>q_ivs := q_ivs qs @ []\<rparr>))"
        using planConds_lengths [OF Inr [unfolded res] len] by (intro plan_okI con nil(1)) (simp_all add: good_plan_def)
      then show ?thesis using Inr res True ne by (simp add: plan_def nil(2) del: append_Nil2)
    next
      case False
      then obtain eqs wins rngs where "planned sc v g qs qs1 eqs wins rngs"
        "p0 = freshPlan\<lparr>p_basePossible := (p_basePossible freshPlan \<and> (\<forall>w \<in> set wins. win_base v qs1 w))\<rparr>"
        using cr Inr res by (auto simp: cond_result_def)
      then show ?thesis using Inr res False by (intro plan_alive [OF v room(2) len ne _ con]) auto
    qed
  qed
qed

end
