(* ===== verification/Sweep.thy ===== *)
theory Sweep
  imports PlanSound
begin

text \<open>
  From the plans to the rows: \<open>planGroups\<close> returns plans that are good for their groups and
  sorted intervals within the base, the sweep over those intervals visits every row of their
  union once and in ascending order, and so a query is a fold over the visible rows that
  satisfy one of its groups. The scan budget counts exactly the rows that the sweep visits.
\<close>

section \<open>The routing gives every query the room it needs\<close>

lemma measureCond_fields:
  "h_groups (measureCond c sh) = h_groups sh" "h_aggs (measureCond c sh) = h_aggs sh"
  "h_conds (measureCond c sh) = h_conds sh + length (filter is_eq [c])"
  "h_inConds (measureCond c sh) = h_inConds sh + length (filter is_in [c])"
  "h_inVals (measureCond c sh) = h_inVals sh + n_vals [c]"
  "h_ranges (measureCond c sh) = h_ranges sh + length (filter is_rng [c])"
  by (auto simp: measureCond_def is_eq_def is_in_def is_rng_def n_vals_def)

lemma fold_measureCond:
  "h_groups (fold measureCond g sh) = h_groups sh \<and> h_aggs (fold measureCond g sh) = h_aggs sh \<and>
   h_conds (fold measureCond g sh) = h_conds sh + length (filter is_eq g) \<and>
   h_inConds (fold measureCond g sh) = h_inConds sh + length (filter is_in g) \<and>
   h_inVals (fold measureCond g sh) = h_inVals sh + n_vals g \<and>
   h_ranges (fold measureCond g sh) = h_ranges sh + length (filter is_rng g)"
proof (induction g arbitrary: sh)
  case (Cons c g)
  then show ?case using Cons.IH [of "measureCond c sh"] by (simp add: measureCond_fields n_vals_Cons)
qed simp

lemma measureShape_fields:
  "h_groups (measureShape gs n) = length gs" "h_aggs (measureShape gs n) = n"
  "h_conds (measureShape gs n) = length (filter is_eq (concat gs))"
  "h_inConds (measureShape gs n) = length (filter is_in (concat gs))"
  "h_inVals (measureShape gs n) = n_vals (concat gs)"
  "h_ranges (measureShape gs n) = length (filter is_rng (concat gs))"
proof -
  let ?f = "\<lambda>g sh. let sh1 = fold measureCond g sh in sh1\<lparr>h_ivDemand := h_ivDemand sh1 + groupIvDemand g\<rparr>"
  have "h_groups (fold ?f gs sh) = h_groups sh \<and> h_aggs (fold ?f gs sh) = h_aggs sh \<and>
     h_conds (fold ?f gs sh) = h_conds sh + length (filter is_eq (concat gs)) \<and>
     h_inConds (fold ?f gs sh) = h_inConds sh + length (filter is_in (concat gs)) \<and>
     h_inVals (fold ?f gs sh) = h_inVals sh + n_vals (concat gs) \<and>
     h_ranges (fold ?f gs sh) = h_ranges sh + length (filter is_rng (concat gs))" for sh
  proof (induction gs arbitrary: sh)
    case (Cons g gs)
    show ?case using Cons.IH [of "?f g sh"] fold_measureCond [of g sh] by (simp add: Let_def)
  qed simp
  then show "h_groups (measureShape gs n) = length gs" "h_aggs (measureShape gs n) = n"
    "h_conds (measureShape gs n) = length (filter is_eq (concat gs))"
    "h_inConds (measureShape gs n) = length (filter is_in (concat gs))"
    "h_inVals (measureShape gs n) = n_vals (concat gs)"
    "h_ranges (measureShape gs n) = length (filter is_rng (concat gs))"
    by (simp_all add: measureShape_def)
qed

definition fresh :: "queryScratch \<Rightarrow> bool" where
  "fresh qs \<longleftrightarrow> q_plans qs = [] \<and> q_ivs qs = [] \<and> q_condDims qs = [] \<and> q_condIDs qs = [] \<and>
     q_inWins qs = [] \<and> q_inPool qs = [] \<and> q_rWins qs = []"

definition plan_room :: "cond list list \<Rightarrow> queryScratch \<Rightarrow> bool" where
  "plan_room gs qs \<longleftrightarrow> fresh qs \<and> cond_room (concat gs) qs \<and> length gs \<le> k_plans (q_caps qs) \<and>
     length gs \<le> k_ivs (q_caps qs)"

definition agg_room :: "nat \<Rightarrow> queryScratch \<Rightarrow> bool" where
  "agg_room n qs \<longleftrightarrow> q_mets qs = [] \<and> q_ddims qs = [] \<and> n \<le> k_mets (q_caps qs) \<and> n \<le> k_ddims (q_caps qs) \<and> n \<le> k_acc (q_caps qs) \<and> n \<le> k_bms (q_caps qs)"

lemma grow_ge: "n \<le> grow c n"
  by (simp add: grow_def)

lemma routeScratch_room: "plan_room gs (routeScratch pool gs n) \<and> agg_room n (routeScratch pool gs n)"
proof (cases "fits (measureShape gs n)")
  case True
  then have "routeScratch pool gs n = fast" by (simp add: routeScratch_def Let_def)
  moreover have "h_groups (measureShape gs n) \<le> fastGroups" "h_conds (measureShape gs n) \<le> fastConds"
    "h_inConds (measureShape gs n) \<le> fastInConds" "h_inVals (measureShape gs n) \<le> fastInIDs"
    "h_ranges (measureShape gs n) \<le> fastRanges" "h_aggs (measureShape gs n) \<le> fastAggs"
    using True by (simp_all add: fits_def split: if_splits)
  ultimately show ?thesis
    by (simp add: plan_room_def agg_room_def fresh_def cond_room_def fast_def fastCaps_def emptyScratch_def fastIvs_def
        measureShape_fields)
next
  case False
  then have "routeScratch pool gs n = getPooledScratch pool (measureShape gs n)" by (simp add: routeScratch_def Let_def)
  then show ?thesis
    using order_trans [OF le_add1 grow_ge [of "length gs + expansionIvs" "k_ivs pool"]]
    by (simp add: plan_room_def agg_room_def fresh_def cond_room_def getPooledScratch_def growCaps_def emptyScratch_def
        measureShape_fields grow_ge)
qed

section \<open>Planning all groups\<close>

definition plans_good :: "schema \<Rightarrow> view \<Rightarrow> cond list list \<Rightarrow> queryScratch \<Rightarrow> iv list \<Rightarrow> gplan list \<Rightarrow> bool" where
  "plans_good sc v gs qs E ps \<longleftrightarrow> list_all2 (\<lambda>g p. good_plan sc v g p qs E) gs ps"

lemma plans_good_grow:
  "plans_good sc v gs qs E ps \<Longrightarrow> pools_grow qs qs1 \<Longrightarrow> set E \<subseteq> set F \<Longrightarrow> plans_good sc v gs qs1 F ps"
  unfolding plans_good_def by (erule list_all2_mono) (rule good_plan_grow)

lemma cond_room_frame:
  "cond_room cs (qs\<lparr>q_ivs := xs\<rparr>) \<longleftrightarrow> cond_room cs qs" "cond_room cs (qs\<lparr>q_plans := ps\<rparr>) \<longleftrightarrow> cond_room cs qs"
  by (simp_all add: cond_room_def)

definition group_errs :: "schema \<Rightarrow> cond list list \<Rightarrow> err set" where
  "group_errs sc gs = {e. \<exists>c \<in> set (concat gs). cond_err sc c = Some e}"

lemma planLoop_result:
  assumes v: "view_ok sc v"
  shows "cond_room (concat gs) qs \<Longrightarrow> length (q_ivs qs) + length gs \<le> k_ivs (q_caps qs) \<Longrightarrow>
    length (q_condIDs qs) = length (q_condDims qs) \<Longrightarrow>
    \<exists>res k. planLoop sc v gs qs n = Some (res, k) \<and>
      (case res of
         Inl e \<Rightarrow> e \<in> group_errs sc gs
       | Inr qs1 \<Rightarrow> pools_grow qs qs1 \<and> agg_frame qs qs1 \<and>
           (\<exists>ps E. q_plans qs1 = q_plans qs @ ps \<and> q_ivs qs1 = q_ivs qs @ E \<and> plans_good sc v gs qs1 E ps \<and>
              (\<forall>x \<in> set E. fst x < snd x \<and> snd x \<le> srows (v_base v))))"
proof (induction gs arbitrary: qs n)
  case Nil
  then show ?case by (auto simp: plans_good_def)
next
  case (Cons g gs)
  have r1: "cond_room g qs" using Cons.prems(1) cond_room_first by simp
  have r2: "length (q_ivs qs) + 1 + length gs \<le> k_ivs (q_caps qs)" using Cons.prems(2) by simp
  obtain res where res: "plan sc v g qs (length gs) = Some res" "plan_ok sc v g qs (length gs) res"
    using plan_result [OF v r1 r2 Cons.prems(3)] by blast
  show ?case
  proof (cases res)
    case (Inl e)
    then show ?thesis using res by (auto simp: plan_ok_def group_errs_def)
  next
    case (Inr pq)
    obtain p qs1 where pq: "pq = (p, qs1)" by (cases pq)
    obtain qs0 E where ok: "consumes g qs qs0" "qs1 = qs0\<lparr>q_ivs := q_ivs qs @ E\<rparr>"
      "length (q_condIDs qs1) = length (q_condDims qs1)" "emitted v qs (length gs) E" "good_plan sc v g p qs1 E"
      using res(2) Inr pq by (auto simp: plan_ok_def)
    define qs2 where "qs2 = qs1\<lparr>q_plans := q_plans qs1 @ [p]\<rparr>"
    have fr: "q_caps qs0 = q_caps qs" "q_plans qs0 = q_plans qs" "q_mets qs0 = q_mets qs" "q_ddims qs0 = q_ddims qs"
      "q_bms qs0 = q_bms qs" using ok(1) by (simp_all add: consumes_def same_frame_def)
    have g02: "pools_grow qs qs2" using consumes_grow [OF ok(1)] by (simp add: pools_grow_def qs2_def ok(2))
    have "cond_room (concat gs) qs0" using Cons.prems(1) cond_room_rest ok(1) by (metis concat.simps(2))
    then have c2: "cond_room (concat gs) qs2" by (simp add: qs2_def ok(2) cond_room_frame)
    have l2: "length (q_ivs qs2) + length gs \<le> k_ivs (q_caps qs2)" "length (q_condIDs qs2) = length (q_condDims qs2)"
      using ok(3,4) fr by (simp_all add: qs2_def ok(2) emitted_def)
    obtain res2 k where two: "planLoop sc v gs qs2 (if p_scan p then n + 1 else n) = Some (res2, k)"
      "case res2 of Inl e \<Rightarrow> e \<in> group_errs sc gs
       | Inr qs3 \<Rightarrow> pools_grow qs2 qs3 \<and> agg_frame qs2 qs3 \<and>
           (\<exists>ps E. q_plans qs3 = q_plans qs2 @ ps \<and> q_ivs qs3 = q_ivs qs2 @ E \<and> plans_good sc v gs qs3 E ps \<and>
              (\<forall>x \<in> set E. fst x < snd x \<and> snd x \<le> srows (v_base v)))"
      using Cons.IH [OF c2 l2] by blast
    have run: "planLoop sc v (g # gs) qs n = Some (res2, k)" using res(1) Inr pq two(1) by (simp add: qs2_def)
    show ?thesis
    proof (cases res2)
      case (Inl e)
      then show ?thesis using run two(2) by (auto simp: group_errs_def)
    next
      case (Inr qs3)
      then obtain ps F where F: "pools_grow qs2 qs3" "agg_frame qs2 qs3" "q_plans qs3 = q_plans qs2 @ ps"
        "q_ivs qs3 = q_ivs qs2 @ F" "plans_good sc v gs qs3 F ps" "\<forall>x \<in> set F. fst x < snd x \<and> snd x \<le> srows (v_base v)"
        using two(2) by auto
      have "pools_grow qs1 qs3" using F(1) by (simp add: pools_grow_def qs2_def)
      then have "good_plan sc v g p qs3 (E @ F)" using good_plan_grow [OF ok(5)] by simp
      moreover have "plans_good sc v gs qs3 (E @ F) ps" by (rule plans_good_grow [OF F(5)]) simp_all
      ultimately have "plans_good sc v (g # gs) qs3 (E @ F) (p # ps)" by (simp add: plans_good_def)
      moreover have "\<forall>x \<in> set (E @ F). fst x < snd x \<and> snd x \<le> srows (v_base v)"
        using F(6) ok(4) by (auto simp: emitted_def)
      moreover have "q_plans qs3 = q_plans qs @ (p # ps)" "q_ivs qs3 = q_ivs qs @ (E @ F)" "agg_frame qs qs3"
        using F(2,3,4) fr by (simp_all add: qs2_def ok(2) agg_frame_def)
      moreover have "pools_grow qs qs3" using g02 F(1) by (rule pools_grow_trans)
      ultimately show ?thesis using run Inr by auto
    qed
  qed
qed

section \<open>The union sweep\<close>

abbreviation in_ivs :: "iv list \<Rightarrow> nat \<Rightarrow> bool" where
  "in_ivs xs r \<equiv> \<exists>x \<in> set xs. fst x \<le> r \<and> r < snd x"

abbreviation by_lo :: "iv list \<Rightarrow> bool" where
  "by_lo xs \<equiv> sorted_wrt (\<lambda>a b. fst a \<le> fst b) xs"

lemma sortIvs_sorted:
  assumes "sorter srt"
  shows "mset (sortIvs srt xs) = mset xs" "set (sortIvs srt xs) = set xs" "by_lo (sortIvs srt xs)"
proof -
  have w: "weak_order_on (set xs) cmp_iv" by (auto simp: weak_order_on_def cmp_iv_def)
  have le: "cmp_iv a b \<le> 0 \<longleftrightarrow> fst a \<le> fst b" for a b by (auto simp: cmp_iv_def)
  have lt: "(\<lambda>a b. fst a < fst b) = (\<lambda>a b. cmp_iv a b < 0)" by (auto simp: cmp_iv_def fun_eq_iff)
  show m: "mset (sortIvs srt xs) = mset xs"
    using mset_insertion_sort [of "\<lambda>a b. fst a < fst b" xs] sorter.srt_mset [OF assms w] by (simp add: sortIvs_def)
  show "set (sortIvs srt xs) = set xs" using m by (rule mset_eq_setD)
  show "by_lo (sortIvs srt xs)"
    using sorter.srt_sorted [OF assms w] sorted_insertion_sort [OF w] by (simp add: sortIvs_def lt le)
qed

text \<open>One step of a sweep with the high-water mark \<open>hw\<close>: the rows from \<open>hw\<close> on.\<close>

lemma upt_split: "a \<le> b \<Longrightarrow> b \<le> c \<Longrightarrow> [a..<c] = [a..<b] @ [b..<c]"
  using upt_add_eq_append [of a b "c - b"] by simp

lemma sweep_step:
  assumes "by_lo ((lo, hi) # xs)" "lo < hi" "hi \<le> N" "hw < hi"
  shows "filter (in_ivs ((lo, hi) # xs)) [hw..<N] = [max lo hw..<hi] @ filter (in_ivs xs) [hi..<N]"
proof -
  let ?m = "max lo hw"
  have later: "lo \<le> fst x" if "x \<in> set xs" for x using assms(1) that by simp
  have "[hw..<N] = [hw..<?m] @ [?m..<hi] @ [hi..<N]"
    using assms(2-4) upt_split [of hw ?m N] upt_split [of ?m hi N] by simp
  moreover have "filter (in_ivs ((lo, hi) # xs)) [hw..<?m] = []"
    using later by (fastforce simp: filter_empty_conv)
  moreover have "filter (in_ivs ((lo, hi) # xs)) [?m..<hi] = [?m..<hi]" by (simp add: filter_id_conv)
  moreover have "filter (in_ivs ((lo, hi) # xs)) [hi..<N] = filter (in_ivs xs) [hi..<N]"
    by (rule filter_cong) auto
  ultimately show ?thesis by simp
qed

lemma sweep_skip: "hi \<le> hw \<Longrightarrow> filter (in_ivs ((lo, hi) # xs)) [hw..<N] = filter (in_ivs xs) [hw..<N]"
  by (rule filter_cong) auto

lemma scanCount_rows:
  assumes "by_lo xs" "\<forall>x \<in> set xs. fst x < snd x \<and> snd x \<le> N"
  shows "scanCount xs hw n = n + length (filter (in_ivs xs) [hw..<N])"
  using assms
proof (induction xs arbitrary: hw n)
  case (Cons x xs)
  obtain lo hi where x: "x = (lo, hi)" by (cases x)
  show ?case
  proof (cases "hi \<le> hw")
    case True
    then have "scanCount (x # xs) hw n = scanCount xs hw n" by (simp add: x)
    moreover have "filter (in_ivs (x # xs)) [hw..<N] = filter (in_ivs xs) [hw..<N]"
      unfolding x using True by (rule sweep_skip)
    ultimately show ?thesis using Cons by simp
  next
    case False
    have "filter (in_ivs (x # xs)) [hw..<N] = [max lo hw..<hi] @ filter (in_ivs xs) [hi..<N]"
      unfolding x using Cons.prems False by (intro sweep_step) (auto simp: x)
    moreover have "scanCount (x # xs) hw n = scanCount xs hi (n + (hi - max lo hw))"
      using False by (simp add: x Let_def max_def)
    ultimately show ?thesis using Cons by simp
  qed
qed simp

lemma sweepBase_rows:
  assumes "by_lo xs" "\<forall>x \<in> set xs. fst x < snd x \<and> snd x \<le> N"
  shows "sweepBase qs v be now f xs hw acc =
    fold (sweepRow qs v be now f) (filter (in_ivs xs) [hw..<N]) acc"
  using assms
proof (induction xs arbitrary: hw acc)
  case (Cons x xs)
  obtain lo hi where x: "x = (lo, hi)" by (cases x)
  show ?case
  proof (cases "hi \<le> hw")
    case True
    then have "sweepBase qs v be now f (x # xs) hw acc = sweepBase qs v be now f xs hw acc" by (simp add: x)
    moreover have "filter (in_ivs (x # xs)) [hw..<N] = filter (in_ivs xs) [hw..<N]"
      unfolding x using True by (rule sweep_skip)
    ultimately show ?thesis using Cons by simp
  next
    case False
    have "filter (in_ivs (x # xs)) [hw..<N] = [max lo hw..<hi] @ filter (in_ivs xs) [hi..<N]"
      unfolding x using Cons.prems False by (intro sweep_step) (auto simp: x)
    moreover have "sweepBase qs v be now f (x # xs) hw acc =
        sweepBase qs v be now f xs hi (fold (sweepRow qs v be now f) [max lo hw..<hi] acc)"
      using False by (simp add: x Let_def max_def)
    ultimately show ?thesis using Cons by simp
  qed
qed simp

section \<open>The rows of a query\<close>

definition hit_row :: "schema \<Rightarrow> view \<Rightarrow> i64 \<Rightarrow> cond list list \<Rightarrow> u32 list \<times> arow \<Rightarrow> bool" where
  "hit_row sc v now gs x \<longleftrightarrow> \<not> rowExpired (a_exp (snd x)) now \<and>
     (\<exists>g \<in> set gs. group_sat sc (decode (view_vals v) (fst x)) g)"

definition base_hits :: "schema \<Rightarrow> view \<Rightarrow> i64 \<Rightarrow> cond list list \<Rightarrow> nat list" where
  "base_hits sc v now gs =
     filter (\<lambda>r. \<not> bitGet (v_overridden v) r \<and> hit_row sc v now gs (snap_row (v_base v) r)) [0..<srows (v_base v)]"

definition delta_hits :: "schema \<Rightarrow> view \<Rightarrow> i64 \<Rightarrow> cond list list \<Rightarrow> nat list" where
  "delta_hits sc v now gs = filter (\<lambda>r. hit_row sc v now gs (delta_row (v_delta v) r)) [0..<drows (v_delta v)]"

text \<open>The rows of the view that are not expired and satisfy a group, base rows first.\<close>

definition hits :: "schema \<Rightarrow> view \<Rightarrow> i64 \<Rightarrow> cond list list \<Rightarrow> (u32 list \<times> arow) list" where
  "hits sc v now gs = filter (hit_row sc v now gs) (view_rows v)"

lemma hits_rows:
  "hits sc v now gs = map (snap_row (v_base v)) (base_hits sc v now gs) @ map (delta_row (v_delta v)) (delta_hits sc v now gs)"
  by (simp add: hits_def view_rows_def base_rows_def delta_rows_def base_hits_def delta_hits_def filter_map comp_def conj_commute)

lemma list_ex_all2: "list_all2 R gs ps \<Longrightarrow> (\<And>g p. R g p \<Longrightarrow> P p \<longleftrightarrow> Q g) \<Longrightarrow> list_ex P ps \<longleftrightarrow> (\<exists>g \<in> set gs. Q g)"
  by (induction gs ps rule: list_all2_induct) auto

lemma plans_hitBase:
  assumes v: "view_ok sc v" and g: "plans_good sc v gs qs E ps" and r: "r < srows (v_base v)"
  shows "list_ex (hitBase qs v r) ps \<longleftrightarrow> (\<exists>g \<in> set gs. group_sat sc (decode (view_vals v) (row_of (s_dims (v_base v)) r)) g)"
  using hitBase_group(1) [OF v _ r] by (intro list_ex_all2 [OF g [unfolded plans_good_def]]) blast

lemma plans_hitDelta:
  assumes v: "view_ok sc v" and g: "plans_good sc v gs qs E ps" and r: "r < drows (v_delta v)"
  shows "list_ex (hitDelta qs v r) ps \<longleftrightarrow> (\<exists>g \<in> set gs. group_sat sc (decode (view_vals v) (row_of (d_dims (v_delta v)) r)) g)"
  using hitDelta_group [OF v _ r] by (intro list_ex_all2 [OF g [unfolded plans_good_def]]) blast

lemma plans_cover:
  assumes v: "view_ok sc v" and g: "plans_good sc v gs qs E ps" and r: "r < srows (v_base v)"
    and sat: "\<exists>g \<in> set gs. group_sat sc (decode (view_vals v) (row_of (s_dims (v_base v)) r)) g"
  shows "in_ivs E r"
proof -
  obtain g where "g \<in> set gs" "group_sat sc (decode (view_vals v) (row_of (s_dims (v_base v)) r)) g" using sat by blast
  moreover obtain p where "good_plan sc v g p qs E"
    using g \<open>g \<in> set gs\<close> unfolding plans_good_def list_all2_conv_all_nth by (metis in_set_conv_nth)
  ultimately show ?thesis using hitBase_group(2) [OF v _ r] by blast
qed

text \<open>The per-query clock drops exactly the expired rows: \<open>minExpire\<close> and \<open>hasExpiry\<close> only
  save reads.\<close>

lemma clock_base:
  assumes s: "snap_ok sc (v_base v)" and r: "r < srows (v_base v)" and c: "queryClock v t = (be, de, now)"
  shows "be \<and> s_expire (v_base v) ! r \<noteq> 0 \<and> s_expire (v_base v) ! r \<le> now \<longleftrightarrow> rowExpired (s_expire (v_base v) ! r) (unix_milli t)"
proof (cases "s_expire (v_base v) ! r = 0")
  case False
  have "length (s_expire (v_base v)) = srows (v_base v)" using rows_okD [OF snap_okD(4) [OF s]] by (simp add: srows_def)
  then have mem: "s_expire (v_base v) ! r \<in> set (s_expire (v_base v))" using r by simp
  have m: "s_minExpire (v_base v) = fold min_exp_step (s_expire (v_base v)) 0" using snap_okD(6) [OF s] by (simp add: minmax_ok_def)
  have "s_minExpire (v_base v) \<noteq> 0" unfolding m min_exp_fold(1) using mem False by auto
  moreover have "s_minExpire (v_base v) \<le> s_expire (v_base v) ! r" unfolding m by (rule min_exp_fold(2) [OF mem False])
  ultimately show ?thesis using c False by (auto simp: queryClock_def rowExpired_def Let_def)
qed (simp add: rowExpired_def)

lemma clock_delta:
  assumes v: "view_ok sc v" and r: "r < drows (v_delta v)" and c: "queryClock v t = (be, de, now)"
  shows "de \<and> d_expire (v_delta v) ! r \<noteq> 0 \<and> d_expire (v_delta v) ! r \<le> now \<longleftrightarrow> rowExpired (d_expire (v_delta v) ! r) (unix_milli t)"
proof (cases "d_expire (v_delta v) ! r = 0")
  case False
  have "length (d_expire (v_delta v)) = drows (v_delta v)" using rows_okD [OF view_okD(3) [OF v]] by (simp add: drows_def)
  then have "d_expire (v_delta v) ! r \<in> set (d_expire (v_delta v))" using r by simp
  then have "d_hasExpiry (v_delta v)" using view_okD(6) [OF v] False by (auto simp: delta_times_ok_def)
  then show ?thesis using c False by (auto simp: queryClock_def rowExpired_def Let_def split: if_splits)
qed (simp add: rowExpired_def)

lemma fold_filter_cong:
  "(\<And>x a. x \<in> set xs \<Longrightarrow> h x a = (if P x then f x a else a)) \<Longrightarrow> fold h xs a = fold f (filter P xs) a"
  by (induction xs arbitrary: a) auto

lemma sweep_hits:
  assumes v: "view_ok sc v" and g: "plans_good sc v gs qs E (q_plans qs)"
    and E: "by_lo E" "\<forall>x \<in> set E. fst x < snd x \<and> snd x \<le> srows (v_base v)"
    and c: "queryClock v t = (be, de, now)"
  shows "sweepBase qs v be now f E 0 acc = fold f (base_hits sc v (unix_milli t) gs) acc"
    and "sweepDelta qs v de now f acc = fold f (delta_hits sc v (unix_milli t) gs) acc"
proof -
  have s: "snap_ok sc (v_base v)" using view_okD(1) [OF v] .
  let ?sat = "\<lambda>r. \<exists>g \<in> set gs. group_sat sc (decode (view_vals v) (row_of (s_dims (v_base v)) r)) g"
  have "fold (sweepRow qs v be now f) (filter (in_ivs E) [0..<srows (v_base v)]) acc =
      fold f (filter (\<lambda>r. \<not> bitGet (v_overridden v) r \<and> hit_row sc v (unix_milli t) gs (snap_row (v_base v) r))
        (filter (in_ivs E) [0..<srows (v_base v)])) acc"
    using clock_base [OF s _ c] plans_hitBase [OF v g]
    by (intro fold_filter_cong) (auto simp: sweepRow_def hit_row_def snap_row_def)
  also have "filter (\<lambda>r. \<not> bitGet (v_overridden v) r \<and> hit_row sc v (unix_milli t) gs (snap_row (v_base v) r))
        (filter (in_ivs E) [0..<srows (v_base v)]) = base_hits sc v (unix_milli t) gs"
    unfolding base_hits_def filter_filter using plans_cover [OF v g]
    by (intro filter_cong) (auto simp: hit_row_def snap_row_def)
  finally show "sweepBase qs v be now f E 0 acc = fold f (base_hits sc v (unix_milli t) gs) acc"
    by (simp add: sweepBase_rows [OF E])
  show "sweepDelta qs v de now f acc = fold f (delta_hits sc v (unix_milli t) gs) acc"
    unfolding sweepDelta_def delta_hits_def using clock_delta [OF v _ c] plans_hitDelta [OF v g]
    by (intro fold_filter_cong) (auto simp: hit_row_def delta_row_def)
qed

section \<open>All groups\<close>

definition planned_ok :: "schema \<Rightarrow> view \<Rightarrow> cond list list \<Rightarrow> queryScratch \<Rightarrow> bool" where
  "planned_ok sc v gs qs \<longleftrightarrow> plans_good sc v gs qs (q_ivs qs) (q_plans qs) \<and> by_lo (q_ivs qs) \<and>
     (\<forall>x \<in> set (q_ivs qs). fst x < snd x \<and> snd x \<le> srows (v_base v))"

text \<open>The rows that a sweep over the planned intervals looks at.\<close>

definition visited :: "view \<Rightarrow> queryScratch \<Rightarrow> nat" where
  "visited v qs = length (filter (in_ivs (q_ivs qs)) [0..<srows (v_base v)]) + drows (v_delta v)"

definition stats_only :: "store \<Rightarrow> store \<Rightarrow> bool" where
  "stats_only s s1 \<longleftrightarrow> s1 = s\<lparr>sto_st := sto_st s1\<rparr>"

definition refused :: "store \<Rightarrow> store \<Rightarrow> u64" where
  "refused s s1 = scanBudgetRefusals (sto_st s1) - scanBudgetRefusals (sto_st s)"

text \<open>
  What \<open>planGroups\<close> answers, in terms of the plans of its groups: their error, a refusal exactly
  where a sweep over their intervals looks at more rows than the budget, or the plans with the
  intervals sorted.
\<close>

definition over_budget :: "store \<Rightarrow> view \<Rightarrow> queryScratch \<Rightarrow> bool" where
  "over_budget s v qs \<longleftrightarrow> MaxScanRows (sto_cfg s) > 0 \<and> int (visited v qs) > MaxScanRows (sto_cfg s)"

definition plan_answer :: "store \<Rightarrow> view \<Rightarrow> cond list list \<Rightarrow> queryScratch \<Rightarrow> err + queryScratch \<Rightarrow> store \<Rightarrow> bool" where
  "plan_answer s v gs qs res s1 \<longleftrightarrow> stats_only s s1 \<and>
     (if gs = [] then res = Inl ErrBadGroupCount \<and> refused s s1 = 0
      else case planLoop (sto_sc s) v gs qs 0 of
        None \<Rightarrow> False
      | Some (Inl e, _) \<Rightarrow> res = Inl e \<and> e \<in> group_errs (sto_sc s) gs \<and> refused s s1 = 0
      | Some (Inr qs1, _) \<Rightarrow>
          if over_budget s v qs1 then res = Inl ErrScanBudget \<and> refused s s1 = 1
          else \<exists>ivs. res = Inr (qs1\<lparr>q_ivs := ivs\<rparr>) \<and> mset ivs = mset (q_ivs qs1) \<and>
            planned_ok (sto_sc s) v gs (qs1\<lparr>q_ivs := ivs\<rparr>) \<and> refused s s1 = 0)"

lemma plan_answerD:
  assumes "plan_answer s v gs qs res s1"
  shows "stats_only s s1"
    and "res = Inl e \<Longrightarrow> (e = ErrBadGroupCount \<and> gs = [] \<or> gs \<noteq> [] \<and> e \<in> group_errs (sto_sc s) gs) \<and> refused s s1 = 0 \<or>
      e = ErrScanBudget \<and> gs \<noteq> [] \<and> MaxScanRows (sto_cfg s) > 0 \<and> refused s s1 = 1"
    and "res = Inr qs2 \<Longrightarrow> gs \<noteq> [] \<and> refused s s1 = 0 \<and> planned_ok (sto_sc s) v gs qs2"
  using assms by (auto simp: plan_answer_def over_budget_def split: if_splits option.splits prod.splits sum.splits)

lemma stats_addScans [simp]: "stats_only s (addScans k s)" "refused s (addScans k s) = 0"
  by (simp_all add: stats_only_def addScans_def refused_def)

lemma plans_good_sort:
  "plans_good sc v gs qs E ps \<Longrightarrow> set F = set E \<Longrightarrow> plans_good sc v gs (qs\<lparr>q_ivs := F\<rparr>) F ps"
  by (erule plans_good_grow) (simp_all add: pools_grow_def)

lemma planGroups_answer:
  assumes v: "view_ok (sto_sc s) v" and room: "plan_room gs qs" and srt: "sorter srt"
  shows "\<exists>res s1. planGroups srt s v gs qs = Some (res, s1) \<and> plan_answer s v gs qs res s1 \<and>
    (\<forall>qs1. res = Inr qs1 \<longrightarrow> agg_frame qs qs1)"
proof (cases "gs = []")
  case True
  then show ?thesis by (simp add: planGroups_def plan_answer_def stats_only_def refused_def)
next
  case False
  have k: "\<not> length gs > k_plans (q_caps qs)" using room by (simp add: plan_room_def)
  have c: "cond_room (concat gs) qs" "length (q_ivs qs) + length gs \<le> k_ivs (q_caps qs)"
    "length (q_condIDs qs) = length (q_condDims qs)" using room by (simp_all add: plan_room_def fresh_def)
  obtain res n where loop: "planLoop (sto_sc s) v gs qs 0 = Some (res, n)"
    and ok: "case res of
         Inl e \<Rightarrow> e \<in> group_errs (sto_sc s) gs
       | Inr qs1 \<Rightarrow> pools_grow qs qs1 \<and> agg_frame qs qs1 \<and>
           (\<exists>ps E. q_plans qs1 = q_plans qs @ ps \<and> q_ivs qs1 = q_ivs qs @ E \<and> plans_good (sto_sc s) v gs qs1 E ps \<and>
              (\<forall>x \<in> set E. fst x < snd x \<and> snd x \<le> srows (v_base v)))"
    using planLoop_result [OF v c, of 0] by blast
  show ?thesis
  proof (cases res)
    case (Inl e)
    then show ?thesis using loop ok False k by (simp add: planGroups_def plan_answer_def)
  next
    case (Inr qs1)
    have fr: "agg_frame qs qs1" using ok Inr by auto
    have q: "plans_good (sto_sc s) v gs qs1 (q_ivs qs1) (q_plans qs1)"
      "\<forall>x \<in> set (q_ivs qs1). fst x < snd x \<and> snd x \<le> srows (v_base v)"
      using ok Inr room by (auto simp: plan_room_def fresh_def)
    define ivs where "ivs = sortIvs srt (q_ivs qs1)"
    define qs2 where "qs2 = qs1\<lparr>q_ivs := ivs\<rparr>"
    note sorted = sortIvs_sorted [OF srt, of "q_ivs qs1", folded ivs_def]
    have p: "planned_ok (sto_sc s) v gs qs2"
      using plans_good_sort [OF q(1) sorted(2)] sorted q(2) by (simp add: planned_ok_def qs2_def)
    have cnt: "scanCount ivs 0 (drows (v_delta v)) = visited v qs1"
      using scanCount_rows [OF sorted(3), of "srows (v_base v)" 0 "drows (v_delta v)"] sorted(2) q(2)
      by (simp add: visited_def)
    define s1 where "s1 = addScans n s"
    let ?s2 = "s1\<lparr>sto_st := (sto_st s1)\<lparr>scanBudgetRefusals := scanBudgetRefusals (sto_st s1) + 1\<rparr>\<rparr>"
    have run: "planGroups srt s v gs qs = Some
        (if over_budget s v qs1 then (Inl ErrScanBudget, ?s2) else (Inr qs2, s1))"
      using False k loop Inr
      by (simp add: planGroups_def Let_def ivs_def [symmetric] cnt qs2_def s1_def over_budget_def)
    have st: "stats_only s ?s2" "refused s ?s2 = 1" "stats_only s s1" "refused s s1 = 0"
      by (simp_all add: stats_only_def s1_def addScans_def refused_def)
    have "plan_answer s v gs qs (if over_budget s v qs1 then Inl ErrScanBudget else Inr qs2)
        (if over_budget s v qs1 then ?s2 else s1)"
      using False loop Inr st p sorted(1) by (auto simp: plan_answer_def qs2_def)
    moreover have "agg_frame qs qs2" using fr by (simp add: agg_frame_def qs2_def)
    ultimately show ?thesis using run by (cases "over_budget s v qs1") simp_all
  qed
qed

section \<open>QueryGroups\<close>

text \<open>The sum of the metrics of a list of rows, column by column, from zero and in their order.\<close>

definition sum_rows :: "nat \<Rightarrow> ('k \<times> arow) list \<Rightarrow> f64 list" where
  "sum_rows n rows = fold (\<lambda>x. addRow (a_mets (snd x))) rows (replicate n 0)"

lemma hits_set:
  assumes v: "view_ok sc v"
  shows "set (map (\<lambda>x. (decode (view_vals v) (fst x), snd x)) (hits sc v now gs)) =
      {(key, row). abs_view v key = Some row \<and> \<not> rowExpired (a_exp row) now \<and> (\<exists>g \<in> set gs. group_sat sc key g)}"
    and "distinct (map (\<lambda>x. decode (view_vals v) (fst x)) (hits sc v now gs))"
proof -
  show "set (map (\<lambda>x. (decode (view_vals v) (fst x), snd x)) (hits sc v now gs)) =
      {(key, row). abs_view v key = Some row \<and> \<not> rowExpired (a_exp row) now \<and> (\<exists>g \<in> set gs. group_sat sc key g)}"
    using view_rows_ids_ok [OF v] by (force simp: abs_view_Some [OF v] hits_def hit_row_def image_iff)
  have "inj_on (\<lambda>x. decode (view_vals v) (fst x)) (set (view_rows v))"
  proof (rule inj_onI)
    fix x y assume xy: "x \<in> set (view_rows v)" "y \<in> set (view_rows v)"
      "decode (view_vals v) (fst x) = decode (view_vals v) (fst y)"
    then have "fst x = fst y"
      using view_rows_ids_ok [OF v] by (intro decode_inj [OF view_vals_distinct [OF v] _ _ xy(3)]) (cases x; cases y; auto)+
    then show "x = y" using view_rows_distinct [OF v] xy(1,2) by (simp add: distinct_map inj_on_def)
  qed
  moreover have "distinct (view_rows v)" using view_rows_distinct [OF v] by (simp add: distinct_map)
  ultimately show "distinct (map (\<lambda>x. decode (view_vals v) (fst x)) (hits sc v now gs))"
    unfolding hits_def by (auto simp: distinct_map intro: inj_on_subset)
qed

text \<open>
  What the three query entry points share: a consumer reads a row of the columns, and in terms of
  the row it is a step \<open>R\<close>. Then the two sweeps fold \<open>R\<close> over the rows of the answer.
\<close>

locale row_consumer =
  fixes good :: bool and sc :: schema
    and consume :: "u32 list list \<Rightarrow> f64 list list \<Rightarrow> nat \<Rightarrow> 'a \<Rightarrow> 'a"
    and R :: "u32 list \<times> arow \<Rightarrow> 'a \<Rightarrow> 'a"
  assumes consume_row: "good \<Longrightarrow> length dimCols = ndims sc \<Longrightarrow> length metCols = nmets sc \<Longrightarrow>
      fst x = row_of dimCols r \<Longrightarrow> a_mets (snd x) = row_of metCols r \<Longrightarrow> consume dimCols metCols r acc = R x acc"
begin

lemma sweep_fold:
  assumes good and v: "view_ok sc v" and p: "planned_ok sc v gs qs" and c: "queryClock v t = (be, de, now)"
  shows "sweepDelta qs v de now (consume (d_dims (v_delta v)) (d_mets (v_delta v)))
      (sweepBase qs v be now (consume (s_dims (v_base v)) (s_mets (v_base v))) (q_ivs qs) 0 acc) =
    fold R (hits sc v (unix_milli t) gs) acc"
proof -
  have g: "plans_good sc v gs qs (q_ivs qs) (q_plans qs)" "by_lo (q_ivs qs)"
    "\<forall>x \<in> set (q_ivs qs). fst x < snd x \<and> snd x \<le> srows (v_base v)"
    using p by (auto simp: planned_ok_def)
  have base: "consume (s_dims (v_base v)) (s_mets (v_base v)) r = R (snap_row (v_base v) r)" for r
    using rows_okD(1,3) [OF snap_okD(4) [OF view_okD(1) [OF v]]] \<open>good\<close>
    by (intro ext consume_row) (simp_all add: snap_row_def)
  have delta: "consume (d_dims (v_delta v)) (d_mets (v_delta v)) r = R (delta_row (v_delta v) r)" for r
    using rows_okD(1,3) [OF view_okD(3) [OF v]] \<open>good\<close>
    by (intro ext consume_row) (simp_all add: delta_row_def)
  show ?thesis
    unfolding sweep_hits [OF v g c, where 'a = 'a] base delta hits_rows by (simp add: fold_map comp_def)
qed

end

interpretation sums: row_consumer True sc "\<lambda>dimCols metCols r. addRow (row_of metCols r)" "\<lambda>x. addRow (a_mets (snd x))" for sc
  by unfold_locales simp

lemma queryGroups_answer:
  assumes v: "view_ok (sto_sc s) (sto_view s)" and room: "plan_room gs qs" and srt: "sorter srt"
  shows "\<exists>res s1. queryGroups srt s gs t qs = Some (res, s1) \<and> stats_only s s1 \<and>
    (\<exists>pres. plan_answer s (sto_view s) gs qs pres s1 \<and>
      (case pres of Inl e \<Rightarrow> res = Inl e
       | Inr _ \<Rightarrow> res = Inr (sum_rows (nmets (sto_sc s)) (hits (sto_sc s) (sto_view s) (unix_milli t) gs))))"
proof -
  let ?v = "sto_view s" and ?sc = "sto_sc s"
  obtain pres s1 where p: "planGroups srt s ?v gs qs = Some (pres, s1)" and a: "plan_answer s ?v gs qs pres s1"
    using planGroups_answer [OF v room srt] by blast
  have st: "stats_only s s1" using a by (rule plan_answerD)
  show ?thesis
  proof (cases pres)
    case (Inl e)
    then show ?thesis using p a st by (force simp: queryGroups_def)
  next
    case (Inr qs1)
    obtain be de now where c: "queryClock ?v t = (be, de, now)" by (cases "queryClock ?v t")
    have "planned_ok ?sc ?v gs qs1" using plan_answerD(3) [OF a Inr] by blast
    then have "queryGroups srt s gs t qs = Some (Inr (sum_rows (nmets ?sc) (hits ?sc ?v (unix_milli t) gs)), s1)"
      using p Inr c sums.sweep_fold [OF TrueI v _ c] by (simp add: queryGroups_def Let_def sum_rows_def)
    then show ?thesis using st a Inr by auto
  qed
qed

end
