(* ===== verification/FloatInt.thy ===== *)
theory FloatInt
  imports Float64
begin

text \<open>
  Integers below \<open>2 ^ 53\<close> are exact: the float of such an integer has its value, and adding two
  of them whose sum is below \<open>2 ^ 53\<close> is exact. Row counts and distinct counts rest on this.
\<close>

lemma int_bits_shift: "0 < m \<Longrightarrow> int_bits (m * 2 ^ j) = int_bits m + j"
proof (induction j)
  case (Suc j)
  have "int_bits (m * 2 ^ Suc j) = Suc (int_bits (m * 2 ^ Suc j div 2))"
    using Suc.prems by (subst int_bits.simps) (simp add: not_le)
  also have "m * 2 ^ Suc j div 2 = m * 2 ^ j" by simp
  finally show ?case using Suc by simp
qed simp

text \<open>A nonzero integer below \<open>2 ^ 53\<close>, normalised to 53 bits, is its own significand.\<close>

lemma f_round_int:
  assumes m: "0 < m" "m < 2 ^ 53"
  defines "k \<equiv> int_bits m"
  shows "f_round False (m * 2 ^ j) (- int j) = word_of_int ((int k + 1021) * 2 ^ 52 + m * 2 ^ (53 - k))"
    and "2 ^ 52 \<le> m * 2 ^ (53 - k)" "m * 2 ^ (53 - k) < 2 ^ 53" "0 < k" "k \<le> 53"
proof -
  have b: "m < 2 ^ k" "2 ^ (k - 1) \<le> m" using int_bits_bound [OF m(1)] by (simp_all add: k_def)
  show k0: "0 < k" using m(1) by (simp add: k_def int_bits.simps [of m])
  show k53: "k \<le> 53" unfolding k_def by (rule int_bits_le [OF m])
  have "(2::int) ^ 52 = 2 ^ (k - 1) * 2 ^ (53 - k)" using k0 k53 by (simp flip: power_add)
  also have "\<dots> \<le> m * 2 ^ (53 - k)" using b(2) by (rule mult_right_mono) simp
  finally show lo: "2 ^ 52 \<le> m * 2 ^ (53 - k)" .
  have "m * 2 ^ (53 - k) < 2 ^ k * 2 ^ (53 - k)" using b(1) by (rule mult_strict_right_mono) simp
  also have "(2::int) ^ k * 2 ^ (53 - k) = 2 ^ 53" using k53 by (simp flip: power_add)
  finally show hi: "m * 2 ^ (53 - k) < 2 ^ 53" .
  have bits: "int_bits (m * 2 ^ j) = k + j" using int_bits_shift [OF m(1)] by (simp add: k_def)
  let ?q = "max (- int j + int (int_bits (m * 2 ^ j)) - 53) (- 1074)"
  have q: "?q = int k - 53" using k0 by (simp add: bits)
  have r: "(if ?q \<le> - int j then m * 2 ^ j * 2 ^ nat (- int j - ?q) else shift_round (m * 2 ^ j) (nat (?q - - int j))) =
      m * 2 ^ (53 - k)"
  proof (cases "?q \<le> - int j")
    case True
    then have "j + nat (- int j - ?q) = 53 - k" using k53 unfolding q by simp
    then have "(2::int) ^ j * 2 ^ nat (- int j - ?q) = 2 ^ (53 - k)" by (simp only: power_add [symmetric])
    then show ?thesis using True by (simp add: mult.assoc)
  next
    case False
    define s where "s = nat (?q - - int j)"
    have "j = (53 - k) + s" using False k53 unfolding q s_def by simp
    then have e: "m * 2 ^ j = (m * 2 ^ (53 - k)) * 2 ^ s" by (simp add: power_add)
    have "shift_round (m * 2 ^ j) s = m * 2 ^ (53 - k)" unfolding e by (simp add: shift_round_def Let_def)
    then show ?thesis using False unfolding s_def by (simp only: if_False)
  qed
  have nz: "m * 2 ^ j \<noteq> 0" using m(1) by simp
  define B where "B = (int k + 1021) * 2 ^ 52 + m * 2 ^ (53 - k)"
  have e: "int k - 53 + 1074 = int k + 1021" by simp
  have "f_round False (m * 2 ^ j) (- int j) =
      (if B \<ge> 0x7FF0000000000000 then f_inf False else f_zero False OR word_of_int B)"
    using nz unfolding f_round_def Let_def q r [unfolded q] e B_def by (simp only: if_False)
  moreover have "\<not> B \<ge> 0x7FF0000000000000" using hi k53 by (simp add: B_def)
  ultimately have "f_round False (m * 2 ^ j) (- int j) = word_of_int B" by (simp add: f_zero_def)
  then show "f_round False (m * 2 ^ j) (- int j) = word_of_int ((int k + 1021) * 2 ^ 52 + m * 2 ^ (53 - k))"
    by (simp only: B_def)
qed

lemma f_round_shift: "0 \<le> m \<Longrightarrow> m < 2 ^ 53 \<Longrightarrow> f_round False (m * 2 ^ j) (- int j) = f_of_int m"
proof (cases "m = 0")
  case False
  assume "0 \<le> m" "m < 2 ^ 53"
  with False have m: "0 < m" "m < 2 ^ 53" by simp_all
  show ?thesis using f_round_int(1) [OF m, of j] f_round_int(1) [OF m, of 0] m by (simp add: f_of_int_def)
qed (simp add: f_of_int_def f_round_def)

lemma div_mod_low: "0 \<le> y \<Longrightarrow> y < M \<Longrightarrow> (c * M + y) div M = c \<and> (c * M + y) mod M = y" for y M c :: int
  by simp

definition f_holds :: "f64 \<Rightarrow> int \<Rightarrow> bool" where
  "f_holds x n \<longleftrightarrow> \<not> f_is_nan x \<and> \<not> f_is_inf x \<and> \<not> f_sign x \<and> f_scale x \<le> 0 \<and>
     f_sig x = n * 2 ^ nat (- f_scale x)"

lemma f_of_int_holds:
  assumes "0 \<le> n" "n < 2 ^ 53"
  shows "f_holds (f_of_int n) n"
proof (cases "n = 0")
  case True
  then show ?thesis
    by (simp add: f_of_int_def f_round_def f_zero_def f_holds_def f_is_nan_def f_is_inf_def f_sign_def f_scale_def
        f_sig_def f_exp_def f_frac_def)
next
  case False
  then have n: "0 < n" "n < 2 ^ 53" using assms by simp_all
  define k where "k = int_bits n"
  define r where "r = n * 2 ^ (53 - k)"
  note f = f_round_int [OF n, folded k_def, folded r_def]
  define b where "b = (int k + 1021) * 2 ^ 52 + r"
  have "f_round False (n * 2 ^ 0) (- int 0) = word_of_int b" by (simp only: f(1) b_def)
  then have x: "f_of_int n = word_of_int b" using n by (simp add: f_of_int_def)
  have bb: "b = (int k + 1022) * 2 ^ 52 + (r - 2 ^ 52)" by (simp add: b_def algebra_simps)
  have rng: "0 \<le> b" "b < 2 ^ 63" using f(2-5) by (simp_all add: b_def)
  then have u: "uint (word_of_int b :: f64) = b" by (simp add: uint_word_of_int take_bit_int_eq_self)
  have low: "0 \<le> r - 2 ^ 52" "r - 2 ^ 52 < 2 ^ 52" using f(2,3) by simp_all
  have d: "b div 2 ^ 52 = int k + 1022" "b mod 2 ^ 52 = r - 2 ^ 52" 
    unfolding bb using div_mod_low [OF low] by blast+
  have ex: "f_exp (word_of_int b) = int k + 1022" using f(5) unfolding f_exp_def u d(1) by simp
  have fr: "f_frac (word_of_int b) = r - 2 ^ 52" unfolding f_frac_def u by (rule d(2))
  have "bit (word_of_int b :: f64) 63 \<longleftrightarrow> bit b 63" by (simp add: bit_word_of_int_iff)
  moreover have "\<not> bit b 63" using rng by (simp add: bit_iff_odd)
  ultimately have "\<not> bit (word_of_int b :: f64) 63" by simp
  then have sg: "\<not> f_sign (word_of_int b)" by (simp add: f_sign_def)
  have sc: "f_scale (word_of_int b) = int k - 53" using ex f(4) by (simp add: f_scale_def)
  have "f_sig (word_of_int b) = r" using ex fr sg f(4) by (simp add: f_sig_def Let_def)
  moreover have "nat (- (int k - 53)) = 53 - k" by simp
  ultimately show ?thesis using ex f(4,5) sg by (simp add: x f_holds_def f_is_nan_def f_is_inf_def sc r_def)
qed

lemma f_add_int:
  assumes "0 \<le> m" "0 \<le> n" "m + n < 2 ^ 53"
  shows "f_add (f_of_int m) (f_of_int n) = f_of_int (m + n)"
proof -
  let ?x = "f_of_int m" and ?y = "f_of_int n"
  have x: "f_holds ?x m" and y: "f_holds ?y n" using assms by (auto intro: f_of_int_holds)
  define e where "e = min (f_scale ?x) (f_scale ?y)"
  have e0: "e \<le> 0" "e \<le> f_scale ?x" "e \<le> f_scale ?y" using x by (auto simp: e_def f_holds_def)
  have one: "f_sig z * 2 ^ nat (f_scale z - e) = a * 2 ^ nat (- e)" if "f_holds z a" "e \<le> f_scale z" for z a
  proof -
    have "nat (- f_scale z) + nat (f_scale z - e) = nat (- e)" using that unfolding f_holds_def by arith
    then have "(2::int) ^ nat (- f_scale z) * 2 ^ nat (f_scale z - e) = 2 ^ nat (- e)" by (simp only: power_add [symmetric])
    then show ?thesis using that by (simp add: f_holds_def mult.assoc)
  qed
  have s: "f_sig ?x * 2 ^ nat (f_scale ?x - e) + f_sig ?y * 2 ^ nat (f_scale ?y - e) = (m + n) * 2 ^ nat (- e)"
    using one [OF x e0(2)] one [OF y e0(3)] by (simp add: distrib_right)
  have neg: "\<not> (m + n) * 2 ^ nat (- e) < 0" "\<bar>(m + n) * 2 ^ nat (- e)\<bar> = (m + n) * 2 ^ nat (- e)"
    using assms(1,2) by (simp_all add: not_less)
  have "f_add ?x ?y = (if (m + n) * 2 ^ nat (- e) = 0 then f_zero False else f_round False ((m + n) * 2 ^ nat (- e)) e)"
    using x y neg unfolding f_add_def e_def [symmetric] Let_def s by (simp add: f_holds_def)
  also have "\<dots> = f_round False ((m + n) * 2 ^ nat (- e)) (- int (nat (- e)))"
    using e0(1) by (simp add: f_round_def)
  also have "\<dots> = f_of_int (m + n)" using assms by (intro f_round_shift) auto
  finally show ?thesis .
qed

end
