(* ===== verification/Agg.thy ===== *)
theory Agg
  imports Sweep FloatInt
begin

text \<open>
  \<open>agg.go\<close>: the aggregate columns of a query, their validation, and \<open>QueryAggs\<close>, which folds
  each matching row into one accumulator per column.
\<close>

section \<open>Aggregate columns\<close>

type_synonym aggOp = byte

definition AggSum :: aggOp where "AggSum = 0"
definition AggCount :: aggOp where "AggCount = 1"
definition AggMin :: aggOp where "AggMin = 2"
definition AggMax :: aggOp where "AggMax = 3"
definition AggAvg :: aggOp where "AggAvg = 4"
definition AggDistinct :: aggOp where "AggDistinct = 5"

lemmas agg_ops = AggSum_def AggCount_def AggMin_def AggMax_def AggAvg_def AggDistinct_def

record agg =
  g_metric :: string
  g_dim :: string
  g_op :: aggOp

text \<open>The search for a metric by name; \<open>None\<close> is \<open>mi < 0\<close>.\<close>

fun metric_from :: "nat \<Rightarrow> string list \<Rightarrow> string \<Rightarrow> nat option" where
  "metric_from m [] name = None"
| "metric_from m (x # xs) name = (if x = name then Some m else metric_from (Suc m) xs name)"

text \<open>One turn of the loop over the aggregates.\<close>

definition resolveAgg :: "schema \<Rightarrow> agg \<Rightarrow> queryScratch \<Rightarrow> err + queryScratch" where
  "resolveAgg sc a qs =
     (if g_op a > AggDistinct then Inl (ErrAggOp (g_op a))
      else case push (k_mets (q_caps qs)) (q_mets qs) (- 1) of
        Inl e \<Rightarrow> Inl e
      | Inr ms \<Rightarrow>
          (case push (k_ddims (q_caps qs)) (q_ddims qs) (- 1) of
             Inl e \<Rightarrow> Inl e
           | Inr ds \<Rightarrow>
               let qs1 = qs\<lparr>q_mets := ms, q_ddims := ds\<rparr>; j = length ms - 1 in
               if g_op a = AggDistinct then
                 if g_metric a \<noteq> [] then Inl (ErrDistinctMetric (g_metric a))
                 else (case dimIndex sc (g_dim a) of
                         None \<Rightarrow> Inl (ErrUnknownDim (g_dim a))
                       | Some di \<Rightarrow> Inr (qs1\<lparr>q_ddims := ds[j := int di]\<rparr>))
               else if g_dim a \<noteq> [] then Inl (ErrAggDim (g_dim a))
               else if g_op a = AggCount then
                 if g_metric a \<noteq> [] then Inl (ErrCountMetric (g_metric a)) else Inr qs1
               else (case metric_from 0 (Metrics sc) (g_metric a) of
                       None \<Rightarrow> Inl (ErrUnknownMetric (g_metric a))
                     | Some mi \<Rightarrow> Inr (qs1\<lparr>q_mets := ms[j := int mi]\<rparr>))))"

fun resolveLoop :: "schema \<Rightarrow> agg list \<Rightarrow> queryScratch \<Rightarrow> err + queryScratch" where
  "resolveLoop sc [] qs = Inr qs"
| "resolveLoop sc (a # as) qs =
     (case resolveAgg sc a qs of Inl e \<Rightarrow> Inl e | Inr qs1 \<Rightarrow> resolveLoop sc as qs1)"

definition resolveAggs :: "schema \<Rightarrow> agg list \<Rightarrow> queryScratch \<Rightarrow> err + queryScratch" where
  "resolveAggs sc aggs qs = (if length aggs = 0 then Inl ErrBadAggCount else resolveLoop sc aggs qs)"

section \<open>Folding a row\<close>

definition f_one :: f64 where "f_one = 0x3FF0000000000000"

text \<open>The loop body for column \<open>j\<close>: its accumulator and its bitmap.\<close>

definition foldCol :: "aggOp \<Rightarrow> int \<Rightarrow> int \<Rightarrow> bool \<Rightarrow> (nat \<Rightarrow> f64) \<Rightarrow> (nat \<Rightarrow> u32) \<Rightarrow> f64 \<Rightarrow> u64 list \<Rightarrow> f64 \<times> u64 list" where
  "foldCol op mi d first metric dimID acc bm =
     (if d \<ge> 0 then
        let i = dimID (nat d); w = unat (drop_bit 6 i); b = push_bit (unat (i AND 63)) 1
        in if bm ! w AND b = 0 then (f_add acc f_one, bm[w := bm ! w OR b]) else (acc, bm)
      else if mi < 0 then (acc, bm)
      else
        let v = metric (nat mi)
        in (if op = AggSum \<or> op = AggAvg then f_add acc v
            else if op = AggMin then (if first \<or> f_less v acc then v else acc)
            else if op = AggMax then (if first \<or> f_less acc v then v else acc)
            else acc, bm))"

definition foldAgg :: "agg list \<Rightarrow> int list \<Rightarrow> int list \<Rightarrow> bool \<Rightarrow> (nat \<Rightarrow> f64) \<Rightarrow> (nat \<Rightarrow> u32)
    \<Rightarrow> f64 list \<times> u64 list list \<Rightarrow> f64 list \<times> u64 list list" where
  "foldAgg aggs mets ddims first metric dimID st =
     fold (\<lambda>j (acc, bms).
         let (x, bm) = foldCol (g_op (aggs ! j)) (mets ! j) (ddims ! j) first metric dimID (acc ! j) (bms ! j)
         in (acc[j := x], bms[j := bm]))
       [0..<length aggs] st"

section \<open>\<open>QueryAggs\<close>\<close>

text \<open>The bitmaps: one per distinct column, as long as the combined dictionary.\<close>

definition makeBms :: "view \<Rightarrow> int list \<Rightarrow> nat \<Rightarrow> u64 list list" where
  "makeBms v ddims n =
     map (\<lambda>j. if ddims ! j \<ge> 0
         then replicate ((dlen (s_dicts (v_base v) ! nat (ddims ! j)) + dlen (v_extras v ! nat (ddims ! j)) + 63) div 64) 0
         else []) [0..<n]"

text \<open>What a matched row does to the accumulators and to \<open>rows\<close>.\<close>

definition aggRow :: "agg list \<Rightarrow> int list \<Rightarrow> int list \<Rightarrow> f64 list list \<Rightarrow> u32 list list \<Rightarrow> nat
    \<Rightarrow> (f64 list \<times> u64 list list) \<times> int \<Rightarrow> (f64 list \<times> u64 list list) \<times> int" where
  "aggRow aggs mets ddims metCols dimCols r st =
     (foldAgg aggs mets ddims (snd st = 0) (\<lambda>m. metCols ! m ! r) (\<lambda>dd. dimCols ! dd ! r) (fst st), snd st + 1)"

definition aggOut :: "aggOp \<Rightarrow> f64 \<Rightarrow> int \<Rightarrow> f64" where
  "aggOut op acc rows =
     (if op = AggCount then f_of_int rows
      else if op = AggSum \<or> op = AggDistinct then acc
      else if rows > 0 then (if op = AggAvg then f_div acc (f_of_int rows) else acc)
      else f_nan)"

definition queryAggs :: "iv sort_fn \<Rightarrow> store \<Rightarrow> agg list \<Rightarrow> cond list list \<Rightarrow> instant \<Rightarrow> queryScratch
    \<Rightarrow> ((err + f64 list) \<times> store) option" where
  "queryAggs srt s aggs groups t qs =
     (case resolveAggs (sto_sc s) aggs qs of
        Inl e \<Rightarrow> Some (Inl e, s)
      | Inr qs0 \<Rightarrow>
          if length aggs > k_bms (q_caps qs0) then Some (Inl Panic, s)
          else
            let v = sto_view s; bms = makeBms v (q_ddims qs0) (length aggs) in
            (case planGroups srt s v groups (qs0\<lparr>q_bms := bms\<rparr>) of
               None \<Rightarrow> None
             | Some (Inl e, s1) \<Rightarrow> Some (Inl e, s1)
             | Some (Inr qs1, s1) \<Rightarrow>
                 if length aggs > k_acc (q_caps qs1) then Some (Inl Panic, s1)
                 else
                   let (baseExp, deltaExp, nowMilli) = queryClock v t;
                       b = v_base v; d = v_delta v;
                       st0 = ((replicate (length aggs) 0, q_bms qs1), 0);
                       st1 = sweepBase qs1 v baseExp nowMilli (aggRow aggs (q_mets qs1) (q_ddims qs1) (s_mets b) (s_dims b))
                               (q_ivs qs1) 0 st0;
                       st2 = sweepDelta qs1 v deltaExp nowMilli (aggRow aggs (q_mets qs1) (q_ddims qs1) (d_mets d) (d_dims d)) st1;
                       ((acc, _), rows) = st2
                   in Some (Inr (map (\<lambda>j. aggOut (g_op (aggs ! j)) (acc ! j) rows) [0..<length aggs]), s1)))"

definition QueryAggs :: "iv sort_fn \<Rightarrow> store \<Rightarrow> agg list \<Rightarrow> cond list list \<Rightarrow> instant \<Rightarrow> caps
    \<Rightarrow> ((err + f64 list) \<times> store) option" where
  "QueryAggs srt s aggs groups t pool = queryAggs srt s aggs groups t (routeScratch pool groups (length aggs))"

end
