(* ===== verification/AggSound.thy ===== *)
theory AggSound
  imports Agg
begin

text \<open>
  \<open>QueryAggs\<close> computes every requested aggregate over the rows of the table that are visible and
  satisfy a group: sums and averages in row order, extrema from the first row, distinct counts
  as cardinalities, which the bitmaps and the float counter give exactly.
\<close>

section \<open>The aggregate of a list of rows\<close>

type_synonym krow = "dval list \<times> arow"

definition keyed :: "view \<Rightarrow> (u32 list \<times> arow) list \<Rightarrow> krow list" where
  "keyed v rows = map (\<lambda>x. (decode (view_vals v) (fst x), snd x)) rows"

definition metric_vals :: "schema \<Rightarrow> string \<Rightarrow> krow list \<Rightarrow> f64 list" where
  "metric_vals sc name rows = map (\<lambda>x. a_mets (snd x) ! the (metric_from 0 (Metrics sc) name)) rows"

definition pick_first :: "(f64 \<Rightarrow> f64 \<Rightarrow> bool) \<Rightarrow> f64 list \<Rightarrow> f64" where
  "pick_first better vs = (case vs of [] \<Rightarrow> f_nan | v # vs' \<Rightarrow> fold (\<lambda>v acc. if better v acc then v else acc) vs' v)"

definition agg_spec :: "schema \<Rightarrow> krow list \<Rightarrow> agg \<Rightarrow> f64" where
  "agg_spec sc rows a =
     (let vs = metric_vals sc (g_metric a) rows; total = fold (\<lambda>v acc. f_add acc v) vs 0; n = int (length rows)
      in if g_op a = AggCount then f_of_int n
         else if g_op a = AggDistinct then
           f_of_int (int (card ((\<lambda>x. fst x ! the (dimIndex sc (g_dim a))) ` set rows)))
         else if g_op a = AggSum then total
         else if g_op a = AggAvg then (if rows = [] then f_nan else f_div total (f_of_int n))
         else if g_op a = AggMin then pick_first f_less vs
         else pick_first (\<lambda>v acc. f_less acc v) vs)"

definition agg_err :: "schema \<Rightarrow> agg \<Rightarrow> err option" where
  "agg_err sc a =
     (if g_op a > AggDistinct then Some (ErrAggOp (g_op a))
      else if g_op a = AggDistinct then
        (if g_metric a \<noteq> [] then Some (ErrDistinctMetric (g_metric a))
         else if dimIndex sc (g_dim a) = None then Some (ErrUnknownDim (g_dim a)) else None)
      else if g_dim a \<noteq> [] then Some (ErrAggDim (g_dim a))
      else if g_op a = AggCount then (if g_metric a \<noteq> [] then Some (ErrCountMetric (g_metric a)) else None)
      else if metric_from 0 (Metrics sc) (g_metric a) = None then Some (ErrUnknownMetric (g_metric a)) else None)"

fun first_err :: "schema \<Rightarrow> agg list \<Rightarrow> err option" where
  "first_err sc [] = None"
| "first_err sc (a # as) = (case agg_err sc a of Some e \<Rightarrow> Some e | None \<Rightarrow> first_err sc as)"

lemma pick_first_single [simp]: "pick_first better [v] = v"
  by (simp add: pick_first_def)

lemma pick_first_snoc:
  "vs \<noteq> [] \<Longrightarrow> pick_first better (vs @ [v]) = (if better v (pick_first better vs) then v else pick_first better vs)"
  by (cases vs) (auto simp: pick_first_def)

section \<open>Resolving the columns\<close>

definition met_of :: "schema \<Rightarrow> agg \<Rightarrow> int" where
  "met_of sc a = (if g_op a = AggDistinct \<or> g_op a = AggCount then - 1 else int (the (metric_from 0 (Metrics sc) (g_metric a))))"

definition ddim_of :: "schema \<Rightarrow> agg \<Rightarrow> int" where
  "ddim_of sc a = (if g_op a = AggDistinct then int (the (dimIndex sc (g_dim a))) else - 1)"

lemma metric_from_Some: "metric_from m xs name = Some i \<Longrightarrow> m \<le> i \<and> i < m + length xs"
  by (induction m xs name rule: metric_from.induct) (auto split: if_splits)

lemma resolveAgg_spec:
  assumes "length (q_mets qs) < k_mets (q_caps qs)" "length (q_ddims qs) < k_ddims (q_caps qs)"
    and "length (q_ddims qs) = length (q_mets qs)"
  shows "resolveAgg sc a qs =
    (case agg_err sc a of Some e \<Rightarrow> Inl e
     | None \<Rightarrow> Inr (qs\<lparr>q_mets := q_mets qs @ [met_of sc a], q_ddims := q_ddims qs @ [ddim_of sc a]\<rparr>))"
proof -
  have p: "push (k_mets (q_caps qs)) (q_mets qs) (- 1) = Inr (q_mets qs @ [- 1])"
    "push (k_ddims (q_caps qs)) (q_ddims qs) (- 1) = Inr (q_ddims qs @ [- 1])"
    using assms by (simp_all add: push_def)
  have u: "(q_mets qs @ [- 1])[length (q_mets qs) := x] = q_mets qs @ [x]"
    "(q_ddims qs @ [- 1])[length (q_mets qs) := x] = q_ddims qs @ [x]" for x
    using assms(3) by (simp_all add: list_update_append)
  have ne: "AggDistinct \<noteq> AggCount" by (simp add: agg_ops)
  note defs = resolveAgg_def p agg_err_def met_of_def ddim_of_def Let_def u ne
  consider (bad) "g_op a > AggDistinct" | (distinct) "g_op a = AggDistinct" | (count) "g_op a = AggCount"
    | (other) "\<not> g_op a > AggDistinct" "g_op a \<noteq> AggDistinct" "g_op a \<noteq> AggCount" by blast
  then show ?thesis
  proof cases
    case bad
    then show ?thesis by (simp add: defs)
  next
    case distinct
    then show ?thesis by (cases "dimIndex sc (g_dim a)") (simp_all add: defs)
  next
    case count
    then show ?thesis by (simp add: defs agg_ops)
  next
    case other
    then show ?thesis by (cases "metric_from 0 (Metrics sc) (g_metric a)"; cases "g_dim a = []") (simp_all add: defs)
  qed
qed

lemma resolveLoop_spec:
  assumes "length (q_mets qs) + length as \<le> k_mets (q_caps qs)" "length (q_mets qs) + length as \<le> k_ddims (q_caps qs)"
    and "length (q_ddims qs) = length (q_mets qs)"
  shows "resolveLoop sc as qs =
    (case first_err sc as of Some e \<Rightarrow> Inl e
     | None \<Rightarrow> Inr (qs\<lparr>q_mets := q_mets qs @ map (met_of sc) as, q_ddims := q_ddims qs @ map (ddim_of sc) as\<rparr>))"
  using assms
proof (induction as arbitrary: qs)
  case (Cons a as)
  let ?qs = "qs\<lparr>q_mets := q_mets qs @ [met_of sc a], q_ddims := q_ddims qs @ [ddim_of sc a]\<rparr>"
  have one: "resolveAgg sc a qs = (case agg_err sc a of Some e \<Rightarrow> Inl e | None \<Rightarrow> Inr ?qs)"
    using Cons.prems by (intro resolveAgg_spec) auto
  show ?case
  proof (cases "agg_err sc a")
    case None
    have "resolveLoop sc as ?qs =
      (case first_err sc as of Some e \<Rightarrow> Inl e
       | None \<Rightarrow> Inr (?qs\<lparr>q_mets := q_mets ?qs @ map (met_of sc) as, q_ddims := q_ddims ?qs @ map (ddim_of sc) as\<rparr>))"
      using Cons.prems by (intro Cons.IH) auto
    then show ?thesis using one None by (simp split: option.splits)
  qed (simp add: one)
qed simp

section \<open>One column\<close>

text \<open>The accumulator and bitmap of a column after a list of rows, and the number of rows.\<close>

definition colStep :: "aggOp \<Rightarrow> int \<Rightarrow> int \<Rightarrow> u32 list \<times> arow \<Rightarrow> (f64 \<times> u64 list) \<times> int \<Rightarrow> (f64 \<times> u64 list) \<times> int" where
  "colStep op mi d x st =
     (foldCol op mi d (snd st = 0) (\<lambda>m. a_mets (snd x) ! m) (\<lambda>dd. fst x ! dd) (fst (fst st)) (snd (fst st)), snd st + 1)"

definition colRun :: "aggOp \<Rightarrow> int \<Rightarrow> int \<Rightarrow> (u32 list \<times> arow) list \<Rightarrow> u64 list \<Rightarrow> (f64 \<times> u64 list) \<times> int" where
  "colRun op mi d rows bm = fold (colStep op mi d) rows ((0, bm), 0)"

lemma colRun_append: "colRun op mi d (xs @ [x]) bm = colStep op mi d x (colRun op mi d xs bm)"
  by (simp add: colRun_def)

lemma colRun_count: "snd (colRun op mi d rows bm) = int (length rows)"
  by (induction rows rule: rev_induct) (simp_all add: colRun_append colStep_def, simp add: colRun_def)

lemma colRun_sum:
  assumes "op = AggSum \<or> op = AggAvg" "d < 0" "0 \<le> mi"
  shows "fst (fst (colRun op mi d rows bm)) = fold (\<lambda>v acc. f_add acc v) (map (\<lambda>x. a_mets (snd x) ! nat mi) rows) 0"
proof (induction rows rule: rev_induct)
  case (snoc x xs)
  then show ?case using assms by (simp add: colRun_append colStep_def foldCol_def Let_def)
qed (simp add: colRun_def)

lemma colRun_first:
  assumes "op = AggMin \<and> better = f_less \<or> op = AggMax \<and> better = (\<lambda>v acc. f_less acc v)" "d < 0" "0 \<le> mi" "rows \<noteq> []"
  shows "fst (fst (colRun op mi d rows bm)) = pick_first better (map (\<lambda>x. a_mets (snd x) ! nat mi) rows)"
  using assms(4)
proof (induction rows rule: rev_nonempty_induct)
  case (single x)
  then show ?case using assms(1-3) by (auto simp: colRun_def colStep_def foldCol_def Let_def agg_ops)
next
  case (snoc x xs)
  have "snd (colRun op mi d xs bm) \<noteq> 0" using snoc(1) by (simp add: colRun_count)
  then show ?case using snoc(1,2) assms(1-3)
    by (auto simp: colRun_append colStep_def foldCol_def Let_def pick_first_snoc agg_ops)
qed

text \<open>A distinct column: the bitmap holds the ids seen, the accumulator their number.\<close>

lemma unat_low6: "unat (i AND 63 :: u32) = unat i mod 64"
proof -
  have "i AND 63 = i mod 64" by (simp add: take_bit_eq_mask mask_numeral flip: take_bit_eq_mod [of 6 i, simplified])
  then show ?thesis by (simp add: unat_mod)
qed

lemma unat_high6: "unat (drop_bit 6 i :: u32) = unat i div 64"
  by (simp add: drop_bit_eq_div unat_div)

lemma distinct_step:
  assumes "0 \<le> d" "unat (dimID (nat d)) div 64 < length bm"
  shows "foldCol op mi d first metric dimID acc bm =
    (let i = unat (dimID (nat d)) in if bitGet bm i then (acc, bm) else (f_add acc f_one, bitSet bm i))"
  using assms by (simp add: foldCol_def Let_def unat_low6 unat_high6 bitGet_def bitSet_def)

lemma f_of_int_small: "f_of_int 0 = 0" "f_of_int 1 = f_one"
  by code_simp+

lemma colRun_distinct:
  assumes d: "0 \<le> d" and n: "\<forall>x \<in> set rows. unat (fst x ! nat d) < n" "n < 2 ^ 53"
  defines "bm \<equiv> replicate ((n + 63) div 64) 0"
  shows "fst (fst (colRun op mi d rows bm)) = f_of_int (int (card ((\<lambda>x. fst x ! nat d) ` set rows))) \<and>
    length (snd (fst (colRun op mi d rows bm))) = (n + 63) div 64 \<and>
    (\<forall>i. bitGet (snd (fst (colRun op mi d rows bm))) i \<longleftrightarrow> i \<in> (\<lambda>x. unat (fst x ! nat d)) ` set rows)"
  using n(1)
proof (induction rows rule: rev_induct)
  case Nil
  then show ?case by (auto simp: colRun_def bm_def f_of_int_small)
next
  case (snoc x xs)
  let ?S = "(\<lambda>x. fst x ! nat d) ` set xs" and ?i = "fst x ! nat d"
  have IH: "fst (fst (colRun op mi d xs bm)) = f_of_int (int (card ?S))"
    "length (snd (fst (colRun op mi d xs bm))) = (n + 63) div 64"
    "\<And>i. bitGet (snd (fst (colRun op mi d xs bm))) i \<longleftrightarrow> i \<in> (\<lambda>x. unat (fst x ! nat d)) ` set xs"
    using snoc by auto
  have word: "unat ?i div 64 < (n + 63) div 64" using snoc.prems by (intro bitmap_word) simp
  have seen: "bitGet (snd (fst (colRun op mi d xs bm))) (unat ?i) \<longleftrightarrow> ?i \<in> ?S"
    unfolding IH(3) by (auto simp: image_iff word_unat_eq_iff)
  have step: "colRun op mi d (xs @ [x]) bm =
      (if ?i \<in> ?S then fst (colRun op mi d xs bm)
       else (f_add (f_of_int (int (card ?S))) f_one, bitSet (snd (fst (colRun op mi d xs bm))) (unat ?i)),
       snd (colRun op mi d xs bm) + 1)"
    using d word IH(2) seen by (simp add: colRun_append colStep_def distinct_step Let_def IH(1) [symmetric])
  have le: "card T \<le> n" if "\<forall>y \<in> T. unat y < n" for T :: "u32 set"
  proof -
    have "card T = card (unat ` T)" by (intro card_image [symmetric]) (auto simp: inj_on_def word_unat_eq_iff)
    also have "\<dots> \<le> card {..<n}" using that by (intro card_mono) auto
    finally show ?thesis by simp
  qed
  have "card (insert ?i ?S) \<le> n" using snoc.prems by (intro le) auto
  then have "?i \<notin> ?S \<Longrightarrow> int (card ?S) + 1 < 2 ^ 53" using n(2) by simp
  then have add: "?i \<notin> ?S \<Longrightarrow> f_add (f_of_int (int (card ?S))) f_one = f_of_int (int (card ?S) + 1)"
    using f_add_int [of "int (card ?S)" 1] by (simp add: f_of_int_small(2))
  have S: "(\<lambda>x. fst x ! nat d) ` set (xs @ [x]) = insert ?i ?S" by simp
  show ?case
  proof (cases "?i \<in> ?S")
    case True
    then have "unat ?i \<in> unat ` ?S" by (rule imageI)
    then have "unat ?i \<in> (\<lambda>x. unat (fst x ! nat d)) ` set xs" by (simp only: image_image)
    then have "(\<lambda>x. unat (fst x ! nat d)) ` set (xs @ [x]) = (\<lambda>x. unat (fst x ! nat d)) ` set xs" by auto
    then show ?thesis unfolding S using True IH step by (simp add: insert_absorb)
  next
    case False
    then have "card (insert ?i ?S) = card ?S + 1" by simp
    then show ?thesis unfolding S using False IH step add word
      by (simp add: bitGet_bitSet add.commute)
  qed
qed

section \<open>All columns\<close>

lemma foldCol_cong:
  "(0 \<le> mi \<Longrightarrow> m (nat mi) = m' (nat mi)) \<Longrightarrow> (0 \<le> d \<Longrightarrow> f (nat d) = f' (nat d)) \<Longrightarrow>
   foldCol op mi d first m f acc bm = foldCol op mi d first m' f' acc bm"
  by (simp add: foldCol_def)

lemma foldAgg_cols:
  fixes mets ddims :: "int list" and first :: bool and m :: "nat \<Rightarrow> f64" and f :: "nat \<Rightarrow> u32"
  assumes "length acc = length aggs" "length bms = length aggs"
  defines "C \<equiv> \<lambda>j. foldCol (g_op (aggs ! j)) (mets ! j) (ddims ! j) first m f (acc ! j) (bms ! j)"
  shows "foldAgg aggs mets ddims first m f (acc, bms) =
    (map (\<lambda>j. fst (C j)) [0..<length aggs], map (\<lambda>j. snd (C j)) [0..<length aggs])"
proof -
  let ?F = "\<lambda>j (acc, bms).
      let (x, bm) = foldCol (g_op (aggs ! j)) (mets ! j) (ddims ! j) first m f (acc ! j) (bms ! j)
      in (acc[j := x], bms[j := bm])"
  have "fold ?F [0..<k] (acc, bms) = (map (\<lambda>j. fst (C j)) [0..<k] @ drop k acc, map (\<lambda>j. snd (C j)) [0..<k] @ drop k bms)"
    if "k \<le> length aggs" for k
    using that
  proof (induction k)
    case (Suc k)
    have a: "drop k acc = acc ! k # drop (Suc k) acc" "drop k bms = bms ! k # drop (Suc k) bms"
      using Suc.prems assms(1,2) by (simp_all add: Cons_nth_drop_Suc)
    have "fold ?F [0..<Suc k] (acc, bms) = ?F k (fold ?F [0..<k] (acc, bms))" by simp
    also have "\<dots> = ?F k (map (\<lambda>j. fst (C j)) [0..<k] @ drop k acc, map (\<lambda>j. snd (C j)) [0..<k] @ drop k bms)"
      using Suc by simp
    also have "\<dots> = (map (\<lambda>j. fst (C j)) [0..<Suc k] @ drop (Suc k) acc, map (\<lambda>j. snd (C j)) [0..<Suc k] @ drop (Suc k) bms)"
      by (simp add: a nth_append list_update_append C_def Let_def case_prod_beta)
    finally show ?case .
  qed simp
  from this [of "length aggs"] show ?thesis using assms(1,2) by (simp add: foldAgg_def)
qed

definition aggR :: "agg list \<Rightarrow> int list \<Rightarrow> int list \<Rightarrow> u32 list \<times> arow
    \<Rightarrow> (f64 list \<times> u64 list list) \<times> int \<Rightarrow> (f64 list \<times> u64 list list) \<times> int" where
  "aggR aggs mets ddims x st =
     (foldAgg aggs mets ddims (snd st = 0) (\<lambda>m. a_mets (snd x) ! m) (\<lambda>dd. fst x ! dd) (fst st), snd st + 1)"

lemma agg_run:
  fixes mets ddims :: "int list"
  assumes "length bms = length aggs"
  defines "R \<equiv> \<lambda>rows j. fst (colRun (g_op (aggs ! j)) (mets ! j) (ddims ! j) rows (bms ! j))"
  shows "fold (aggR aggs mets ddims) rows ((replicate (length aggs) 0, bms), 0) =
    ((map (\<lambda>j. fst (R rows j)) [0..<length aggs], map (\<lambda>j. snd (R rows j)) [0..<length aggs]), int (length rows))"
proof (induction rows rule: rev_induct)
  case Nil
  have "bms = map (\<lambda>j. bms ! j) [0..<length aggs]" using assms(1) map_nth [of bms] by simp
  then show ?case by (simp add: R_def colRun_def map_replicate_const)
next
  case (snoc x xs)
  have c: "snd (colRun (g_op (aggs ! j)) (mets ! j) (ddims ! j) xs (bms ! j)) = int (length xs)" for j
    by (rule colRun_count)
  show ?case
    using snoc by (simp add: aggR_def foldAgg_cols R_def colRun_append colStep_def c)
qed

text \<open>The row closures of the code read the columns; \<open>aggR\<close> reads the row.\<close>

lemma aggRow_aggR:
  assumes "\<And>j. j < length aggs \<Longrightarrow> 0 \<le> mets ! j \<Longrightarrow> nat (mets ! j) < length metCols"
    and "\<And>j. j < length aggs \<Longrightarrow> 0 \<le> ddims ! j \<Longrightarrow> nat (ddims ! j) < length dimCols"
    and "fst x = row_of dimCols r" "a_mets (snd x) = row_of metCols r"
  shows "aggRow aggs mets ddims metCols dimCols r st = aggR aggs mets ddims x st"
proof -
  have "foldCol (g_op (aggs ! j)) (mets ! j) (ddims ! j) first (\<lambda>m. metCols ! m ! r) (\<lambda>dd. dimCols ! dd ! r) a b =
      foldCol (g_op (aggs ! j)) (mets ! j) (ddims ! j) first (\<lambda>m. a_mets (snd x) ! m) (\<lambda>dd. fst x ! dd) a b"
    if "j < length aggs" for j first a b
    using assms that by (intro foldCol_cong) (simp_all add: row_of_def)
  then show ?thesis unfolding aggRow_def aggR_def foldAgg_def
    by (auto intro!: fold_cong simp: fun_eq_iff)
qed

section \<open>The answer\<close>

lemma first_err_None: "first_err sc as = None \<longleftrightarrow> (\<forall>a \<in> set as. agg_err sc a = None)"
  by (induction as) (auto split: option.splits)

text \<open>The indices that a valid column resolves to.\<close>

lemma met_of_less: "agg_err sc a = None \<Longrightarrow> 0 \<le> met_of sc a \<Longrightarrow> nat (met_of sc a) < nmets sc"
  using metric_from_Some [of 0 "Metrics sc" "g_metric a"]
  by (auto simp: met_of_def agg_err_def split: if_splits)

lemma ddim_of_less: "agg_err sc a = None \<Longrightarrow> 0 \<le> ddim_of sc a \<Longrightarrow> nat (ddim_of sc a) < ndims sc"
  by (auto simp: ddim_of_def agg_err_def split: if_splits dest: dimIndex_Some)

text \<open>Distinct ids of a column are distinct values.\<close>

lemma card_ids:
  assumes v: "view_ok sc v" and d: "d < ndims sc" and rows: "\<forall>x \<in> set rows. ids_ok (view_vals v) (fst x)"
  shows "card ((\<lambda>x. fst x ! d) ` set rows) = card ((\<lambda>x. fst x ! d) ` set (keyed v rows))"
proof -
  have len: "length (view_vals v) = ndims sc" using view_ok_lengths(3) [OF v] .
  have "(\<lambda>x. fst x ! d) ` set (keyed v rows) = (\<lambda>i. view_vals v ! d ! unat i) ` (\<lambda>x. fst x ! d) ` set rows"
    unfolding keyed_def set_map image_image fst_conv
    using decode_at [OF v _ d] rows by (intro image_cong) auto
  moreover have "inj_on (\<lambda>i. view_vals v ! d ! unat i) ((\<lambda>x. fst x ! d) ` set rows)"
  proof (rule inj_onI)
    fix i j assume ij: "i \<in> (\<lambda>x. fst x ! d) ` set rows" "j \<in> (\<lambda>x. fst x ! d) ` set rows"
      "view_vals v ! d ! unat i = view_vals v ! d ! unat j"
    have "unat i < length (view_vals v ! d)" "unat j < length (view_vals v ! d)"
      using ij(1,2) rows decode_at [OF v _ d] by auto
    moreover have "distinct (view_vals v ! d)" using view_vals_distinct [OF v] len d by (simp del: length_view_vals)
    ultimately have "unat i = unat j" using ij(3) by (simp add: nth_eq_iff_index_eq)
    then show "i = j" by (simp add: word_unat_eq_iff)
  qed
  ultimately show ?thesis by (simp add: card_image)
qed

lemma agg_out:
  assumes v: "view_ok sc v" and a: "agg_err sc a = None" and rows: "\<forall>x \<in> set rows. ids_ok (view_vals v) (fst x)"
    and bm: "0 \<le> ddim_of sc a \<Longrightarrow>
      bm = replicate ((dlen (s_dicts (v_base v) ! nat (ddim_of sc a)) + dlen (v_extras v ! nat (ddim_of sc a)) + 63) div 64) 0"
  shows "aggOut (g_op a) (fst (fst (colRun (g_op a) (met_of sc a) (ddim_of sc a) rows bm))) (int (length rows)) =
    agg_spec sc (keyed v rows) a"
proof -
  have len: "length (keyed v rows) = length rows" by (simp add: keyed_def)
  have nil: "keyed v rows = [] \<longleftrightarrow> rows = []" by (simp add: keyed_def)
  have vals: "map (\<lambda>x. a_mets (snd x) ! nat (met_of sc a)) rows = metric_vals sc (g_metric a) (keyed v rows)"
    if "0 \<le> met_of sc a"
    using that by (auto simp: metric_vals_def keyed_def met_of_def split: if_splits)
  consider (distinct) "g_op a = AggDistinct" | (count) "g_op a = AggCount" | (sum) "g_op a = AggSum \<or> g_op a = AggAvg"
    | (first) "g_op a = AggMin \<or> g_op a = AggMax"
  proof -
    have "unat (g_op a) \<le> 5" using a by (auto simp: agg_err_def agg_ops word_le_nat_alt not_less split: if_splits)
    then have "unat (g_op a) \<in> {0, 1, 2, 3, 4, 5}" by auto
    then have "g_op a \<in> {0, 1, 2, 3, 4, 5}" by (auto simp: word_unat_eq_iff)
    then show thesis using that by (auto simp: agg_ops)
  qed
  then show ?thesis
  proof cases
    case distinct
    let ?d = "nat (ddim_of sc a)"
    have d: "0 \<le> ddim_of sc a" "?d = the (dimIndex sc (g_dim a))" using distinct by (simp_all add: ddim_of_def)
    have dn: "?d < ndims sc" by (rule ddim_of_less [OF a d(1)])
    let ?n = "dlen (s_dicts (v_base v) ! ?d) + dlen (v_extras v ! ?d)"
    have c: "comb_ok (s_dicts (v_base v) ! ?d) (v_extras v ! ?d)" using view_okD(2) [OF v] dn by (rule extras_okD(2))
    have n: "?n = length (view_vals v ! ?d)" using dn view_ok_lengths [OF v] by (simp add: view_vals_nth)
    have "\<forall>x \<in> set rows. unat (fst x ! ?d) < ?n" using rows decode_at [OF v _ dn] by (simp add: n)
    moreover have "?n < 2 ^ 53" using c by (simp add: comb_ok_def)
    ultimately show ?thesis
      using colRun_distinct [OF d(1), of rows ?n "g_op a" "met_of sc a"] distinct card_ids [OF v dn rows] bm [OF d(1)]
      by (simp add: aggOut_def agg_spec_def Let_def agg_ops d(2))
  next
    case count
    then show ?thesis by (simp add: aggOut_def agg_spec_def Let_def len)
  next
    case sum
    have i: "ddim_of sc a < 0" "0 \<le> met_of sc a" using sum by (auto simp: ddim_of_def met_of_def agg_ops)
    show ?thesis using colRun_sum [OF sum i, of rows bm] sum vals [OF i(2)] len nil
      by (auto simp: aggOut_def agg_spec_def Let_def agg_ops)
  next
    case first
    have i: "ddim_of sc a < 0" "0 \<le> met_of sc a" using first by (auto simp: ddim_of_def met_of_def agg_ops)
    show ?thesis
    proof (cases "rows = []")
      case True
      then show ?thesis using first
        by (auto simp: aggOut_def agg_spec_def Let_def agg_ops keyed_def metric_vals_def pick_first_def)
    next
      case False
      then show ?thesis
        using first colRun_first [of "g_op a" f_less, OF _ i False] vals [OF i(2)] len nil
          colRun_first [of "g_op a" "\<lambda>v acc. f_less acc v", OF _ i False]
        by (auto simp: aggOut_def agg_spec_def Let_def agg_ops)
    qed
  qed
qed

interpretation aggregates: row_consumer "first_err sc aggs = None" sc
    "\<lambda>dimCols metCols. aggRow aggs (map (met_of sc) aggs) (map (ddim_of sc) aggs) metCols dimCols"
    "aggR aggs (map (met_of sc) aggs) (map (ddim_of sc) aggs)" for sc aggs
proof unfold_locales
  fix dimCols :: "u32 list list" and metCols :: "f64 list list" and x :: "u32 list \<times> arow" and r acc
  assume e: "first_err sc aggs = None" and cols: "length dimCols = ndims sc" "length metCols = nmets sc"
    and x: "fst x = row_of dimCols r" "a_mets (snd x) = row_of metCols r"
  have none: "agg_err sc (aggs ! j) = None" if "j < length aggs" for j using e that first_err_None by auto
  show "aggRow aggs (map (met_of sc) aggs) (map (ddim_of sc) aggs) metCols dimCols r acc =
      aggR aggs (map (met_of sc) aggs) (map (ddim_of sc) aggs) x acc"
    using met_of_less [OF none] ddim_of_less [OF none] by (intro aggRow_aggR x) (simp_all add: cols)
qed

lemma resolveAggs_spec:
  assumes "agg_room (length aggs) qs"
  shows "resolveAggs sc aggs qs =
    (if aggs = [] then Inl ErrBadAggCount
     else case first_err sc aggs of Some e \<Rightarrow> Inl e
       | None \<Rightarrow> Inr (qs\<lparr>q_mets := map (met_of sc) aggs, q_ddims := map (ddim_of sc) aggs\<rparr>))"
  using assms resolveLoop_spec [of qs aggs sc]
  by (cases "first_err sc aggs") (simp_all add: resolveAggs_def agg_room_def)

lemma hits_ids_ok: "view_ok sc v \<Longrightarrow> \<forall>x \<in> set (hits sc v now gs). ids_ok (view_vals v) (fst x)"
  using view_rows_ids_ok by (auto simp: hits_def)

text \<open>The columns after the two sweeps are the aggregates of the rows of the answer.\<close>

lemma aggs_of_hits:
  fixes rows and sc :: schema and v :: view and aggs :: "agg list"
  defines "out \<equiv> fold (aggR aggs (map (met_of sc) aggs) (map (ddim_of sc) aggs)) rows
      ((replicate (length aggs) 0, makeBms v (map (ddim_of sc) aggs) (length aggs)), 0)"
  assumes v: "view_ok sc v" and e: "first_err sc aggs = None" and ids: "\<forall>x \<in> set rows. ids_ok (view_vals v) (fst x)"
  shows "map (\<lambda>j. aggOut (g_op (aggs ! j)) (fst (fst out) ! j) (snd out)) [0..<length aggs] =
    map (agg_spec sc (keyed v rows)) aggs"
proof (rule nth_equalityI)
  let ?bms = "makeBms v (map (ddim_of sc) aggs) (length aggs)"
  fix j assume "j < length (map (\<lambda>j. aggOut (g_op (aggs ! j)) (fst (fst out) ! j) (snd out)) [0..<length aggs])"
  then have j: "j < length aggs" by simp
  have run: "out = ((map (\<lambda>j. fst (fst (colRun (g_op (aggs ! j)) (map (met_of sc) aggs ! j) (map (ddim_of sc) aggs ! j) rows (?bms ! j)))) [0..<length aggs],
      map (\<lambda>j. snd (fst (colRun (g_op (aggs ! j)) (map (met_of sc) aggs ! j) (map (ddim_of sc) aggs ! j) rows (?bms ! j)))) [0..<length aggs]),
      int (length rows))"
    unfolding out_def by (rule agg_run) (simp add: makeBms_def)
  have "agg_err sc (aggs ! j) = None" using e j first_err_None by auto
  from agg_out [OF v this ids, of "?bms ! j"] j
  show "map (\<lambda>j. aggOut (g_op (aggs ! j)) (fst (fst out) ! j) (snd out)) [0..<length aggs] ! j =
      map (agg_spec sc (keyed v rows)) aggs ! j"
    by (simp add: run makeBms_def)
qed simp

lemma queryAggs_answer:
  assumes v: "view_ok (sto_sc s) (sto_view s)" and room: "plan_room gs qs" "agg_room (length aggs) qs" and srt: "sorter srt"
  shows "\<exists>res s1. queryAggs srt s aggs gs t qs = Some (res, s1) \<and> stats_only s s1 \<and>
    (if aggs = [] then res = Inl ErrBadAggCount
     else case first_err (sto_sc s) aggs of
        Some e \<Rightarrow> res = Inl e
      | None \<Rightarrow> \<exists>pres qs1. plan_answer s (sto_view s) gs qs1 pres s1 \<and>
          (case pres of Inl e \<Rightarrow> res = Inl e
           | Inr _ \<Rightarrow> res = Inr (map (agg_spec (sto_sc s)
               (keyed (sto_view s) (hits (sto_sc s) (sto_view s) (unix_milli t) gs))) aggs)))"
proof (cases "aggs = [] \<or> first_err (sto_sc s) aggs \<noteq> None")
  case True
  then show ?thesis using resolveAggs_spec [OF room(2)] by (auto simp: queryAggs_def stats_only_def)
next
  case False
  let ?v = "sto_view s" and ?sc = "sto_sc s"
  define qs0 where "qs0 = qs\<lparr>q_mets := map (met_of ?sc) aggs, q_ddims := map (ddim_of ?sc) aggs\<rparr>"
  define bms where "bms = makeBms ?v (map (ddim_of ?sc) aggs) (length aggs)"
  have res: "resolveAggs ?sc aggs qs = Inr qs0" using False resolveAggs_spec [OF room(2), of ?sc] by (auto simp: qs0_def)
  have r0: "plan_room gs (qs0\<lparr>q_bms := bms\<rparr>)" using room(1) by (simp add: plan_room_def fresh_def cond_room_def qs0_def)
  obtain pres s1 where p: "planGroups srt s ?v gs (qs0\<lparr>q_bms := bms\<rparr>) = Some (pres, s1)" and a: "plan_answer s ?v gs (qs0\<lparr>q_bms := bms\<rparr>) pres s1"
    and fr: "\<And>qs1. pres = Inr qs1 \<Longrightarrow> agg_frame (qs0\<lparr>q_bms := bms\<rparr>) qs1"
    using planGroups_answer [OF v r0 srt] by blast
  have st: "stats_only s s1" using a by (rule plan_answerD)
  have k: "\<not> length aggs > k_bms (q_caps qs0)" "q_ddims qs0 = map (ddim_of ?sc) aggs"
    using room(2) by (simp_all add: agg_room_def qs0_def)
  show ?thesis
  proof (cases pres)
    case (Inl e)
    have "queryAggs srt s aggs gs t qs = Some (Inl e, s1)"
      using res k p Inl by (simp add: queryAggs_def bms_def)
    then show ?thesis using False a st Inl by auto
  next
    case (Inr qs1)
    have q1: "q_mets qs1 = map (met_of ?sc) aggs" "q_ddims qs1 = map (ddim_of ?sc) aggs" "q_bms qs1 = bms"
      "\<not> length aggs > k_acc (q_caps qs1)"
      using fr [OF Inr] room(2) by (simp_all add: agg_frame_def qs0_def agg_room_def)
    obtain be de now where c: "queryClock ?v t = (be, de, now)" by (cases "queryClock ?v t")
    have pl: "planned_ok ?sc ?v gs qs1" and e: "first_err ?sc aggs = None" using plan_answerD(3) [OF a Inr] False by auto
    have "queryAggs srt s aggs gs t qs = Some (Inr (map (agg_spec ?sc (keyed ?v (hits ?sc ?v (unix_milli t) gs))) aggs), s1)"
      using res k p Inr c q1 aggregates.sweep_fold [OF e v pl c]
      by (simp add: queryAggs_def Let_def bms_def [symmetric] split_beta aggs_of_hits [OF v e hits_ids_ok [OF v], folded bms_def])
    then show ?thesis using False a st Inr by auto
  qed
qed

end
