(* ===== verification/GroupBy.thy ===== *)
theory GroupBy
  imports AggSound "HOL-Library.List_Lexorder" "HOL-Library.Char_ord"
begin

text \<open>
  \<open>groupby.go\<close>: \<open>QueryGroupBy\<close> folds each matching row into the accumulators of its group,
  found by the packed ids of the by-dimensions, and writes the groups out sorted by their key
  strings. Go compares strings bytewise, which is the lexicographic order on characters.
\<close>

section \<open>The result buffer\<close>

record dkey =
  dk_c :: byte
  dk_g :: "32 word"
  dk_id :: u32

text \<open>The scratch \<open>kb\<close>, which only saves an allocation, has no field.\<close>

record groupedResult =
  gr_N :: nat
  gr_Keys :: "string list"
  gr_Aggs :: "f64 list"
  gr_idx :: "byte list \<rightharpoonup> nat"
  gr_dset :: "dkey set"
  gr_skeys :: "string list"
  gr_saggs :: "f64 list"
  gr_cnt :: "int list"
  gr_ord :: "nat list"

definition zeroResult :: groupedResult where
  "zeroResult = \<lparr>gr_N = 0, gr_Keys = [], gr_Aggs = [], gr_idx = Map.empty, gr_dset = {}, gr_skeys = [],
     gr_saggs = [], gr_cnt = [], gr_ord = []\<rparr>"

section \<open>The by-dimensions\<close>

fun resolveBy :: "schema \<Rightarrow> string list \<Rightarrow> nat list \<Rightarrow> err + nat list" where
  "resolveBy sc [] ds = Inr ds"
| "resolveBy sc (name # rest) ds =
     (case dimIndex sc name of
        None \<Rightarrow> Inl (ErrUnknownDim name)
      | Some di \<Rightarrow> if list_ex (\<lambda>d. d = di) ds then Inl (ErrDuplicateBy name) else resolveBy sc rest (ds @ [di]))"

section \<open>Visiting a row\<close>

text \<open>Column \<open>j\<close> of a group that the row creates.\<close>

definition newCol :: "int list \<Rightarrow> int list \<Rightarrow> nat \<Rightarrow> (nat \<Rightarrow> u32) \<Rightarrow> (nat \<Rightarrow> f64) \<Rightarrow> nat
    \<Rightarrow> dkey set \<times> f64 list \<Rightarrow> dkey set \<times> f64 list" where
  "newCol mets ddims g dimID met j = (\<lambda>(dset, saggs).
     if ddims ! j \<ge> 0 then
       (insert \<lparr>dk_c = of_nat j, dk_g = of_nat g, dk_id = dimID (nat (ddims ! j))\<rparr> dset, saggs @ [f_one])
     else if mets ! j \<ge> 0 then (dset, saggs @ [met (nat (mets ! j))])
     else (dset, saggs @ [0]))"

text \<open>Column \<open>j\<close> of a group that exists, at position \<open>g * na + j\<close>.\<close>

definition updCol :: "agg list \<Rightarrow> int list \<Rightarrow> int list \<Rightarrow> nat \<Rightarrow> (nat \<Rightarrow> u32) \<Rightarrow> (nat \<Rightarrow> f64) \<Rightarrow> nat
    \<Rightarrow> dkey set \<times> f64 list \<Rightarrow> dkey set \<times> f64 list" where
  "updCol aggs mets ddims g dimID met j = (\<lambda>(dset, saggs).
     let p = g * length aggs + j in
     if ddims ! j \<ge> 0 then
       (let k = \<lparr>dk_c = of_nat j, dk_g = of_nat g, dk_id = dimID (nat (ddims ! j))\<rparr>
        in if k \<notin> dset then (insert k dset, saggs[p := f_add (saggs ! p) f_one]) else (dset, saggs))
     else if mets ! j < 0 then (dset, saggs)
     else
       let m = met (nat (mets ! j)); op = g_op (aggs ! j)
       in (dset,
           if op = AggSum \<or> op = AggAvg then saggs[p := f_add (saggs ! p) m]
           else if op = AggMin then (if f_less m (saggs ! p) then saggs[p := m] else saggs)
           else if op = AggMax then (if f_less (saggs ! p) m then saggs[p := m] else saggs)
           else saggs))"

definition visit :: "view \<Rightarrow> nat list \<Rightarrow> agg list \<Rightarrow> int list \<Rightarrow> int list \<Rightarrow> (nat \<Rightarrow> u32) \<Rightarrow> (nat \<Rightarrow> f64)
    \<Rightarrow> groupedResult \<Rightarrow> groupedResult" where
  "visit v byDims aggs mets ddims dimID met res =
     (let kb = concat (map (\<lambda>d. le32 (dimID d)) byDims) in
      case gr_idx res kb of
        None \<Rightarrow>
          (let g = length (gr_cnt res);
               (dset, saggs) = fold (newCol mets ddims g dimID met) [0..<length aggs] (gr_dset res, gr_saggs res)
           in res\<lparr>gr_idx := (gr_idx res)(kb \<mapsto> g),
                  gr_skeys := gr_skeys res @ map (\<lambda>d. dimString v d (dimID d)) byDims,
                  gr_dset := dset, gr_saggs := saggs, gr_cnt := gr_cnt res @ [1]\<rparr>)
      | Some g \<Rightarrow>
          (let (dset, saggs) = fold (updCol aggs mets ddims g dimID met) [0..<length aggs] (gr_dset res, gr_saggs res)
           in res\<lparr>gr_cnt := (gr_cnt res)[g := gr_cnt res ! g + 1], gr_dset := dset, gr_saggs := saggs\<rparr>))"

section \<open>Finalising and sorting\<close>

definition finalCell :: "agg list \<Rightarrow> int list \<Rightarrow> nat \<Rightarrow> nat \<Rightarrow> f64 list \<Rightarrow> f64 list" where
  "finalCell aggs cnt g j saggs =
     (let p = g * length aggs + j; op = g_op (aggs ! j)
      in if op = AggCount then saggs[p := f_of_int (cnt ! g)]
         else if op = AggAvg then saggs[p := f_div (saggs ! p) (f_of_int (cnt ! g))]
         else saggs)"

definition finalizeAggs :: "agg list \<Rightarrow> int list \<Rightarrow> f64 list \<Rightarrow> f64 list" where
  "finalizeAggs aggs cnt saggs =
     fold (\<lambda>g saggs. fold (\<lambda>j saggs. finalCell aggs cnt g j saggs) [0..<length aggs] saggs) [0..<length cnt] saggs"

text \<open>The \<open>less\<close> function of \<open>sort.Slice\<close>, on the key strings of two groups.\<close>

fun keysLess :: "string list \<Rightarrow> string list \<Rightarrow> bool" where
  "keysLess (x # xs) (y # ys) = (if x \<noteq> y then x < y else keysLess xs ys)"
| "keysLess _ _ = False"

definition slice :: "nat \<Rightarrow> nat \<Rightarrow> 'a list \<Rightarrow> 'a list" where
  "slice n g xs = take n (drop (g * n) xs)"

definition cmp_less :: "('a \<Rightarrow> 'a \<Rightarrow> bool) \<Rightarrow> 'a \<Rightarrow> 'a \<Rightarrow> int" where
  "cmp_less lt a b = (if lt a b then - 1 else if lt b a then 1 else 0)"

definition finish :: "nat sort_fn \<Rightarrow> nat \<Rightarrow> agg list \<Rightarrow> groupedResult \<Rightarrow> groupedResult" where
  "finish srt nb aggs res =
     (let na = length aggs; G = length (gr_cnt res);
          saggs = finalizeAggs aggs (gr_cnt res) (gr_saggs res);
          ord = srt (cmp_less (\<lambda>a b. keysLess (slice nb a (gr_skeys res)) (slice nb b (gr_skeys res)))) [0..<G]
      in res\<lparr>gr_saggs := saggs, gr_ord := ord,
             gr_Keys := gr_Keys res @ concat (map (\<lambda>g. slice nb g (gr_skeys res)) ord),
             gr_Aggs := gr_Aggs res @ concat (map (\<lambda>g. slice na g saggs) ord),
             gr_N := G\<rparr>)"

section \<open>\<open>QueryGroupBy\<close>\<close>

text \<open>Resetting the buffer; the distinct set is only cleared when a column needs it.\<close>

definition resetResult :: "bool \<Rightarrow> groupedResult \<Rightarrow> groupedResult" where
  "resetResult hasDistinct res =
     res\<lparr>gr_N := 0, gr_Keys := [], gr_Aggs := [], gr_skeys := [], gr_saggs := [], gr_cnt := [],
         gr_idx := Map.empty, gr_dset := (if hasDistinct then {} else gr_dset res)\<rparr>"

text \<open>An error leaves the caller's buffer as it was.\<close>

definition queryGroupBy :: "iv sort_fn \<Rightarrow> nat sort_fn \<Rightarrow> store \<Rightarrow> groupedResult \<Rightarrow> string list \<Rightarrow> agg list
    \<Rightarrow> cond list list \<Rightarrow> instant \<Rightarrow> queryScratch \<Rightarrow> ((err + groupedResult) \<times> store) option" where
  "queryGroupBy isrt srt s res by aggs groups t qs =
     (let sc = sto_sc s; v = sto_view s in
      case resolveAggs sc aggs qs of
        Inl e \<Rightarrow> Some (Inl e, s)
      | Inr qs0 \<Rightarrow>
          if length by = 0 \<or> length by > ndims sc then Some (Inl ErrBadByDims, s)
          else
            (case resolveBy sc by [] of
               Inl e \<Rightarrow> Some (Inl e, s)
             | Inr byDims \<Rightarrow>
                 (case planGroups isrt s v groups qs0 of
                    None \<Rightarrow> None
                  | Some (Inl e, s1) \<Rightarrow> Some (Inl e, s1)
                  | Some (Inr qs1, s1) \<Rightarrow>
                      (let mets = q_mets qs0; ddims = q_ddims qs0; b = v_base v; d = v_delta v;
                           hasDistinct = list_ex (\<lambda>j. ddims ! j \<ge> 0) [0..<length aggs];
                           (baseExp, deltaExp, nowMilli) = queryClock v t;
                           res0 = resetResult hasDistinct res;
                           res1 = sweepBase qs1 v baseExp nowMilli
                             (\<lambda>r. visit v byDims aggs mets ddims (\<lambda>dd. s_dims b ! dd ! r) (\<lambda>m. s_mets b ! m ! r))
                             (q_ivs qs1) 0 res0;
                           res2 = sweepDelta qs1 v deltaExp nowMilli
                             (\<lambda>r. visit v byDims aggs mets ddims (\<lambda>dd. d_dims d ! dd ! r) (\<lambda>m. d_mets d ! m ! r)) res1
                       in Some (Inr (finish srt (length by) aggs res2), s1)))))"

definition QueryGroupBy :: "iv sort_fn \<Rightarrow> nat sort_fn \<Rightarrow> store \<Rightarrow> groupedResult option \<Rightarrow> string list \<Rightarrow> agg list
    \<Rightarrow> cond list list \<Rightarrow> instant \<Rightarrow> caps \<Rightarrow> ((err + groupedResult) \<times> store) option" where
  "QueryGroupBy isrt srt s res by aggs groups t pool =
     (case res of
        None \<Rightarrow> Some (Inl ErrNilResult, s)
      | Some r \<Rightarrow> queryGroupBy isrt srt s r by aggs groups t (routeScratch pool groups (length aggs)))"

end
