(* ===== verification/GroupSound.thy ===== *)
theory GroupSound
  imports GroupBy
begin

text \<open>
  \<open>QueryGroupBy\<close> partitions the matching rows by their values on the by-dimensions, computes
  every aggregate over each part, and lists the parts in the order of their key strings. The
  distinct set is keyed by \<open>uint8(j)\<close> and \<open>int32(g)\<close>, so this holds for at most 256 columns.
\<close>

section \<open>Groups in the order of their first rows\<close>

definition add_first :: "'a \<Rightarrow> 'a list \<Rightarrow> 'a list" where
  "add_first k ks = (if k \<in> set ks then ks else ks @ [k])"

definition firsts :: "'a list \<Rightarrow> 'a list" where
  "firsts ks = fold add_first ks []"

lemma firsts_Nil [simp]: "firsts [] = []"
  by (simp add: firsts_def)

lemma firsts_snoc: "firsts (ks @ [k]) = add_first k (firsts ks)"
  by (simp add: firsts_def)

lemma set_firsts [simp]: "set (firsts ks) = set ks"
  by (induction ks rule: rev_induct) (auto simp: firsts_snoc add_first_def)

lemma distinct_firsts [simp]: "distinct (firsts ks)"
  by (induction ks rule: rev_induct) (auto simp: firsts_snoc add_first_def)

lemma length_firsts: "length (firsts ks) \<le> length ks"
  by (induction ks rule: rev_induct) (auto simp: firsts_snoc add_first_def)

definition bykey :: "nat list \<Rightarrow> u32 list \<times> arow \<Rightarrow> u32 list" where
  "bykey ds x = map (\<lambda>d. fst x ! d) ds"

definition rows_of :: "nat list \<Rightarrow> u32 list \<Rightarrow> (u32 list \<times> arow) list \<Rightarrow> (u32 list \<times> arow) list" where
  "rows_of ds k xs = filter (\<lambda>x. bykey ds x = k) xs"

lemma rows_of_snoc: "rows_of ds k (xs @ [x]) = rows_of ds k xs @ (if bykey ds x = k then [x] else [])"
  by (simp add: rows_of_def)

lemma rows_of_empty: "rows_of ds k xs = [] \<longleftrightarrow> k \<notin> bykey ds ` set xs"
  by (auto simp: rows_of_def filter_empty_conv)

section \<open>A cell\<close>

definition sum_first :: "f64 list \<Rightarrow> f64" where
  "sum_first vs = (case vs of [] \<Rightarrow> 0 | v # vs' \<Rightarrow> fold (\<lambda>v acc. f_add acc v) vs' v)"

lemma sum_first_snoc: "vs \<noteq> [] \<Longrightarrow> sum_first (vs @ [v]) = f_add (sum_first vs) v"
  by (cases vs) (simp_all add: sum_first_def)

definition cell :: "aggOp \<Rightarrow> int \<Rightarrow> int \<Rightarrow> (u32 list \<times> arow) list \<Rightarrow> f64" where
  "cell op mi d rows =
     (if 0 \<le> d then f_of_int (int (card ((\<lambda>x. fst x ! nat d) ` set rows)))
      else if mi < 0 then 0
      else
        let vs = map (\<lambda>x. a_mets (snd x) ! nat mi) rows
        in if op = AggSum \<or> op = AggAvg then sum_first vs
           else if op = AggMin then pick_first f_less vs
           else if op = AggMax then pick_first (\<lambda>v acc. f_less acc v) vs
           else hd vs)"

text \<open>What a further row does to a cell.\<close>

definition cell_upd :: "aggOp \<Rightarrow> int \<Rightarrow> int \<Rightarrow> bool \<Rightarrow> u32 list \<times> arow \<Rightarrow> f64 \<Rightarrow> f64" where
  "cell_upd op mi d seen x v =
     (if 0 \<le> d then (if seen then v else f_add v f_one)
      else if mi < 0 then v
      else
        let m = a_mets (snd x) ! nat mi
        in if op = AggSum \<or> op = AggAvg then f_add v m
           else if op = AggMin then (if f_less m v then m else v)
           else if op = AggMax then (if f_less v m then m else v)
           else v)"

lemma cell_single:
  "cell op mi d [x] = (if 0 \<le> d then f_one else if mi < 0 then 0 else a_mets (snd x) ! nat mi)"
  by (simp add: cell_def Let_def sum_first_def f_of_int_small)

lemma card_u32: "card (S :: u32 set) < 2 ^ 53 - 1"
proof -
  have "card S \<le> CARD(32 word)" by (rule card_mono) auto
  then show ?thesis by (simp add: card_word)
qed

lemma cell_snoc:
  assumes "rows \<noteq> []"
  shows "cell op mi d (rows @ [x]) =
    cell_upd op mi d (fst x ! nat d \<in> (\<lambda>x. fst x ! nat d) ` set rows) x (cell op mi d rows)"
proof (cases "0 \<le> d")
  case True
  let ?S = "(\<lambda>x. fst x ! nat d) ` set rows" and ?i = "fst x ! nat d"
  have "f_add (f_of_int (int (card ?S))) f_one = f_of_int (int (card ?S) + 1)"
    using card_u32 [of ?S] f_add_int [of "int (card ?S)" 1] by (simp add: f_of_int_small(2))
  then show ?thesis using True
    by (cases "?i \<in> ?S") (simp_all add: cell_def cell_upd_def insert_absorb add.commute)
next
  case False
  then show ?thesis using assms
    by (simp add: cell_def cell_upd_def Let_def sum_first_snoc pick_first_snoc agg_ops)
qed

section \<open>The loops over the columns\<close>

definition dk :: "nat \<Rightarrow> nat \<Rightarrow> u32 \<Rightarrow> dkey" where
  "dk j g i = \<lparr>dk_c = of_nat j, dk_g = of_nat g, dk_id = i\<rparr>"

lemma of_nat_word_inj:
  assumes "a < 2 ^ LENGTH('a)" "b < 2 ^ LENGTH('a)"
  shows "of_nat a = (of_nat b :: 'a::len word) \<longleftrightarrow> a = b"
proof -
  have "unat (of_nat a :: 'a word) = a" "unat (of_nat b :: 'a word) = b"
    using assms by (simp_all add: unsigned_of_nat take_bit_nat_eq_self)
  then show ?thesis by (simp only: word_unat_eq_iff)
qed

lemma of_nat_byte: "a < 256 \<Longrightarrow> b < 256 \<Longrightarrow> of_nat a = (of_nat b :: byte) \<longleftrightarrow> a = b"
  by (rule of_nat_word_inj) simp_all

lemma of_nat_w32: "a < 2 ^ 32 \<Longrightarrow> b < 2 ^ 32 \<Longrightarrow> of_nat a = (of_nat b :: 32 word) \<longleftrightarrow> a = b"
  by (rule of_nat_word_inj) simp_all

lemma dk_inject:
  assumes "j < 256" "j' < 256" "g < 2 ^ 32" "g' < 2 ^ 32"
  shows "dk j g i = dk j' g' i' \<longleftrightarrow> j = j' \<and> g = g' \<and> i = i'"
  by (simp add: dk_def of_nat_byte [OF assms(1,2)] of_nat_w32 [OF assms(3,4)])

definition row_keys :: "int list \<Rightarrow> nat \<Rightarrow> u32 list \<times> arow \<Rightarrow> nat \<Rightarrow> dkey set" where
  "row_keys ddims g x n = {dk j g (fst x ! nat (ddims ! j)) | j. j < n \<and> 0 \<le> ddims ! j}"

lemma row_keys_Suc: "row_keys ddims g x (Suc n) =
  (if 0 \<le> ddims ! n then insert (dk n g (fst x ! nat (ddims ! n))) (row_keys ddims g x n) else row_keys ddims g x n)"
  by (auto simp: row_keys_def less_Suc_eq)

lemma fold_newCol:
  "fold (newCol mets ddims g (\<lambda>d. fst x ! d) (\<lambda>m. a_mets (snd x) ! m)) [0..<n] (dset, saggs) =
    (dset \<union> row_keys ddims g x n, saggs @ map (\<lambda>j. cell op (mets ! j) (ddims ! j) [x]) [0..<n])"
proof (induction n)
  case 0
  then show ?case by (simp add: row_keys_def)
next
  case (Suc n)
  then show ?case by (simp add: newCol_def cell_single row_keys_Suc dk_def)
qed

lemma fold_updCol:
  assumes "n \<le> length aggs" "length aggs \<le> 256" "g * length aggs + n \<le> length saggs"
  shows "\<exists>saggs1. fold (updCol aggs mets ddims g (\<lambda>d. fst x ! d) (\<lambda>m. a_mets (snd x) ! m)) [0..<n] (dset, saggs) =
      (dset \<union> row_keys ddims g x n, saggs1) \<and> length saggs1 = length saggs \<and>
    (\<forall>j < n. saggs1 ! (g * length aggs + j) =
       cell_upd (g_op (aggs ! j)) (mets ! j) (ddims ! j) (dk j g (fst x ! nat (ddims ! j)) \<in> dset) x (saggs ! (g * length aggs + j))) \<and>
    (\<forall>p. \<not> (g * length aggs \<le> p \<and> p < g * length aggs + n) \<longrightarrow> saggs1 ! p = saggs ! p)"
  using assms(1,3)
proof (induction n)
  case 0
  then show ?case by (simp add: row_keys_def)
next
  case (Suc n)
  then obtain saggs1 where IH: "fold (updCol aggs mets ddims g (\<lambda>d. fst x ! d) (\<lambda>m. a_mets (snd x) ! m)) [0..<n] (dset, saggs) =
      (dset \<union> row_keys ddims g x n, saggs1)" "length saggs1 = length saggs"
    "\<And>j. j < n \<Longrightarrow> saggs1 ! (g * length aggs + j) =
       cell_upd (g_op (aggs ! j)) (mets ! j) (ddims ! j) (dk j g (fst x ! nat (ddims ! j)) \<in> dset) x (saggs ! (g * length aggs + j))"
    "\<And>p. \<not> (g * length aggs \<le> p \<and> p < g * length aggs + n) \<Longrightarrow> saggs1 ! p = saggs ! p"
    by auto
  let ?p = "g * length aggs + n" and ?k = "dk n g (fst x ! nat (ddims ! n))"
  have p: "?p < length saggs1" using Suc.prems IH(2) by simp
  have at: "saggs1 ! ?p = saggs ! ?p" by (rule IH(4)) simp
  have j: "dk j g i = dk n g i' \<longleftrightarrow> j = n \<and> i = i'" if "j \<le> n" for j i i'
    using that Suc.prems(1) assms(2) by (auto simp: dk_def of_nat_byte)
  have new: "?k \<notin> row_keys ddims g x n"
  proof
    assume "?k \<in> row_keys ddims g x n"
    then obtain i where i: "i < n" "dk i g (fst x ! nat (ddims ! i)) = ?k" by (auto simp: row_keys_def)
    show False using iffD1 [OF j i(2)] i(1) by simp
  qed
  have step: "updCol aggs mets ddims g (\<lambda>d. fst x ! d) (\<lambda>m. a_mets (snd x) ! m) n (dset \<union> row_keys ddims g x n, saggs1) =
      (dset \<union> row_keys ddims g x (Suc n),
       saggs1[?p := cell_upd (g_op (aggs ! n)) (mets ! n) (ddims ! n) (?k \<in> dset) x (saggs1 ! ?p)])"
    using new by (auto simp: updCol_def cell_upd_def Let_def row_keys_Suc dk_def)
  show ?case using IH p at
    by (simp add: step less_Suc_eq nth_list_update all_conj_distrib)
qed

section \<open>The invariant of the sweep\<close>

abbreviation groups_of :: "nat list \<Rightarrow> (u32 list \<times> arow) list \<Rightarrow> u32 list list" where
  "groups_of ds xs \<equiv> firsts (map (bykey ds) xs)"

definition cells_inv :: "agg list \<Rightarrow> int list \<Rightarrow> int list \<Rightarrow> nat list \<Rightarrow> (u32 list \<times> arow) list \<Rightarrow> f64 list \<Rightarrow> bool" where
  "cells_inv aggs mets ddims ds xs saggs \<longleftrightarrow>
     length saggs = length (groups_of ds xs) * length aggs \<and>
     (\<forall>g < length (groups_of ds xs). \<forall>j < length aggs. saggs ! (g * length aggs + j) =
        cell (g_op (aggs ! j)) (mets ! j) (ddims ! j) (rows_of ds (groups_of ds xs ! g) xs))"

definition dset_inv :: "agg list \<Rightarrow> int list \<Rightarrow> nat list \<Rightarrow> (u32 list \<times> arow) list \<Rightarrow> dkey set \<Rightarrow> bool" where
  "dset_inv aggs ddims ds xs dset \<longleftrightarrow>
     (\<forall>j < length aggs. 0 \<le> ddims ! j \<longrightarrow> (\<forall>g < 2 ^ 32. \<forall>i. dk j g i \<in> dset \<longleftrightarrow>
        g < length (groups_of ds xs) \<and> i \<in> (\<lambda>x. fst x ! nat (ddims ! j)) ` set (rows_of ds (groups_of ds xs ! g) xs)))"

definition ginv :: "view \<Rightarrow> nat list \<Rightarrow> agg list \<Rightarrow> int list \<Rightarrow> int list \<Rightarrow> (u32 list \<times> arow) list \<Rightarrow> groupedResult \<Rightarrow> bool" where
  "ginv v ds aggs mets ddims xs res \<longleftrightarrow>
     (\<forall>kb g. gr_idx res kb = Some g \<longleftrightarrow> g < length (groups_of ds xs) \<and> kb = idKey (groups_of ds xs ! g)) \<and>
     gr_cnt res = map (\<lambda>k. int (length (rows_of ds k xs))) (groups_of ds xs) \<and>
     gr_skeys res = concat (map (\<lambda>k. map2 (dimString v) ds k) (groups_of ds xs)) \<and>
     cells_inv aggs mets ddims ds xs (gr_saggs res) \<and> dset_inv aggs ddims ds xs (gr_dset res)"

lemma groups_bound: "length xs < 2 ^ 32 \<Longrightarrow> length (groups_of ds xs) < 2 ^ 32"
  using length_firsts [of "map (bykey ds) xs"] by simp

lemma cell_index: "g < G \<Longrightarrow> j < na \<Longrightarrow> g * na + j < G * na" for g G j na :: nat
  using mult_le_mono1 [of "g + 1" G na] by simp

lemma cell_index_other: "j < na \<Longrightarrow> g \<noteq> h \<Longrightarrow> \<not> (h * na \<le> g * na + j \<and> g * na + j < h * na + na)" for g h j na :: nat
proof
  assume j: "j < na" "g \<noteq> h" and a: "h * na \<le> g * na + j \<and> g * na + j < h * na + na"
  then have "(g * na + j) div na = h" by (intro div_nat_eqI) (auto simp: algebra_simps)
  moreover have "(g * na + j) div na = g" using j by (intro div_nat_eqI) (auto simp: algebra_simps)
  ultimately show False using j by simp
qed

abbreviation visitR :: "view \<Rightarrow> nat list \<Rightarrow> agg list \<Rightarrow> int list \<Rightarrow> int list \<Rightarrow> u32 list \<times> arow \<Rightarrow> groupedResult \<Rightarrow> groupedResult" where
  "visitR v ds aggs mets ddims x \<equiv> visit v ds aggs mets ddims (\<lambda>d. fst x ! d) (\<lambda>m. a_mets (snd x) ! m)"

lemma kb_idKey: "concat (map (\<lambda>d. le32 (fst x ! d)) ds) = idKey (bykey ds x)"
  by (simp add: idKey_def bykey_def comp_def)

lemma keys_map2: "map (\<lambda>d. dimString v d (fst x ! d)) ds = map2 (dimString v) ds (bykey ds x)"
  by (induction ds) (simp_all add: bykey_def)

lemma row_keys_mem:
  assumes "length aggs \<le> 256" "j < length aggs" "g < 2 ^ 32" "g' < 2 ^ 32"
  shows "dk j g i \<in> row_keys ddims g' x (length aggs) \<longleftrightarrow> 0 \<le> ddims ! j \<and> g = g' \<and> i = fst x ! nat (ddims ! j)"
proof
  assume "dk j g i \<in> row_keys ddims g' x (length aggs)"
  then obtain j' where j': "j' < length aggs" "0 \<le> ddims ! j'" "dk j g i = dk j' g' (fst x ! nat (ddims ! j'))"
    by (auto simp: row_keys_def)
  then have "j = j' \<and> g = g' \<and> i = fst x ! nat (ddims ! j')" using assms by (subst (asm) dk_inject) auto
  then show "0 \<le> ddims ! j \<and> g = g' \<and> i = fst x ! nat (ddims ! j)" using j'(2) by auto
qed (use assms in \<open>auto simp: row_keys_def\<close>)

text \<open>The row of a new group.\<close>

lemma groups_new:
  assumes "bykey ds x \<notin> set (groups_of ds xs)"
  shows "groups_of ds (xs @ [x]) = groups_of ds xs @ [bykey ds x]" "rows_of ds (bykey ds x) (xs @ [x]) = [x]"
    and "\<And>k. k \<in> set (groups_of ds xs) \<Longrightarrow> rows_of ds k (xs @ [x]) = rows_of ds k xs"
proof -
  have "rows_of ds (bykey ds x) xs = []" using assms by (simp add: rows_of_empty)
  then show "rows_of ds (bykey ds x) (xs @ [x]) = [x]" by (simp add: rows_of_snoc)
qed (use assms in \<open>auto simp: firsts_snoc add_first_def rows_of_snoc\<close>)

lemma cells_new:
  assumes inv: "cells_inv aggs mets ddims ds xs saggs" and new: "bykey ds x \<notin> set (groups_of ds xs)"
  shows "cells_inv aggs mets ddims ds (xs @ [x])
    (saggs @ map (\<lambda>j. cell (g_op (aggs ! j)) (mets ! j) (ddims ! j) [x]) [0..<length aggs])"
proof -
  let ?gs = "groups_of ds xs"
  note gr = groups_new [OF new]
  have old: "rows_of ds (?gs ! g) (xs @ [x]) = rows_of ds (?gs ! g) xs" if "g < length ?gs" for g
    using gr(3) that nth_mem by blast
  have "(saggs @ map (\<lambda>j. cell (g_op (aggs ! j)) (mets ! j) (ddims ! j) [x]) [0..<length aggs]) ! (g * length aggs + j) =
      cell (g_op (aggs ! j)) (mets ! j) (ddims ! j) (rows_of ds ((?gs @ [bykey ds x]) ! g) (xs @ [x]))"
    if "g < length (?gs @ [bykey ds x])" "j < length aggs" for g j
  proof (cases "g < length ?gs")
    case True
    then show ?thesis using inv that(2) old cell_index [OF True that(2)] by (simp add: cells_inv_def nth_append)
  next
    case False
    then have "g = length ?gs" using that(1) by simp
    then show ?thesis using inv that(2) gr(2) by (simp add: cells_inv_def nth_append)
  qed
  then show ?thesis using inv unfolding cells_inv_def gr(1) by simp
qed

lemma dset_new:
  assumes inv: "dset_inv aggs ddims ds xs dset" and na: "length aggs \<le> 256" and n: "length xs < 2 ^ 32"
    and new: "bykey ds x \<notin> set (groups_of ds xs)"
  shows "dset_inv aggs ddims ds (xs @ [x]) (dset \<union> row_keys ddims (length (groups_of ds xs)) x (length aggs))"
  unfolding dset_inv_def groups_new(1) [OF new]
proof (intro allI impI)
  let ?gs = "groups_of ds xs"
  fix j g :: nat and i assume j: "j < length aggs" "0 \<le> ddims ! j" and g: "g < 2 ^ 32"
  have a: "dk j g i \<in> dset \<longleftrightarrow> g < length ?gs \<and> i \<in> (\<lambda>x. fst x ! nat (ddims ! j)) ` set (rows_of ds (?gs ! g) xs)"
    using inv j g by (simp add: dset_inv_def)
  have b: "dk j g i \<in> row_keys ddims (length ?gs) x (length aggs) \<longleftrightarrow> g = length ?gs \<and> i = fst x ! nat (ddims ! j)"
    using row_keys_mem [OF na j(1) g groups_bound [OF n]] j(2) by simp
  show "dk j g i \<in> dset \<union> row_keys ddims (length ?gs) x (length aggs) \<longleftrightarrow> g < length (?gs @ [bykey ds x]) \<and>
      i \<in> (\<lambda>x. fst x ! nat (ddims ! j)) ` set (rows_of ds ((?gs @ [bykey ds x]) ! g) (xs @ [x]))"
  proof (cases "g < length ?gs")
    case True
    then have "rows_of ds (?gs ! g) (xs @ [x]) = rows_of ds (?gs ! g) xs" using groups_new(3) [OF new] nth_mem by blast
    then show ?thesis using a b True by (simp add: nth_append)
  next
    case False
    then show ?thesis using a b groups_new(2) [OF new] by (auto simp: nth_append)
  qed
qed

lemma idx_new:
  assumes idx: "\<forall>kb g. idx kb = Some g \<longleftrightarrow> g < length gs \<and> kb = idKey (gs ! g)" and new: "k \<notin> set gs"
  shows "idx (idKey k) = None"
    and "(idx(idKey k \<mapsto> length gs)) kb = Some g \<longleftrightarrow> g < length (gs @ [k]) \<and> kb = idKey ((gs @ [k]) ! g)"
proof -
  have other: "idKey k \<noteq> idKey (gs ! g)" if "g < length gs" for g using that new nth_mem [of g gs] by auto
  then show "idx (idKey k) = None" using idx by (metis not_None_eq)
  show "(idx(idKey k \<mapsto> length gs)) kb = Some g \<longleftrightarrow> g < length (gs @ [k]) \<and> kb = idKey ((gs @ [k]) ! g)"
    using idx other by (auto simp: nth_append less_Suc_eq)
qed

lemma ginv_new:
  assumes inv: "ginv v ds aggs mets ddims xs res" and na: "length aggs \<le> 256" and n: "length xs < 2 ^ 32"
    and new: "bykey ds x \<notin> set (groups_of ds xs)"
  shows "ginv v ds aggs mets ddims (xs @ [x]) (visitR v ds aggs mets ddims x res)"
proof -
  let ?gs = "groups_of ds xs" and ?k = "bykey ds x" and ?na = "length aggs"
  note I = inv [unfolded ginv_def]
  have cnt: "length (gr_cnt res) = length ?gs" using I by simp
  define cells where "cells = map (\<lambda>j. cell (g_op (aggs ! j)) (mets ! j) (ddims ! j) [x]) [0..<?na]"
  have same: "map (\<lambda>j. cell op (mets ! j) (ddims ! j) [x]) [0..<?na] = cells" for op
    by (simp add: cells_def cell_single)
  have fold: "fold (newCol mets ddims (length ?gs) (\<lambda>d. fst x ! d) (\<lambda>m. a_mets (snd x) ! m)) [0..<?na] (gr_dset res, gr_saggs res) =
      (gr_dset res \<union> row_keys ddims (length ?gs) x ?na, gr_saggs res @ cells)"
    using fold_newCol [of mets ddims "length ?gs" x ?na "gr_dset res" "gr_saggs res" AggSum] by (simp only: same)
  have "gr_idx res (idKey ?k) = None" using I new by (intro idx_new(1)) blast+
  then have res: "visitR v ds aggs mets ddims x res = res\<lparr>gr_idx := (gr_idx res)(idKey ?k \<mapsto> length ?gs),
      gr_skeys := gr_skeys res @ map2 (dimString v) ds ?k, gr_dset := gr_dset res \<union> row_keys ddims (length ?gs) x ?na,
      gr_saggs := gr_saggs res @ cells, gr_cnt := gr_cnt res @ [1]\<rparr>"
    by (simp add: visit_def kb_idKey cnt fold keys_map2 Let_def)
  have idx: "((gr_idx res)(idKey ?k \<mapsto> length ?gs)) kb = Some g \<longleftrightarrow> g < length (?gs @ [?k]) \<and> kb = idKey ((?gs @ [?k]) ! g)" for kb g
    using I new by (intro idx_new(2)) blast+
  show ?thesis
    using I idx cells_new [OF _ new, of aggs mets ddims "gr_saggs res"] dset_new [OF _ na n new, of ddims "gr_dset res"]
    unfolding ginv_def res groups_new(1) [OF new] by (simp add: groups_new [OF new] cells_def cong: map_cong del: set_firsts)
qed

text \<open>The row of a group that is there.\<close>

lemma groups_old:
  assumes h: "h < length (groups_of ds xs)" "groups_of ds xs ! h = bykey ds x"
  shows "groups_of ds (xs @ [x]) = groups_of ds xs"
    and "\<And>g. g < length (groups_of ds xs) \<Longrightarrow> rows_of ds (groups_of ds xs ! g) (xs @ [x]) =
      rows_of ds (groups_of ds xs ! g) xs @ (if g = h then [x] else [])"
    and "rows_of ds (groups_of ds xs ! h) xs \<noteq> []"
proof -
  have old: "bykey ds x \<in> set (groups_of ds xs)" using h nth_mem by metis
  then show "groups_of ds (xs @ [x]) = groups_of ds xs" by (simp add: firsts_snoc add_first_def)
  show "rows_of ds (groups_of ds xs ! h) xs \<noteq> []" using old by (simp add: rows_of_empty h(2))
  fix g assume g: "g < length (groups_of ds xs)"
  have "groups_of ds xs ! g = bykey ds x \<longleftrightarrow> g = h"
    using g h distinct_firsts [of "map (bykey ds) xs"] nth_eq_iff_index_eq by metis
  then show "rows_of ds (groups_of ds xs ! g) (xs @ [x]) = rows_of ds (groups_of ds xs ! g) xs @ (if g = h then [x] else [])"
    by (auto simp: rows_of_snoc)
qed

lemma cells_old:
  assumes inv: "cells_inv aggs mets ddims ds xs saggs" and dset: "dset_inv aggs ddims ds xs dset" and n: "length xs < 2 ^ 32"
    and h: "h < length (groups_of ds xs)" "groups_of ds xs ! h = bykey ds x"
    and F: "length saggs1 = length saggs"
      "\<And>j. j < length aggs \<Longrightarrow> saggs1 ! (h * length aggs + j) = cell_upd (g_op (aggs ! j)) (mets ! j) (ddims ! j)
        (dk j h (fst x ! nat (ddims ! j)) \<in> dset) x (saggs ! (h * length aggs + j))"
      "\<And>p. \<not> (h * length aggs \<le> p \<and> p < h * length aggs + length aggs) \<Longrightarrow> saggs1 ! p = saggs ! p"
  shows "cells_inv aggs mets ddims ds (xs @ [x]) saggs1"
  unfolding cells_inv_def groups_old(1) [OF h]
proof (intro conjI allI impI)
  show "length saggs1 = length (groups_of ds xs) * length aggs" using inv F(1) by (simp add: cells_inv_def)
  fix g j assume g: "g < length (groups_of ds xs)" and j: "j < length aggs"
  let ?R = "rows_of ds (groups_of ds xs ! g) xs"
  have c: "saggs ! (g * length aggs + j) = cell (g_op (aggs ! j)) (mets ! j) (ddims ! j) ?R"
    using inv g j by (simp add: cells_inv_def)
  show "saggs1 ! (g * length aggs + j) = cell (g_op (aggs ! j)) (mets ! j) (ddims ! j) (rows_of ds (groups_of ds xs ! g) (xs @ [x]))"
  proof (cases "g = h")
    case True
    have "dk j h (fst x ! nat (ddims ! j)) \<in> dset \<longleftrightarrow> fst x ! nat (ddims ! j) \<in> (\<lambda>x. fst x ! nat (ddims ! j)) ` set ?R"
      if "0 \<le> ddims ! j"
      using dset j that h(1) groups_bound [OF n, of ds] unfolding dset_inv_def True by simp
    then have "cell_upd op mi (ddims ! j) (dk j h (fst x ! nat (ddims ! j)) \<in> dset) x y =
        cell_upd op mi (ddims ! j) (fst x ! nat (ddims ! j) \<in> (\<lambda>x. fst x ! nat (ddims ! j)) ` set ?R) x y" for op mi y
      by (cases "0 \<le> ddims ! j") (simp_all add: cell_upd_def)
    then show ?thesis
      using c unfolding True groups_old(2) [OF h h(1)] by (simp add: F(2) [OF j] cell_snoc [OF groups_old(3) [OF h]])
  next
    case False
    then show ?thesis using c F(3) [OF cell_index_other [OF j False]] groups_old(2) [OF h g] by simp
  qed
qed

lemma dset_old:
  assumes inv: "dset_inv aggs ddims ds xs dset" and na: "length aggs \<le> 256" and n: "length xs < 2 ^ 32"
    and h: "h < length (groups_of ds xs)" "groups_of ds xs ! h = bykey ds x"
  shows "dset_inv aggs ddims ds (xs @ [x]) (dset \<union> row_keys ddims h x (length aggs))"
  unfolding dset_inv_def groups_old(1) [OF h]
proof (intro allI impI)
  let ?gs = "groups_of ds xs"
  fix j g :: nat and i assume j: "j < length aggs" "0 \<le> ddims ! j" and g: "g < 2 ^ 32"
  have a: "dk j g i \<in> dset \<longleftrightarrow> g < length ?gs \<and> i \<in> (\<lambda>x. fst x ! nat (ddims ! j)) ` set (rows_of ds (?gs ! g) xs)"
    using inv j g by (simp add: dset_inv_def)
  have hb: "h < 2 ^ 32" using h(1) groups_bound [OF n, of ds] by simp
  note b = row_keys_mem [OF na j(1) g hb, where i = i and ddims = ddims and x = x]
  show "dk j g i \<in> dset \<union> row_keys ddims h x (length aggs) \<longleftrightarrow> g < length ?gs \<and>
      i \<in> (\<lambda>x. fst x ! nat (ddims ! j)) ` set (rows_of ds (?gs ! g) (xs @ [x]))"
  proof (cases "g < length ?gs")
    case True
    show ?thesis unfolding Un_iff a b groups_old(2) [OF h True] using j(2) True by (cases "g = h") (simp_all add: disj_commute)
  next
    case False
    then show ?thesis using a b h(1) by simp
  qed
qed

lemma cnt_old:
  assumes h: "h < length (groups_of ds xs)" "groups_of ds xs ! h = bykey ds x"
    and c: "cnt = map (\<lambda>k. int (length (rows_of ds k xs))) (groups_of ds xs)"
  shows "cnt[h := cnt ! h + 1] = map (\<lambda>k. int (length (rows_of ds k (xs @ [x])))) (groups_of ds xs)"
proof (rule nth_equalityI)
  fix g assume "g < length (cnt[h := cnt ! h + 1])"
  then have "g < length (groups_of ds xs)" by (simp add: c)
  then show "cnt[h := cnt ! h + 1] ! g = map (\<lambda>k. int (length (rows_of ds k (xs @ [x])))) (groups_of ds xs) ! g"
    using groups_old(2) [OF h] h(1) by (cases "g = h") (simp_all add: c)
qed (simp add: c)

lemma ginv_old:
  assumes inv: "ginv v ds aggs mets ddims xs res" and na: "length aggs \<le> 256" and n: "length xs < 2 ^ 32"
    and old: "bykey ds x \<in> set (groups_of ds xs)"
  shows "ginv v ds aggs mets ddims (xs @ [x]) (visitR v ds aggs mets ddims x res)"
proof -
  let ?gs = "groups_of ds xs" and ?na = "length aggs"
  note I = inv [unfolded ginv_def]
  obtain h where h: "h < length ?gs" "?gs ! h = bykey ds x" using old by (auto simp: in_set_conv_nth simp del: set_firsts)
  have len: "length (gr_saggs res) = length ?gs * ?na" using I by (simp add: cells_inv_def)
  have "h * ?na + ?na \<le> length ?gs * ?na" using mult_le_mono1 [of "h + 1" "length ?gs" ?na] h(1) by simp
  then obtain saggs1 where F: "fold (updCol aggs mets ddims h (\<lambda>d. fst x ! d) (\<lambda>m. a_mets (snd x) ! m)) [0..<?na]
      (gr_dset res, gr_saggs res) = (gr_dset res \<union> row_keys ddims h x ?na, saggs1)" "length saggs1 = length (gr_saggs res)"
    "\<And>j. j < ?na \<Longrightarrow> saggs1 ! (h * ?na + j) = cell_upd (g_op (aggs ! j)) (mets ! j) (ddims ! j)
        (dk j h (fst x ! nat (ddims ! j)) \<in> gr_dset res) x (gr_saggs res ! (h * ?na + j))"
    "\<And>p. \<not> (h * ?na \<le> p \<and> p < h * ?na + ?na) \<Longrightarrow> saggs1 ! p = gr_saggs res ! p"
    using fold_updCol [of ?na aggs h "gr_saggs res" mets ddims x "gr_dset res"] na len by auto
  have "gr_idx res (idKey (bykey ds x)) = Some h" using I h by simp
  then have res: "visitR v ds aggs mets ddims x res = res\<lparr>gr_cnt := (gr_cnt res)[h := gr_cnt res ! h + 1],
      gr_dset := gr_dset res \<union> row_keys ddims h x ?na, gr_saggs := saggs1\<rparr>"
    by (simp add: visit_def kb_idKey F(1))
  have parts: "cells_inv aggs mets ddims ds (xs @ [x]) saggs1" "dset_inv aggs ddims ds (xs @ [x]) (gr_dset res \<union> row_keys ddims h x ?na)"
    "(gr_cnt res)[h := gr_cnt res ! h + 1] = map (\<lambda>k. int (length (rows_of ds k (xs @ [x])))) ?gs"
    using I by (auto intro!: cells_old [OF _ _ n h F(2-4)] dset_old [OF _ na n h] cnt_old [OF h])
  then show ?thesis using I unfolding ginv_def res groups_old(1) [OF h] by simp
qed

lemma ginv_run:
  assumes "ginv v ds aggs mets ddims [] res" "length aggs \<le> 256" "length xs \<le> 2 ^ 32"
  shows "ginv v ds aggs mets ddims xs (fold (visitR v ds aggs mets ddims) xs res)"
  using assms(3)
proof (induction xs rule: rev_induct)
  case (snoc x xs)
  then have "ginv v ds aggs mets ddims xs (fold (visitR v ds aggs mets ddims) xs res)" "length xs < 2 ^ 32" by auto
  then show ?case using ginv_new [OF _ assms(2)] ginv_old [OF _ assms(2)] by (cases "bykey ds x \<in> set (groups_of ds xs)") auto
qed (use assms(1) in simp)

section \<open>Finalising\<close>

definition fin :: "aggOp \<Rightarrow> f64 \<Rightarrow> int \<Rightarrow> f64" where
  "fin op v c = (if op = AggCount then f_of_int c else if op = AggAvg then f_div v (f_of_int c) else v)"

lemma finalCell_nth:
  "finalCell aggs cnt g j saggs =
    saggs[g * length aggs + j := fin (g_op (aggs ! j)) (saggs ! (g * length aggs + j)) (cnt ! g)]"
  by (simp add: finalCell_def fin_def Let_def)

lemma final_row:
  fixes cnt :: "int list"
  assumes "g * length aggs + n \<le> length saggs"
  defines "saggs1 \<equiv> fold (\<lambda>j saggs. finalCell aggs cnt g j saggs) [0..<n] saggs"
  shows "length saggs1 = length saggs \<and>
    (\<forall>j < n. saggs1 ! (g * length aggs + j) = fin (g_op (aggs ! j)) (saggs ! (g * length aggs + j)) (cnt ! g)) \<and>
    (\<forall>p. p < g * length aggs \<or> g * length aggs + n \<le> p \<longrightarrow> saggs1 ! p = saggs ! p)"
  using assms(1) unfolding saggs1_def
proof (induction n)
  case (Suc n)
  let ?s = "fold (\<lambda>j saggs. finalCell aggs cnt g j saggs) [0..<n] saggs" and ?p = "g * length aggs + n"
  have IH: "length ?s = length saggs" "\<forall>j < n. ?s ! (g * length aggs + j) = fin (g_op (aggs ! j)) (saggs ! (g * length aggs + j)) (cnt ! g)"
    "\<And>p. p < g * length aggs \<or> g * length aggs + n \<le> p \<Longrightarrow> ?s ! p = saggs ! p"
    using Suc by auto
  have "fold (\<lambda>j saggs. finalCell aggs cnt g j saggs) [0..<Suc n] saggs = ?s[?p := fin (g_op (aggs ! n)) (saggs ! ?p) (cnt ! g)]"
    using IH(3) [of ?p] by (simp add: finalCell_nth)
  then show ?case using IH Suc.prems by (simp add: nth_list_update less_Suc_eq)
qed simp

lemma cell_pos:
  assumes "j < na" "g < (G::nat)"
  shows "g * na + j < G * na"
proof -
  have "g * na + j < (g + 1) * na" using assms(1) by simp
  also have "\<dots> \<le> G * na" using assms(2) by (intro mult_le_mono1) simp
  finally show ?thesis .
qed

lemma final_all:
  assumes "length saggs = length cnt * length aggs"
  shows "m \<le> length cnt \<Longrightarrow>
    let saggs1 = fold (\<lambda>g saggs. fold (\<lambda>j saggs. finalCell aggs cnt g j saggs) [0..<length aggs] saggs) [0..<m] saggs
    in length saggs1 = length saggs \<and>
      (\<forall>g < length cnt. \<forall>j < length aggs. saggs1 ! (g * length aggs + j) =
         (if g < m then fin (g_op (aggs ! j)) (saggs ! (g * length aggs + j)) (cnt ! g) else saggs ! (g * length aggs + j)))"
proof (induction m)
  case (Suc m)
  let ?na = "length aggs"
  define s1 where "s1 = fold (\<lambda>g saggs. fold (\<lambda>j saggs. finalCell aggs cnt g j saggs) [0..<?na] saggs) [0..<m] saggs"
  define s2 where "s2 = fold (\<lambda>j saggs. finalCell aggs cnt m j saggs) [0..<?na] s1"
  have IH: "length s1 = length saggs" "\<And>g j. g < length cnt \<Longrightarrow> j < ?na \<Longrightarrow> s1 ! (g * ?na + j) =
         (if g < m then fin (g_op (aggs ! j)) (saggs ! (g * ?na + j)) (cnt ! g) else saggs ! (g * ?na + j))"
    using Suc by (simp_all add: s1_def Let_def)
  have "m * ?na + ?na = (m + 1) * ?na" by simp
  also have "\<dots> \<le> length cnt * ?na" using Suc.prems by (intro mult_le_mono1) simp
  finally have room: "m * ?na + ?na \<le> length s1" by (simp add: IH(1) assms)
  have R: "length s2 = length s1" "\<And>j. j < ?na \<Longrightarrow> s2 ! (m * ?na + j) = fin (g_op (aggs ! j)) (s1 ! (m * ?na + j)) (cnt ! m)"
    "\<And>p. p < m * ?na \<or> m * ?na + ?na \<le> p \<Longrightarrow> s2 ! p = s1 ! p"
    using final_row [OF room, of cnt] by (auto simp: s2_def)
  have "s2 ! (g * ?na + j) = (if g < Suc m then fin (g_op (aggs ! j)) (saggs ! (g * ?na + j)) (cnt ! g) else saggs ! (g * ?na + j))"
    if g: "g < length cnt" and j: "j < ?na" for g j
  proof (cases "g = m")
    case True
    then show ?thesis using R(2) [OF j] IH(2) [OF g j] by simp
  next
    case False
    have "\<not> (m * ?na \<le> g * ?na + j \<and> g * ?na + j < m * ?na + ?na)"
    proof
      assume a: "m * ?na \<le> g * ?na + j \<and> g * ?na + j < m * ?na + ?na"
      then have "(g * ?na + j) div ?na = m" by (intro div_nat_eqI) (auto simp: algebra_simps)
      moreover have "(g * ?na + j) div ?na = g" using j by (intro div_nat_eqI) (auto simp: algebra_simps)
      ultimately show False using False by simp
    qed
    then show ?thesis using R(3) [of "g * ?na + j"] IH(2) [OF g j] False by (auto simp: not_le not_less)
  qed
  moreover have "fold (\<lambda>g saggs. fold (\<lambda>j saggs. finalCell aggs cnt g j saggs) [0..<?na] saggs) [0..<Suc m] saggs = s2"
    by (simp add: s2_def s1_def)
  ultimately show ?case using R(1) IH(1) by (simp add: Let_def)
qed simp

lemma finalizeAggs_slice:
  assumes "length saggs = length cnt * length aggs" "g < length cnt"
  shows "slice (length aggs) g (finalizeAggs aggs cnt saggs) =
    map (\<lambda>j. fin (g_op (aggs ! j)) (saggs ! (g * length aggs + j)) (cnt ! g)) [0..<length aggs]"
proof -
  let ?f = "finalizeAggs aggs cnt saggs" and ?na = "length aggs"
  have f: "length ?f = length saggs" "\<And>j. j < ?na \<Longrightarrow> ?f ! (g * ?na + j) = fin (g_op (aggs ! j)) (saggs ! (g * ?na + j)) (cnt ! g)"
    using final_all [OF assms(1) order_refl] assms(2) by (simp_all add: finalizeAggs_def Let_def)
  have "(g + 1) * ?na \<le> length cnt * ?na" using assms(2) by (intro mult_le_mono1) simp
  then have room: "g * ?na + ?na \<le> length ?f" by (simp add: f(1) assms(1))
  show ?thesis
  proof (rule nth_equalityI)
    show "length (slice ?na g ?f) = length (map (\<lambda>j. fin (g_op (aggs ! j)) (saggs ! (g * ?na + j)) (cnt ! g)) [0..<?na])"
      using room by (simp add: slice_def)
    show "slice ?na g ?f ! j = map (\<lambda>j. fin (g_op (aggs ! j)) (saggs ! (g * ?na + j)) (cnt ! g)) [0..<?na] ! j"
      if "j < length (slice ?na g ?f)" for j
      using that room f(2) by (simp add: slice_def)
  qed
qed

lemma slice_concat:
  assumes "\<forall>x \<in> set xss. length x = n" "g < length xss"
  shows "slice n g (concat xss) = xss ! g"
  using assms
proof (induction xss arbitrary: g)
  case (Cons x xss)
  then show ?case by (cases g) (simp_all add: slice_def)
qed simp

section \<open>Sorting the groups\<close>

lemma keysLess_less: "length xs = length ys \<Longrightarrow> keysLess xs ys \<longleftrightarrow> xs < ys"
  by (induction xs ys rule: list_induct2) auto

lemma sort_keys:
  fixes key :: "nat \<Rightarrow> string list"
  assumes srt: "sorter srt" and len: "\<And>g. g < G \<Longrightarrow> length (key g) = n"
    and inj: "\<And>g h. g < G \<Longrightarrow> h < G \<Longrightarrow> key g = key h \<Longrightarrow> g = h"
  defines "ord \<equiv> srt (cmp_less (\<lambda>a b. keysLess (key a) (key b))) [0..<G]"
  shows "mset ord = mset [0..<G]" "sorted_wrt (\<lambda>a b. key a < key b) ord"
proof -
  let ?c = "cmp_less (\<lambda>a b. keysLess (key a) (key b))"
  have kl: "keysLess (key a) (key b) \<longleftrightarrow> key a < key b" if "a < G" "b < G" for a b
    using len that by (intro keysLess_less) simp
  have c: "?c a b = (if key a < key b then - 1 else if key b < key a then 1 else 0)" if "a < G" "b < G" for a b
    using kl that by (simp add: cmp_less_def)
  have w: "weak_order_on (set [0..<G]) ?c"
    unfolding weak_order_on_def by (auto simp: c split: if_splits)
  show m: "mset ord = mset [0..<G]" unfolding ord_def by (rule sorter.srt_mset [OF srt w])
  have s: "sorted_wrt (\<lambda>a b. ?c a b \<le> 0) ord" unfolding ord_def by (rule sorter.srt_sorted [OF srt w])
  have d: "distinct ord" using m by (metis distinct_upt mset_eq_imp_distinct_iff)
  have mem: "a < G" if "a \<in> set ord" for a using that m by (metis atLeastLessThan_iff mset_eq_setD set_upt)
  have "sorted_wrt (\<lambda>a b. ?c a b \<le> 0 \<and> a \<noteq> b) ord"
    using s d by (simp add: sorted_wrt_iff_nth_less nth_eq_iff_index_eq)
  then show "sorted_wrt (\<lambda>a b. key a < key b) ord"
  proof (rule sorted_wrt_mono_rel [rotated])
    fix a b assume ab: "a \<in> set ord" "b \<in> set ord" "?c a b \<le> 0 \<and> a \<noteq> b"
    then show "key a < key b" using c [OF mem [OF ab(1)] mem [OF ab(2)]] inj [OF mem [OF ab(1)] mem [OF ab(2)]]
      by (auto split: if_splits)
  qed
qed

section \<open>The result in terms of values\<close>

fun dval_str :: "dval \<Rightarrow> string" where
  "dval_str (VInt x) = format_int x"
| "dval_str (VStr x) = x"

definition vkey :: "nat list \<Rightarrow> krow \<Rightarrow> dval list" where
  "vkey ds x = map (\<lambda>d. fst x ! d) ds"

text \<open>The aggregate of a part: as \<open>agg_spec\<close>, but a sum starts from the first row's value.\<close>

definition group_spec :: "schema \<Rightarrow> krow list \<Rightarrow> agg \<Rightarrow> f64" where
  "group_spec sc rows a =
     (let vs = metric_vals sc (g_metric a) rows; n = int (length rows)
      in if g_op a = AggSum then sum_first vs
         else if g_op a = AggAvg then f_div (sum_first vs) (f_of_int n)
         else agg_spec sc rows a)"

definition grouped :: "schema \<Rightarrow> nat list \<Rightarrow> agg list \<Rightarrow> krow list \<Rightarrow> groupedResult \<Rightarrow> bool" where
  "grouped sc ds aggs rows r \<longleftrightarrow>
     (\<exists>ks. distinct ks \<and> set ks = vkey ds ` set rows \<and> sorted_wrt (\<lambda>k l. map dval_str k < map dval_str l) ks \<and>
        gr_N r = length ks \<and> gr_Keys r = concat (map (map dval_str) ks) \<and>
        gr_Aggs r = concat (map (\<lambda>k. map (group_spec sc (filter (\<lambda>x. vkey ds x = k) rows)) aggs) ks))"

lemma dimString_val:
  assumes v: "view_ok sc v" and d: "d < ndims sc" and i: "unat i < length (view_vals v ! d)"
  shows "dimString v d i = dval_str (view_vals v ! d ! unat i)"
proof -
  let ?b = "s_dicts (v_base v) ! d" and ?e = "v_extras v ! d"
  have c: "comb_ok ?b ?e" using view_okD(2) [OF v] d by (rule extras_okD(2))
  then have len: "dlen ?b + dlen ?e < 2 ^ 32" by (simp add: comb_ok_def)
  have vv: "view_vals v ! d = dict_vals ?b @ dict_vals ?e" using d view_ok_lengths [OF v] by (simp add: view_vals_nth)
  have n: "unat (of_nat (dlen ?b) :: u32) = dlen ?b" using len by (intro unat_of_nat_u32) simp
  have str: "dict_str D j = dval_str (dict_vals D ! unat j)" if "unat j < dlen D" for D j
    using that by (auto simp: dict_str_def dict_vals_def dlen_def)
  show ?thesis
  proof (cases "unat i < dlen ?b")
    case True
    then have "\<not> of_nat (dlen ?b) \<le> i" by (simp add: word_le_nat_alt n)
    then show ?thesis using str [OF True] True by (simp add: dimString_def Let_def vv nth_append)
  next
    case False
    then have ge: "of_nat (dlen ?b) \<le> i" by (simp add: word_le_nat_alt n)
    then have u: "unat (i - of_nat (dlen ?b)) = unat i - dlen ?b" by (simp add: unat_sub n)
    have "unat (i - of_nat (dlen ?b)) < dlen ?e" using i False by (simp add: u vv)
    from str [OF this] show ?thesis using ge False by (simp add: dimString_def Let_def vv nth_append u)
  qed
qed

text \<open>A valid column of a nonempty part.\<close>

lemma group_out:
  assumes v: "view_ok sc v" and a: "agg_err sc a = None" and rows: "\<forall>x \<in> set rows. ids_ok (view_vals v) (fst x)" "rows \<noteq> []"
  shows "fin (g_op a) (cell (g_op a) (met_of sc a) (ddim_of sc a) rows) (int (length rows)) = group_spec sc (keyed v rows) a"
proof -
  have len: "length (keyed v rows) = length rows" by (simp add: keyed_def)
  have vals: "map (\<lambda>x. a_mets (snd x) ! nat (met_of sc a)) rows = metric_vals sc (g_metric a) (keyed v rows)"
    if "0 \<le> met_of sc a"
    using that by (auto simp: metric_vals_def keyed_def met_of_def split: if_splits)
  have "unat (g_op a) \<le> 5" using a by (auto simp: agg_err_def agg_ops word_le_nat_alt not_less split: if_splits)
  then have "unat (g_op a) \<in> {0, 1, 2, 3, 4, 5}" by auto
  then have "g_op a \<in> {0, 1, 2, 3, 4, 5}" by (auto simp: word_unat_eq_iff)
  then consider (distinct) "g_op a = AggDistinct" | (count) "g_op a = AggCount" | (sum) "g_op a = AggSum \<or> g_op a = AggAvg"
    | (first) "g_op a = AggMin \<or> g_op a = AggMax" by (auto simp: agg_ops)
  then show ?thesis
  proof cases
    case distinct
    have d: "0 \<le> ddim_of sc a" "nat (ddim_of sc a) = the (dimIndex sc (g_dim a))" using distinct by (simp_all add: ddim_of_def)
    show ?thesis using d card_ids [OF v ddim_of_less [OF a d(1)] rows(1)] distinct
      by (simp add: fin_def cell_def group_spec_def agg_spec_def Let_def agg_ops)
  next
    case count
    then show ?thesis using len by (simp add: fin_def group_spec_def agg_spec_def Let_def agg_ops)
  next
    case sum
    have i: "ddim_of sc a < 0" "0 \<le> met_of sc a" using sum by (auto simp: ddim_of_def met_of_def agg_ops)
    then show ?thesis using sum vals [OF i(2)] len by (auto simp: fin_def cell_def group_spec_def Let_def agg_ops)
  next
    case first
    have i: "ddim_of sc a < 0" "0 \<le> met_of sc a" using first by (auto simp: ddim_of_def met_of_def agg_ops)
    then show ?thesis using first vals [OF i(2)] len
      by (auto simp: fin_def cell_def group_spec_def agg_spec_def Let_def agg_ops)
  qed
qed

section \<open>The answer\<close>

fun by_err :: "schema \<Rightarrow> string list \<Rightarrow> nat list \<Rightarrow> err option" where
  "by_err sc [] seen = None"
| "by_err sc (name # rest) seen =
     (case dimIndex sc name of
        None \<Rightarrow> Some (ErrUnknownDim name)
      | Some di \<Rightarrow> if di \<in> set seen then Some (ErrDuplicateBy name) else by_err sc rest (seen @ [di]))"

definition by_dims :: "schema \<Rightarrow> string list \<Rightarrow> nat list" where
  "by_dims sc by = map (\<lambda>name. the (dimIndex sc name)) by"

lemma resolveBy_spec:
  "resolveBy sc by seen = (case by_err sc by seen of Some e \<Rightarrow> Inl e | None \<Rightarrow> Inr (seen @ by_dims sc by))"
  by (induction sc "by" seen rule: resolveBy.induct) (auto simp: by_dims_def list_ex_iff split: option.splits)

lemma by_dims_less: "by_err sc by seen = None \<Longrightarrow> d \<in> set (by_dims sc by) \<Longrightarrow> d < ndims sc"
  by (induction sc "by" seen rule: by_err.induct) (auto simp: by_dims_def split: option.splits if_splits dest: dimIndex_Some)

definition gb_err :: "schema \<Rightarrow> string list \<Rightarrow> agg list \<Rightarrow> err option" where
  "gb_err sc by aggs =
     (if aggs = [] then Some ErrBadAggCount
      else case first_err sc aggs of
        Some e \<Rightarrow> Some e
      | None \<Rightarrow> if by = [] \<or> length by > ndims sc then Some ErrBadByDims else by_err sc by [])"

text \<open>The row closures of the code read the columns.\<close>

lemma visit_rows:
  assumes "\<And>j. j < length aggs \<Longrightarrow> 0 \<le> mets ! j \<Longrightarrow> nat (mets ! j) < length metCols"
    and "\<And>j. j < length aggs \<Longrightarrow> 0 \<le> ddims ! j \<Longrightarrow> nat (ddims ! j) < length dimCols"
    and "\<And>d. d \<in> set ds \<Longrightarrow> d < length dimCols"
    and x: "fst x = row_of dimCols r" "a_mets (snd x) = row_of metCols r"
  shows "visit v ds aggs mets ddims (\<lambda>dd. dimCols ! dd ! r) (\<lambda>m. metCols ! m ! r) res = visitR v ds aggs mets ddims x res"
proof -
  have ids: "map (\<lambda>d. f d (dimCols ! d ! r)) ds = map (\<lambda>d. f d (fst x ! d)) ds" for f :: "nat \<Rightarrow> u32 \<Rightarrow> 'z"
    using assms(3) x(1) by (intro map_cong) (auto simp: row_of_def)
  have ids': "map (\<lambda>d. le32 (dimCols ! d ! r)) ds = map (\<lambda>d. le32 (fst x ! d)) ds"
    using assms(3) x(1) by (intro map_cong) (auto simp: row_of_def)
  have new: "fold (newCol mets ddims g (\<lambda>dd. dimCols ! dd ! r) (\<lambda>m. metCols ! m ! r)) [0..<length aggs] st =
      fold (newCol mets ddims g (\<lambda>d. fst x ! d) (\<lambda>m. a_mets (snd x) ! m)) [0..<length aggs] st" for g st
    using assms(1,2) x by (intro fold_cong refl) (auto simp: newCol_def row_of_def fun_eq_iff)
  have upd: "fold (updCol aggs mets ddims g (\<lambda>dd. dimCols ! dd ! r) (\<lambda>m. metCols ! m ! r)) [0..<length aggs] st =
      fold (updCol aggs mets ddims g (\<lambda>d. fst x ! d) (\<lambda>m. a_mets (snd x) ! m)) [0..<length aggs] st" for g st
    using assms(1,2) x by (intro fold_cong refl) (auto simp: updCol_def row_of_def fun_eq_iff Let_def)
  show ?thesis unfolding visit_def ids' new upd ids [of "dimString v"] ..
qed

definition id_key_vals :: "view \<Rightarrow> nat list \<Rightarrow> u32 list \<Rightarrow> dval list" where
  "id_key_vals v ds k = map2 (\<lambda>d i. view_vals v ! d ! unat i) ds k"

lemma vkey_keyed:
  assumes v: "view_ok sc v" and ds: "\<forall>d \<in> set ds. d < ndims sc" and ok: "ids_ok (view_vals v) (fst x)"
  shows "vkey ds (decode (view_vals v) (fst x), row) = id_key_vals v ds (bykey ds x)"
  using ds by (induction ds) (simp_all add: vkey_def bykey_def id_key_vals_def decode_at [OF v ok])

text \<open>Keys of different id tuples print differently.\<close>

lemma key_strings:
  assumes v: "view_ok sc v" and ds: "\<forall>d \<in> set ds. d < ndims sc" and ok: "ids_ok (view_vals v) (fst x)"
  shows "map2 (dimString v) ds (bykey ds x) = map dval_str (id_key_vals v ds (bykey ds x))"
  using ds by (induction ds) (simp_all add: bykey_def id_key_vals_def dimString_val [OF v] decode_at [OF v ok])

lemma key_inj:
  assumes v: "view_ok sc v" and ds: "\<forall>d \<in> set ds. d < ndims sc"
    and ok: "ids_ok (view_vals v) (fst x)" "ids_ok (view_vals v) (fst y)"
    and eq: "map2 (dimString v) ds (bykey ds x) = map2 (dimString v) ds (bykey ds y)"
  shows "bykey ds x = bykey ds y"
  using ds eq
proof (induction ds)
  case (Cons d ds)
  have d: "d < ndims sc" using Cons.prems(1) by simp
  have u: "unat (fst x ! d) < length (view_vals v ! d)" "unat (fst y ! d) < length (view_vals v ! d)"
    using decode_at [OF v _ d] ok by auto
  have "dimString v d (fst x ! d) = dimString v d (fst y ! d)" using Cons.prems(2) by (simp add: bykey_def)
  then have "view_vals v ! d ! unat (fst x ! d) = view_vals v ! d ! unat (fst y ! d)"
    using resolve_dimString(2) [OF v d u(1)] resolve_dimString(2) [OF v d u(2)] by simp
  moreover have "distinct (view_vals v ! d)"
    using view_vals_distinct [OF v] view_ok_lengths(3) [OF v] d by (simp del: length_view_vals)
  ultimately have "fst x ! d = fst y ! d" using u by (simp add: nth_eq_iff_index_eq word_unat_eq_iff)
  then show ?case using Cons by (simp add: bykey_def)
qed (simp add: bykey_def)

lemma group_row: "g < length (groups_of ds xs) \<Longrightarrow> \<exists>x \<in> set xs. groups_of ds xs ! g = bykey ds x"
  using nth_mem [of g "groups_of ds xs"] by auto

lemma group_key:
  assumes v: "view_ok sc v" and ds: "\<forall>d \<in> set ds. d < ndims sc" and rows: "\<forall>x \<in> set xs. ids_ok (view_vals v) (fst x)"
    and g: "g < length (groups_of ds xs)"
  shows "slice (length ds) g (concat (map (\<lambda>k. map2 (dimString v) ds k) (groups_of ds xs))) = map2 (dimString v) ds (groups_of ds xs ! g)"
    and "map2 (dimString v) ds (groups_of ds xs ! g) = map dval_str (id_key_vals v ds (groups_of ds xs ! g))"
proof -
  have "\<forall>k \<in> set (map (\<lambda>k. map2 (dimString v) ds k) (groups_of ds xs)). length k = length ds" by (auto simp: bykey_def)
  then have "slice (length ds) g (concat (map (\<lambda>k. map2 (dimString v) ds k) (groups_of ds xs))) =
      map (\<lambda>k. map2 (dimString v) ds k) (groups_of ds xs) ! g"
    using g by (intro slice_concat) simp_all
  then show "slice (length ds) g (concat (map (\<lambda>k. map2 (dimString v) ds k) (groups_of ds xs))) = map2 (dimString v) ds (groups_of ds xs ! g)"
    using g by simp
  show "map2 (dimString v) ds (groups_of ds xs ! g) = map dval_str (id_key_vals v ds (groups_of ds xs ! g))"
    using group_row [OF g] key_strings [OF v ds] rows by auto
qed

text \<open>The rows of a group are the rows with its key values.\<close>

lemma group_part:
  assumes v: "view_ok sc v" and ds: "\<forall>d \<in> set ds. d < ndims sc" and rows: "\<forall>x \<in> set xs. ids_ok (view_vals v) (fst x)"
    and y: "y \<in> set xs"
  shows "filter (\<lambda>x. vkey ds x = id_key_vals v ds (bykey ds y)) (keyed v xs) = keyed v (rows_of ds (bykey ds y) xs)"
proof -
  have "vkey ds (decode (view_vals v) (fst x), snd x) = id_key_vals v ds (bykey ds y) \<longleftrightarrow> bykey ds x = bykey ds y"
    if x: "x \<in> set xs" for x
  proof
    assume "vkey ds (decode (view_vals v) (fst x), snd x) = id_key_vals v ds (bykey ds y)"
    then have "map2 (dimString v) ds (bykey ds x) = map2 (dimString v) ds (bykey ds y)"
      using key_strings [OF v ds] vkey_keyed [OF v ds] rows x y by simp
    then show "bykey ds x = bykey ds y" using rows x y by (intro key_inj [OF v ds]) auto
  qed (use vkey_keyed [OF v ds] rows x in simp)
  then show ?thesis by (auto simp: keyed_def rows_of_def filter_map comp_def intro!: arg_cong [where f = "map _"] filter_cong)
qed

lemma group_cells:
  assumes v: "view_ok sc v" and aggs: "\<And>a. a \<in> set aggs \<Longrightarrow> agg_err sc a = None"
    and rows: "\<forall>x \<in> set xs. ids_ok (view_vals v) (fst x)"
    and inv: "cells_inv aggs (map (met_of sc) aggs) (map (ddim_of sc) aggs) ds xs saggs"
    and cnt: "cnt = map (\<lambda>k. int (length (rows_of ds k xs))) (groups_of ds xs)" and g: "g < length (groups_of ds xs)"
  shows "slice (length aggs) g (finalizeAggs aggs cnt saggs) =
    map (group_spec sc (keyed v (rows_of ds (groups_of ds xs ! g) xs))) aggs"
proof (rule nth_equalityI)
  let ?R = "rows_of ds (groups_of ds xs ! g) xs"
  have s: "slice (length aggs) g (finalizeAggs aggs cnt saggs) =
      map (\<lambda>j. fin (g_op (aggs ! j)) (saggs ! (g * length aggs + j)) (cnt ! g)) [0..<length aggs]"
    using inv g by (intro finalizeAggs_slice) (simp_all add: cells_inv_def cnt)
  show "length (slice (length aggs) g (finalizeAggs aggs cnt saggs)) = length (map (group_spec sc (keyed v ?R)) aggs)"
    by (simp add: s)
  fix j assume "j < length (slice (length aggs) g (finalizeAggs aggs cnt saggs))"
  then have j: "j < length aggs" by (simp add: s)
  have ne: "?R \<noteq> []" using group_row [OF g] by (auto simp: rows_of_empty)
  have ok: "\<forall>x \<in> set ?R. ids_ok (view_vals v) (fst x)" using rows by (simp add: rows_of_def)
  have "slice (length aggs) g (finalizeAggs aggs cnt saggs) ! j =
      fin (g_op (aggs ! j)) (cell (g_op (aggs ! j)) (met_of sc (aggs ! j)) (ddim_of sc (aggs ! j)) ?R) (int (length ?R))"
    using inv g j unfolding s by (simp add: cells_inv_def cnt)
  also have "\<dots> = group_spec sc (keyed v ?R) (aggs ! j)" using j by (intro group_out [OF v aggs ok ne]) simp
  finally show "slice (length aggs) g (finalizeAggs aggs cnt saggs) ! j = map (group_spec sc (keyed v ?R)) aggs ! j"
    using j by simp
qed

lemma finish_grouped:
  assumes v: "view_ok sc v" and ds: "\<forall>d \<in> set ds. d < ndims sc" and srt: "sorter srt"
    and aggs: "\<And>a. a \<in> set aggs \<Longrightarrow> agg_err sc a = None"
    and rows: "\<forall>x \<in> set xs. ids_ok (view_vals v) (fst x)"
    and inv: "ginv v ds aggs (map (met_of sc) aggs) (map (ddim_of sc) aggs) xs res"
    and empty: "gr_Keys res = []" "gr_Aggs res = []"
  shows "grouped sc ds aggs (keyed v xs) (finish srt (length ds) aggs res)"
proof -
  let ?gs = "groups_of ds xs" and ?na = "length aggs" and ?nb = "length ds"
  define G where "G = length ?gs"
  define K where "K g = id_key_vals v ds (?gs ! g)" for g
  define key where "key g = slice ?nb g (gr_skeys res)" for g
  define saggs where "saggs = finalizeAggs aggs (gr_cnt res) (gr_saggs res)"
  note I = inv [unfolded ginv_def]
  have lc: "length (gr_cnt res) = G" using I by (simp add: G_def)
  have key: "key g = map2 (dimString v) ds (?gs ! g)" "key g = map dval_str (K g)" if "g < G" for g
    using I group_key [OF v ds rows that [unfolded G_def]] by (simp_all add: key_def K_def)
  have inj: "g = h" if gh: "g < G" "h < G" "key g = key h" for g h
  proof -
    obtain x y where xy: "x \<in> set xs" "y \<in> set xs" "?gs ! g = bykey ds x" "?gs ! h = bykey ds y"
      using group_row gh(1,2) unfolding G_def by meson
    then have "bykey ds x = bykey ds y" using gh key(1) rows by (intro key_inj [OF v ds]) auto
    then show ?thesis using xy gh distinct_firsts [of "map (bykey ds) xs"] unfolding G_def by (metis nth_eq_iff_index_eq)
  qed
  have klen: "length (key g) = ?nb" if "g < G" for g
    using group_row [OF that [unfolded G_def]] key(1) [OF that] by (auto simp: bykey_def)
  define ord where "ord = srt (cmp_less (\<lambda>a b. keysLess (key a) (key b))) [0..<G]"
  have ord: "mset ord = mset [0..<G]" "sorted_wrt (\<lambda>a b. key a < key b) ord"
    using sort_keys [OF srt klen inj] by (simp_all add: ord_def)
  have so: "set ord = {..<G}" "distinct ord" "length ord = G"
    using ord(1) by (metis atLeast_upt mset_eq_setD, metis distinct_upt mset_eq_imp_distinct_iff,
        metis length_upt minus_nat.diff_0 size_mset)
  have fin: "finish srt ?nb aggs res = res\<lparr>gr_saggs := saggs, gr_ord := ord,
      gr_Keys := concat (map key ord), gr_Aggs := concat (map (\<lambda>g. slice ?na g saggs) ord), gr_N := G\<rparr>"
    using empty by (simp add: finish_def Let_def lc saggs_def ord_def key_def [abs_def])
  have cells: "slice ?na g saggs = map (group_spec sc (filter (\<lambda>x. vkey ds x = K g) (keyed v xs))) aggs" if g: "g < G" for g
  proof -
    obtain y where y: "y \<in> set xs" "?gs ! g = bykey ds y" using group_row g unfolding G_def by blast
    show ?thesis unfolding saggs_def
      using I g group_cells [OF v aggs rows] group_part [OF v ds rows y(1)] y(2) by (simp add: K_def G_def)
  qed
  show ?thesis unfolding grouped_def fin
  proof (intro exI [of _ "map K ord"] conjI)
    show "sorted_wrt (\<lambda>k l. map dval_str k < map dval_str l) (map K ord)"
      unfolding sorted_wrt_map using ord(2) key(2) so by (auto intro: sorted_wrt_mono_rel [rotated])
    have "inj_on K (set ord)" unfolding so by (rule inj_onI) (use key(2) inj in auto)
    then show "distinct (map K ord)" using so(2) by (simp add: distinct_map)
    have "set (map K ord) = id_key_vals v ds ` set ?gs"
      unfolding set_map so image_image K_def [abs_def] by (auto simp: G_def set_conv_nth simp del: set_firsts)
    also have "\<dots> = vkey ds ` set (keyed v xs)"
      unfolding keyed_def set_map image_image set_firsts using vkey_keyed [OF v ds] rows by (intro image_cong) auto
    finally show "set (map K ord) = vkey ds ` set (keyed v xs)" .
  qed (use so key(2) cells in \<open>auto simp: comp_def intro!: arg_cong [where f = concat]\<close>)
qed

lemma ginv_reset:
  assumes "hasDistinct = list_ex (\<lambda>j. ddims ! j \<ge> 0) [0..<length aggs]"
  shows "ginv v ds aggs mets ddims [] (resetResult hasDistinct res)"
  using assms by (auto simp: ginv_def cells_inv_def dset_inv_def resetResult_def list_ex_iff)

lemma fold_visit_frame:
  "gr_Keys (fold (visitR v ds aggs mets ddims) xs res) = gr_Keys res \<and>
   gr_Aggs (fold (visitR v ds aggs mets ddims) xs res) = gr_Aggs res"
proof (induction xs arbitrary: res)
  case (Cons x xs)
  have "gr_Keys (visitR v ds aggs mets ddims x res) = gr_Keys res \<and> gr_Aggs (visitR v ds aggs mets ddims x res) = gr_Aggs res"
    by (simp add: visit_def Let_def case_prod_beta split: option.splits)
  with Cons show ?case by simp
qed simp

interpretation grouping: row_consumer "first_err sc aggs = None \<and> (\<forall>d \<in> set ds. d < ndims sc)" sc
    "\<lambda>dimCols metCols r. visit v ds aggs (map (met_of sc) aggs) (map (ddim_of sc) aggs)
       (\<lambda>dd. dimCols ! dd ! r) (\<lambda>m. metCols ! m ! r)"
    "visitR v ds aggs (map (met_of sc) aggs) (map (ddim_of sc) aggs)" for sc aggs v ds
proof unfold_locales
  fix dimCols :: "u32 list list" and metCols :: "f64 list list" and x :: "u32 list \<times> arow" and r acc
  assume e: "first_err sc aggs = None \<and> (\<forall>d \<in> set ds. d < ndims sc)"
    and cols: "length dimCols = ndims sc" "length metCols = nmets sc"
    and x: "fst x = row_of dimCols r" "a_mets (snd x) = row_of metCols r"
  have none: "agg_err sc (aggs ! j) = None" if "j < length aggs" for j using e that first_err_None by auto
  show "visit v ds aggs (map (met_of sc) aggs) (map (ddim_of sc) aggs) (\<lambda>dd. dimCols ! dd ! r) (\<lambda>m. metCols ! m ! r) acc =
      visitR v ds aggs (map (met_of sc) aggs) (map (ddim_of sc) aggs) x acc"
    using met_of_less [OF none] ddim_of_less [OF none] e by (intro visit_rows x) (simp_all add: cols)
qed

text \<open>The result buffer after visiting every row of the answer, finished.\<close>

lemma grouped_hits:
  assumes v: "view_ok sc v" and ds: "\<forall>d \<in> set ds. d < ndims sc" and srt: "sorter srt" and e: "first_err sc aggs = None"
    and na: "length aggs \<le> 256" and n: "length rows \<le> 2 ^ 32" and ids: "\<forall>x \<in> set rows. ids_ok (view_vals v) (fst x)"
  shows "grouped sc ds aggs (keyed v rows) (finish srt (length ds) aggs
    (fold (visitR v ds aggs (map (met_of sc) aggs) (map (ddim_of sc) aggs)) rows
      (resetResult (list_ex (\<lambda>j. map (ddim_of sc) aggs ! j \<ge> 0) [0..<length aggs]) res)))"
proof (rule finish_grouped [OF v ds srt])
  show "agg_err sc x = None" if "x \<in> set aggs" for x using e that first_err_None by auto
  show "ginv v ds aggs (map (met_of sc) aggs) (map (ddim_of sc) aggs) rows
      (fold (visitR v ds aggs (map (met_of sc) aggs) (map (ddim_of sc) aggs)) rows
        (resetResult (list_ex (\<lambda>j. map (ddim_of sc) aggs ! j \<ge> 0) [0..<length aggs]) res))"
    by (rule ginv_run [OF ginv_reset na n]) simp
qed (simp_all add: ids fold_visit_frame resetResult_def)

lemma queryGroupBy_answer:
  assumes v: "view_ok (sto_sc s) (sto_view s)" and room: "plan_room gs qs" "agg_room (length aggs) qs"
    and srts: "sorter isrt" "sorter srt"
    and na: "length aggs \<le> 256" and n: "length (hits (sto_sc s) (sto_view s) (unix_milli t) gs) \<le> 2 ^ 32"
  shows "\<exists>out s1. queryGroupBy isrt srt s res by aggs gs t qs = Some (out, s1) \<and> stats_only s s1 \<and>
    (case gb_err (sto_sc s) by aggs of
        Some e \<Rightarrow> out = Inl e
      | None \<Rightarrow> \<exists>pres qs1. plan_answer s (sto_view s) gs qs1 pres s1 \<and>
          (case pres of Inl e \<Rightarrow> out = Inl e
           | Inr _ \<Rightarrow> \<exists>r. out = Inr r \<and> grouped (sto_sc s) (by_dims (sto_sc s) by) aggs
               (keyed (sto_view s) (hits (sto_sc s) (sto_view s) (unix_milli t) gs)) r))"
proof (cases "gb_err (sto_sc s) by aggs")
  case (Some e)
  then show ?thesis using resolveAggs_spec [OF room(2)]
    by (auto simp: queryGroupBy_def gb_err_def resolveBy_spec stats_only_def split: if_splits option.splits)
next
  case None
  let ?v = "sto_view s" and ?sc = "sto_sc s"
  define ds where "ds = by_dims ?sc by"
  define qs0 where "qs0 = qs\<lparr>q_mets := map (met_of ?sc) aggs, q_ddims := map (ddim_of ?sc) aggs\<rparr>"
  have ok: "aggs \<noteq> []" "first_err ?sc aggs = None" "\<not> (length by = 0 \<or> length by > ndims ?sc)" "by_err ?sc by [] = None"
    using None by (auto simp: gb_err_def split: if_splits option.splits)
  have res0: "resolveAggs ?sc aggs qs = Inr qs0" "q_mets qs0 = map (met_of ?sc) aggs" "q_ddims qs0 = map (ddim_of ?sc) aggs"
    using ok(1,2) resolveAggs_spec [OF room(2), of ?sc] by (simp_all add: qs0_def)
  have by0: "resolveBy ?sc by [] = Inr ds" using ok(4) by (simp add: resolveBy_spec ds_def)
  have dsn: "\<forall>d \<in> set ds. d < ndims ?sc" using by_dims_less [OF ok(4)] by (simp add: ds_def)
  have nb: "length by = length ds" by (simp add: ds_def by_dims_def)
  have r0: "plan_room gs qs0" using room(1) by (simp add: plan_room_def fresh_def cond_room_def qs0_def)
  obtain pres s1 where p: "planGroups isrt s ?v gs qs0 = Some (pres, s1)" and a: "plan_answer s ?v gs qs0 pres s1"
    using planGroups_answer [OF v r0 srts(1)] by blast
  have st: "stats_only s s1" using a by (rule plan_answerD)
  show ?thesis
  proof (cases pres)
    case (Inl e)
    have "queryGroupBy isrt srt s res by aggs gs t qs = Some (Inl e, s1)"
      using res0 by0 ok(3) p Inl by (simp add: queryGroupBy_def Let_def)
    then show ?thesis using None a st Inl by auto
  next
    case (Inr qs1)
    obtain be de now where c: "queryClock ?v t = (be, de, now)" by (cases "queryClock ?v t")
    have pl: "planned_ok ?sc ?v gs qs1" using plan_answerD(3) [OF a Inr] by blast
    note sw = grouping.sweep_fold [OF conjI [OF ok(2) dsn] v pl c]
    have "queryGroupBy isrt srt s res by aggs gs t qs = Some (Inr (finish srt (length ds) aggs
        (fold (visitR ?v ds aggs (map (met_of ?sc) aggs) (map (ddim_of ?sc) aggs)) (hits ?sc ?v (unix_milli t) gs)
          (resetResult (list_ex (\<lambda>j. map (ddim_of ?sc) aggs ! j \<ge> 0) [0..<length aggs]) res))), s1)"
      using res0 by0 ok(3) p Inr c by (simp add: queryGroupBy_def Let_def sw nb)
    then show ?thesis using grouped_hits [OF v dsn srts(2) ok(2) na n hits_ids_ok [OF v], of res] None a st Inr
      by (auto simp: ds_def)
  qed
qed

end
