(* ===== verification/Answers.thy ===== *)
theory Answers
  imports GroupSound
begin

text \<open>
  The query entry points in terms of the table that the store stands for: which rows they
  answer from, what they answer, and when they fail.
\<close>

section \<open>The rows a query answers from\<close>

definition answer_rows :: "store \<Rightarrow> i64 \<Rightarrow> cond list list \<Rightarrow> krow list" where
  "answer_rows s now gs = keyed (sto_view s) (hits (sto_sc s) (sto_view s) now gs)"

text \<open>A list of exactly the rows of a table that have not expired and satisfy a group.\<close>

definition visible_rows :: "schema \<Rightarrow> (dval list \<rightharpoonup> arow) \<Rightarrow> i64 \<Rightarrow> cond list list \<Rightarrow> krow list \<Rightarrow> bool" where
  "visible_rows sc A now gs rows \<longleftrightarrow> distinct (map fst rows) \<and>
     set rows = {(key, row). A key = Some row \<and> \<not> rowExpired (a_exp row) now \<and> (\<exists>g \<in> set gs. group_sat sc key g)}"

lemma answer_rows_visible:
  assumes "store_ok s"
  shows "visible_rows (sto_sc s) (table s) now gs (answer_rows s now gs)"
  using hits_set [OF store_okD(1) [OF assms], of now gs]
  by (simp add: visible_rows_def answer_rows_def keyed_def table_def comp_def)

text \<open>What a query may fail with, and what a failure does to the refusal counter.\<close>

definition query_fails :: "store \<Rightarrow> cond list list \<Rightarrow> err \<Rightarrow> store \<Rightarrow> bool" where
  "query_fails s gs e s1 \<longleftrightarrow>
     (e = ErrBadGroupCount \<and> gs = [] \<or> gs \<noteq> [] \<and> e \<in> group_errs (sto_sc s) gs) \<and> refused s s1 = 0 \<or>
     e = ErrScanBudget \<and> gs \<noteq> [] \<and> MaxScanRows (sto_cfg s) > 0 \<and> refused s s1 = 1"

lemma plan_answer_fails: "plan_answer s v gs qs (Inl e) s1 \<Longrightarrow> query_fails s gs e s1"
  using plan_answerD(2) [of s v gs qs "Inl e" s1 e] by (auto simp: query_fails_def)

lemma sum_keyed: "sum_rows n (keyed v xs) = sum_rows n xs"
  by (simp add: sum_rows_def keyed_def fold_map comp_def)

section \<open>The entry points\<close>

lemma QueryGroups_answer:
  assumes ok: "store_ok s" and srt: "sorter srt"
  shows "\<exists>res s1. QueryGroups srt s gs t pool = Some (res, s1) \<and> stats_only s s1 \<and>
    (case res of
       Inl e \<Rightarrow> query_fails s gs e s1
     | Inr dst \<Rightarrow> gs \<noteq> [] \<and> refused s s1 = 0 \<and> dst = sum_rows (nmets (sto_sc s)) (answer_rows s (unix_milli t) gs))"
proof -
  let ?qs = "routeScratch pool gs 0"
  obtain res s1 pres where q: "QueryGroups srt s gs t pool = Some (res, s1)" "stats_only s s1"
    and p: "plan_answer s (sto_view s) gs ?qs pres s1"
    and r: "case pres of Inl e \<Rightarrow> res = Inl e
       | Inr _ \<Rightarrow> res = Inr (sum_rows (nmets (sto_sc s)) (hits (sto_sc s) (sto_view s) (unix_milli t) gs))"
    using queryGroups_answer [OF store_okD(1) [OF ok] conjunct1 [OF routeScratch_room] srt] unfolding QueryGroups_def by blast
  show ?thesis
    using q p r plan_answer_fails [of s "sto_view s" gs ?qs _ s1] plan_answerD(3) [OF p]
    by (cases pres) (auto simp: answer_rows_def sum_keyed)
qed

lemma QueryAggs_answer:
  assumes ok: "store_ok s" and srt: "sorter srt"
  shows "\<exists>res s1. QueryAggs srt s aggs gs t pool = Some (res, s1) \<and> stats_only s s1 \<and>
    (case res of
       Inl e \<Rightarrow> (if aggs = [] then e = ErrBadAggCount
          else case first_err (sto_sc s) aggs of Some e' \<Rightarrow> e = e' | None \<Rightarrow> query_fails s gs e s1)
     | Inr dst \<Rightarrow> aggs \<noteq> [] \<and> first_err (sto_sc s) aggs = None \<and> gs \<noteq> [] \<and>
         dst = map (agg_spec (sto_sc s) (answer_rows s (unix_milli t) gs)) aggs)"
proof -
  have room: "plan_room gs (routeScratch pool gs (length aggs))" "agg_room (length aggs) (routeScratch pool gs (length aggs))"
    using routeScratch_room by blast+
  obtain res s1 where q: "QueryAggs srt s aggs gs t pool = Some (res, s1)" "stats_only s s1"
    and r: "if aggs = [] then res = Inl ErrBadAggCount
     else case first_err (sto_sc s) aggs of
        Some e \<Rightarrow> res = Inl e
      | None \<Rightarrow> \<exists>pres qs1. plan_answer s (sto_view s) gs qs1 pres s1 \<and>
          (case pres of Inl e \<Rightarrow> res = Inl e
           | Inr _ \<Rightarrow> res = Inr (map (agg_spec (sto_sc s) (answer_rows s (unix_milli t) gs)) aggs))"
    using queryAggs_answer [OF store_okD(1) [OF ok] room srt, of t] unfolding QueryAggs_def answer_rows_def by blast
  show ?thesis
  proof (cases "aggs = [] \<or> first_err (sto_sc s) aggs \<noteq> None")
    case True
    then show ?thesis using q r by (auto split: if_splits)
  next
    case False
    then obtain pres qs1 where p: "plan_answer s (sto_view s) gs qs1 pres s1" and
      r': "case pres of Inl e \<Rightarrow> res = Inl e
           | Inr _ \<Rightarrow> res = Inr (map (agg_spec (sto_sc s) (answer_rows s (unix_milli t) gs)) aggs)"
      using r by auto
    show ?thesis
      using q False r' p plan_answer_fails [of s "sto_view s" gs qs1 _ s1] plan_answerD(3) [OF p]
      by (cases pres) auto
  qed
qed

lemma QueryGroupBy_answer:
  assumes ok: "store_ok s" and srts: "sorter isrt" "sorter srt"
    and na: "length aggs \<le> 256" and n: "length (answer_rows s (unix_milli t) gs) \<le> 2 ^ 32"
  shows "\<exists>out s1. QueryGroupBy isrt srt s (Some res) by aggs gs t pool = Some (out, s1) \<and> stats_only s s1 \<and>
    (case out of
       Inl e \<Rightarrow> (case gb_err (sto_sc s) by aggs of Some e' \<Rightarrow> e = e' | None \<Rightarrow> query_fails s gs e s1)
     | Inr r \<Rightarrow> gb_err (sto_sc s) by aggs = None \<and> gs \<noteq> [] \<and>
         grouped (sto_sc s) (by_dims (sto_sc s) by) aggs (answer_rows s (unix_milli t) gs) r)"
proof -
  have room: "plan_room gs (routeScratch pool gs (length aggs))" "agg_room (length aggs) (routeScratch pool gs (length aggs))"
    using routeScratch_room by blast+
  have n': "length (hits (sto_sc s) (sto_view s) (unix_milli t) gs) \<le> 2 ^ 32"
    using n by (simp add: answer_rows_def keyed_def)
  obtain out s1 where q: "queryGroupBy isrt srt s res by aggs gs t (routeScratch pool gs (length aggs)) = Some (out, s1)"
    and st: "stats_only s s1" and r: "case gb_err (sto_sc s) by aggs of
        Some e \<Rightarrow> out = Inl e
      | None \<Rightarrow> \<exists>pres qs1. plan_answer s (sto_view s) gs qs1 pres s1 \<and>
          (case pres of Inl e \<Rightarrow> out = Inl e
           | Inr _ \<Rightarrow> \<exists>r. out = Inr r \<and> grouped (sto_sc s) (by_dims (sto_sc s) by) aggs
               (keyed (sto_view s) (hits (sto_sc s) (sto_view s) (unix_milli t) gs)) r)"
    using queryGroupBy_answer [OF store_okD(1) [OF ok] room srts na n', of res "by"] by blast
  have run: "QueryGroupBy isrt srt s (Some res) by aggs gs t pool = Some (out, s1)" using q by (simp add: QueryGroupBy_def)
  show ?thesis
  proof (cases "gb_err (sto_sc s) by aggs")
    case (Some e)
    then show ?thesis using run st r by auto
  next
    case None
    then obtain pres qs1 where p: "plan_answer s (sto_view s) gs qs1 pres s1" and
      r': "case pres of Inl e \<Rightarrow> out = Inl e
           | Inr _ \<Rightarrow> \<exists>r. out = Inr r \<and> grouped (sto_sc s) (by_dims (sto_sc s) by) aggs (answer_rows s (unix_milli t) gs) r"
      using r unfolding answer_rows_def by auto
    show ?thesis
      using run st None r' p plan_answer_fails [of s "sto_view s" gs qs1 _ s1] plan_answerD(3) [OF p]
      by (cases pres) auto
  qed
qed

text \<open>A query over valid groups with no budget always answers.\<close>

lemma QueryGroups_total:
  assumes "store_ok s" "sorter srt" "gs \<noteq> []" "group_errs (sto_sc s) gs = {}" "MaxScanRows (sto_cfg s) \<le> 0"
  shows "\<exists>dst s1. QueryGroups srt s gs t pool = Some (Inr dst, s1)"
proof -
  obtain res s1 where q: "QueryGroups srt s gs t pool = Some (res, s1)"
    "case res of Inl e \<Rightarrow> query_fails s gs e s1
     | Inr dst \<Rightarrow> gs \<noteq> [] \<and> refused s s1 = 0 \<and> dst = sum_rows (nmets (sto_sc s)) (answer_rows s (unix_milli t) gs)"
    using QueryGroups_answer [OF assms(1,2)] by blast
  then show ?thesis using assms(3-5) by (cases res) (auto simp: query_fails_def)
qed

lemma QueryAggs_total:
  assumes "store_ok s" "sorter srt" "gs \<noteq> []" "group_errs (sto_sc s) gs = {}" "MaxScanRows (sto_cfg s) \<le> 0"
    and a: "aggs \<noteq> []" "first_err (sto_sc s) aggs = None"
  shows "\<exists>dst s1. QueryAggs srt s aggs gs t pool = Some (Inr dst, s1)"
proof -
  obtain res s1 where q: "QueryAggs srt s aggs gs t pool = Some (res, s1)"
    "case res of Inl e \<Rightarrow> (if aggs = [] then e = ErrBadAggCount
          else case first_err (sto_sc s) aggs of Some e' \<Rightarrow> e = e' | None \<Rightarrow> query_fails s gs e s1)
     | Inr dst \<Rightarrow> aggs \<noteq> [] \<and> first_err (sto_sc s) aggs = None \<and> gs \<noteq> [] \<and>
         dst = map (agg_spec (sto_sc s) (answer_rows s (unix_milli t) gs)) aggs"
    using QueryAggs_answer [OF assms(1,2)] by blast
  then show ?thesis using assms(3-5) a by (cases res) (auto simp: query_fails_def)
qed

section \<open>Integer metrics\<close>

text \<open>
  Where a metric holds non-negative integers whose total stays below \<open>2 ^ 53\<close>, the float sum is
  the exact one, whatever the order in which the rows are visited.
\<close>

lemma sum_rows_nth:
  "m < n \<Longrightarrow> \<forall>x \<in> set rows. length (a_mets (snd x)) = n \<Longrightarrow>
   sum_rows n rows ! m = fold (\<lambda>x acc. f_add acc (a_mets (snd x) ! m)) rows 0"
proof -
  have "fold (\<lambda>x. addRow (a_mets (snd x))) rows dst ! m = fold (\<lambda>x acc. f_add acc (a_mets (snd x) ! m)) rows (dst ! m)"
    if "m < n" "\<forall>x \<in> set rows. length (a_mets (snd x)) = n" "length dst = n" for dst
    using that by (induction rows arbitrary: dst) (simp_all add: addRow_def)
  then show "m < n \<Longrightarrow> \<forall>x \<in> set rows. length (a_mets (snd x)) = n \<Longrightarrow>
    sum_rows n rows ! m = fold (\<lambda>x acc. f_add acc (a_mets (snd x) ! m)) rows 0"
    by (simp add: sum_rows_def)
qed

lemma fold_add_int:
  assumes "\<forall>x \<in> set rows. a_mets (snd x) ! m = f_of_int (val x) \<and> 0 \<le> val x"
    and "0 \<le> a" "a + sum_list (map val rows) < 2 ^ 53"
  shows "fold (\<lambda>x acc. f_add acc (a_mets (snd x) ! m)) rows (f_of_int a) = f_of_int (a + sum_list (map val rows))"
  using assms
proof (induction rows arbitrary: a)
  case (Cons x rows)
  have pos: "0 \<le> sum_list (map val rows)" using Cons.prems(1) by (intro sum_list_nonneg) auto
  have add: "f_add (f_of_int a) (f_of_int (val x)) = f_of_int (a + val x)"
    using Cons.prems pos by (intro f_add_int) auto
  have "fold (\<lambda>x acc. f_add acc (a_mets (snd x) ! m)) rows (f_of_int (a + val x)) = f_of_int (a + val x + sum_list (map val rows))"
    using Cons.prems by (intro Cons.IH) auto
  then show ?case using Cons.prems(1) add by (simp add: add.assoc)
qed simp

lemma answer_row_mets:
  assumes ok: "store_ok s" and x: "x \<in> set (answer_rows s now gs)"
  shows "length (a_mets (snd x)) = nmets (sto_sc s)"
proof -
  have v: "view_ok (sto_sc s) (sto_view s)" using ok by (rule store_okD)
  note b = rows_okD(3) [OF snap_okD(4) [OF view_okD(1) [OF v]]] and d = rows_okD(3) [OF view_okD(3) [OF v]]
  show ?thesis using x b d by (auto simp: answer_rows_def keyed_def hits_rows snap_row_def delta_row_def)
qed

definition visible_keys :: "store \<Rightarrow> i64 \<Rightarrow> cond list list \<Rightarrow> dval list set" where
  "visible_keys s now gs = {key. \<exists>row. table s key = Some row \<and> \<not> rowExpired (a_exp row) now \<and>
     (\<exists>g \<in> set gs. group_sat (sto_sc s) key g)}"

lemma answer_sum:
  assumes ok: "store_ok s" and m: "m < nmets (sto_sc s)"
    and int: "\<And>key row. table s key = Some row \<Longrightarrow> a_mets row ! m = f_of_int (val key) \<and> 0 \<le> val key"
    and small: "sum val (visible_keys s now gs) < 2 ^ 53"
  shows "sum_rows (nmets (sto_sc s)) (answer_rows s now gs) ! m = f_of_int (sum val (visible_keys s now gs))"
proof -
  let ?rows = "answer_rows s now gs"
  have dist: "distinct (map fst ?rows)" and vis: "set ?rows = {(key, row). table s key = Some row \<and>
      \<not> rowExpired (a_exp row) now \<and> (\<exists>g \<in> set gs. group_sat (sto_sc s) key g)}"
    using answer_rows_visible [OF ok, of now gs] unfolding visible_rows_def by blast+
  have keys: "fst ` set ?rows = visible_keys s now gs"
    unfolding vis visible_keys_def by (rule set_eqI) (simp add: image_iff)
  have tot: "sum_list (map (\<lambda>x. val (fst x)) ?rows) = sum val (visible_keys s now gs)"
  proof -
    have "sum_list (map val (map fst ?rows)) = sum val (set (map fst ?rows))"
      using dist by (rule sum_list_distinct_conv_sum_set)
    then show ?thesis using keys by (simp add: comp_def)
  qed
  have z: "f_of_int 0 = 0" by (simp add: f_of_int_def f_round_def f_zero_def)
  have "sum_rows (nmets (sto_sc s)) ?rows ! m = fold (\<lambda>x acc. f_add acc (a_mets (snd x) ! m)) ?rows 0"
    using m answer_row_mets [OF ok] by (intro sum_rows_nth) auto
  also have "\<dots> = fold (\<lambda>x acc. f_add acc (a_mets (snd x) ! m)) ?rows (f_of_int 0)" by (simp add: z)
  also have "\<dots> = f_of_int (0 + sum_list (map (\<lambda>x. val (fst x)) ?rows))"
  proof (rule fold_add_int)
    show "\<forall>x \<in> set ?rows. a_mets (snd x) ! m = f_of_int (val (fst x)) \<and> 0 \<le> val (fst x)"
      using vis int by auto
  qed (use tot small in simp_all)
  finally show ?thesis using tot by simp
qed

text \<open>In terms of the results: counts, numbers of values and exact sums over the matching tuples.\<close>

lemma answer_rows_keys:
  assumes "store_ok s"
  shows "fst ` set (answer_rows s now gs) = visible_keys s now gs"
    and "length (answer_rows s now gs) = card (visible_keys s now gs)"
proof -
  have vis: "distinct (map fst (answer_rows s now gs))" "set (answer_rows s now gs) = {(key, row).
      table s key = Some row \<and> \<not> rowExpired (a_exp row) now \<and> (\<exists>g \<in> set gs. group_sat (sto_sc s) key g)}"
    using answer_rows_visible [OF assms, of now gs] unfolding visible_rows_def by blast+
  show k: "fst ` set (answer_rows s now gs) = visible_keys s now gs"
    unfolding vis(2) visible_keys_def by (rule set_eqI) (simp add: image_iff)
  show "length (answer_rows s now gs) = card (visible_keys s now gs)"
    using distinct_card [OF vis(1)] k by simp
qed

lemma QueryAggs_counts:
  assumes ok: "store_ok s" and srt: "sorter srt" and q: "QueryAggs srt s aggs gs t pool = Some (Inr dst, s1)"
    and i: "i < length aggs" and a: "g_op (aggs ! i) = AggCount \<or> g_op (aggs ! i) = AggDistinct"
  shows "dst ! i = f_of_int (int
      (if g_op (aggs ! i) = AggCount then card (visible_keys s (unix_milli t) gs)
       else card ((\<lambda>key. key ! the (dimIndex (sto_sc s) (g_dim (aggs ! i)))) ` visible_keys s (unix_milli t) gs)))"
proof -
  let ?rows = "answer_rows s (unix_milli t) gs" and ?d = "the (dimIndex (sto_sc s) (g_dim (aggs ! i)))"
  have d: "dst ! i = agg_spec (sto_sc s) ?rows (aggs ! i)"
    using QueryAggs_answer [OF ok srt, of aggs gs t pool] q i by auto
  have "card ((\<lambda>x. fst x ! ?d) ` set ?rows) = card ((\<lambda>key. key ! ?d) ` visible_keys s (unix_milli t) gs)"
    by (simp only: answer_rows_keys(1) [OF ok, symmetric] image_image)
  moreover have "AggDistinct \<noteq> AggCount" by (simp add: agg_ops)
  ultimately show ?thesis using a unfolding d agg_spec_def Let_def answer_rows_keys(2) [OF ok] by auto
qed

lemma QueryGroups_sums:
  assumes ok: "store_ok s" and srt: "sorter srt" and q: "QueryGroups srt s gs t pool = Some (Inr dst, s1)"
    and m: "m < nmets (sto_sc s)"
    and int: "\<And>key row. table s key = Some row \<Longrightarrow> a_mets row ! m = f_of_int (val key) \<and> 0 \<le> val key"
    and small: "sum val (visible_keys s (unix_milli t) gs) < 2 ^ 53"
  shows "dst ! m = f_of_int (sum val (visible_keys s (unix_milli t) gs))"
proof -
  have "dst = sum_rows (nmets (sto_sc s)) (answer_rows s (unix_milli t) gs)"
    using QueryGroups_answer [OF ok srt, of gs t pool] q by auto
  then show ?thesis using answer_sum [OF ok m int small] by simp
qed

section \<open>Queries across a compaction\<close>

text \<open>
  A compaction removes what queries skip anyway, as long as no row of the table is past the
  cutoff that it takes (0 without a TTL, so that no row is from before 1970) and the clock of
  the query has not gone back: every query answers from the same rows before and after.
\<close>

lemma Compact_visible:
  assumes ok: "store_ok s" and srt: "sorter srt" and c: "Compact srt s t0 t1 t2 el = (None, s1)"
    and live: "\<And>key row. table s key = Some row \<Longrightarrow> ttlCutoff s t1 \<le> a_upd row \<and> ttlCutoff s t2 \<le> a_upd row"
    and now: "unix_milli t0 \<le> now"
  shows "mset (answer_rows s1 now gs) = mset (answer_rows s now gs)" "store_ok s1"
proof -
  note ref = Compact_refines(2) [OF ok srt, of t1 t2 t0 el, unfolded c fst_conv snd_conv]
  show ok1: "store_ok s1" using Compact_refines(1) [OF ok srt, of t0 t1 t2 el] c by simp
  have sc: "sto_sc s1 = sto_sc s" using exec_frame [of srt "OpCompact t0 t1 t2 el" s] c by (simp add: exec_def)
  obtain cut where cut: "cut \<in> {ttlCutoff s t1, ttlCutoff s t2}"
    and r: "case spec_compact (sto_sc s) (sto_cfg s) cut (unix_milli t0) (table s) of
       Inl e \<Rightarrow> None = Some e \<and> table s1 = table s \<and> sto_capBlocked s1 = (sto_capBlocked s \<or> e \<noteq> ErrKeyOverflow)
     | Inr A \<Rightarrow> (None :: err option) = None \<and> table s1 = A \<and> \<not> sto_capBlocked s1 \<and> DeltaRows s1 = 0"
    using ref by (rule bexE) (rule that)
  have tab: "table s1 = survivors cut (unix_milli t0) (table s)"
    using r by (auto simp: spec_compact_def Let_def split: sum.splits if_splits)
  have same: "table s1 key = Some row \<and> \<not> rowExpired (a_exp row) now \<longleftrightarrow>
      table s key = Some row \<and> \<not> rowExpired (a_exp row) now" for key row
  proof -
    have "keep_row cut (unix_milli t0) row" if "table s key = Some row" "\<not> rowExpired (a_exp row) now"
      using live [OF that(1)] cut that(2) now by (auto simp: keep_row_def rowExpired_def)
    then show ?thesis unfolding tab by (auto simp: survivors_def split: option.splits if_splits)
  qed
  have v: "visible_rows (sto_sc s) (table s1) now gs (answer_rows s1 now gs)"
    "visible_rows (sto_sc s) (table s) now gs (answer_rows s now gs)"
    using answer_rows_visible [OF ok1, of now gs] answer_rows_visible [OF ok, of now gs] by (simp_all add: sc)
  have eq: "table s1 key = Some row \<and> \<not> rowExpired (a_exp row) now \<and> P \<longleftrightarrow>
      table s key = Some row \<and> \<not> rowExpired (a_exp row) now \<and> P" for key row P
    using same by blast
  have "set (answer_rows s1 now gs) = set (answer_rows s now gs)"
    using v unfolding visible_rows_def by (simp only: eq)
  moreover have "distinct (answer_rows s1 now gs)" "distinct (answer_rows s now gs)"
    using v by (simp_all add: visible_rows_def distinct_map)
  ultimately show "mset (answer_rows s1 now gs) = mset (answer_rows s now gs)"
    by (simp add: set_eq_iff_mset_eq_distinct)
qed

section \<open>One group, one plan\<close>

text \<open>
  The planner always returns. Its plan matches exactly the rows that satisfy the group, in the
  base and in the delta, and the intervals it emits hold every such base row and leave the
  room that is owed to the groups after it.
\<close>

definition base_sat :: "schema \<Rightarrow> view \<Rightarrow> cond list \<Rightarrow> nat \<Rightarrow> bool" where
  "base_sat sc v g r \<longleftrightarrow> group_sat sc (decode (view_vals v) (row_of (s_dims (v_base v)) r)) g"

definition delta_sat :: "schema \<Rightarrow> view \<Rightarrow> cond list \<Rightarrow> nat \<Rightarrow> bool" where
  "delta_sat sc v g r \<longleftrightarrow> group_sat sc (decode (view_vals v) (row_of (d_dims (v_delta v)) r)) g"

lemma plan_matches:
  assumes v: "view_ok sc v" and room: "cond_room g qs" "length (q_ivs qs) + 1 + reserve \<le> k_ivs (q_caps qs)"
    and len: "length (q_condIDs qs) = length (q_condDims qs)"
  shows "\<exists>res. plan sc v g qs reserve = Some res \<and>
    (case res of
       Inl e \<Rightarrow> \<exists>c \<in> set g. cond_err sc c = Some e
     | Inr (p, qs1) \<Rightarrow> \<exists>E. q_ivs qs1 = q_ivs qs @ E \<and> length (q_ivs qs1) + reserve \<le> k_ivs (q_caps qs) \<and>
         (\<forall>r < srows (v_base v). hitBase qs1 v r p \<longleftrightarrow> base_sat sc v g r) \<and>
         (\<forall>r < srows (v_base v). base_sat sc v g r \<longrightarrow> (\<exists>x \<in> set E. fst x \<le> r \<and> r < snd x)) \<and>
         (\<forall>r < drows (v_delta v). hitDelta qs1 v r p \<longleftrightarrow> delta_sat sc v g r))"
proof -
  obtain res where res: "plan sc v g qs reserve = Some res" "plan_ok sc v g qs reserve res"
    using plan_result [OF v room len] by blast
  show ?thesis
  proof (cases res)
    case (Inl e)
    then show ?thesis using res by (simp add: plan_ok_def)
  next
    case (Inr x)
    obtain p qs1 where x: "x = (p, qs1)" by (cases x)
    obtain qs0 E where q: "qs1 = qs0\<lparr>q_ivs := q_ivs qs @ E\<rparr>" "emitted v qs reserve E" and g: "good_plan sc v g p qs1 E"
      using res(2) unfolding Inr x plan_ok_def sum.case prod.case by blast
    have "length (q_ivs qs1) + reserve \<le> k_ivs (q_caps qs)" using q by (simp add: emitted_def)
    then show ?thesis
      using res(1) hitBase_group [OF v g] hitDelta_group [OF v g] q(1)
      unfolding Inr x base_sat_def delta_sat_def sum.case prod.case by auto
  qed
qed

text \<open>The linear probe of short windows and the binary search of long ones agree.\<close>

lemma matchOneIn_mem:
  "sorted (take (w_n w) (drop (w_off w) pool)) \<Longrightarrow> matchOneIn w pool i \<longleftrightarrow> i \<in> set (take (w_n w) (drop (w_off w) pool))"
  by (auto simp: matchOneIn_def Let_def list_ex_iff binary_search_found)

text \<open>The odometer visits every combination of candidates exactly as long as it must.\<close>

lemma expandLoop_all:
  assumes r: "\<forall>d < k. 0 < radix eq cand d" and k: "k \<le> maxDims"
    and room: "length (q_ivs qs) + odoSize eq cand k \<le> k_ivs (q_caps qs)"
  shows "\<exists>p1 E. expandLoop (odoSize eq cand k) base eq cand k (replicate maxDims 0) p qs =
      Some (Inr (p1, qs\<lparr>q_ivs := q_ivs qs @ E\<rparr>)) \<and> hull_of p p1 E \<and> length E \<le> odoSize eq cand k \<and>
    (\<forall>x. x \<in> set E \<longleftrightarrow> fst x < snd x \<and>
      (\<exists>i. odo_ok eq cand k i \<and> x = keyInterval base (comboIds qs eq cand k i)))"
proof -
  note z = odo_zero [OF k r]
  show ?thesis
    using expandLoop_spec [OF conjunct1 [OF z], of "odoSize eq cand k" qs base p] z room by simp
qed

section \<open>Rendered values\<close>

lemma view_vals_fit:
  assumes v: "view_ok sc v" and d: "d < ndims sc" and x: "x \<in> set (view_vals v ! d)"
  shows "val_fits (isInt sc d) x"
proof -
  let ?b = "s_dicts (v_base v) ! d" and ?e = "v_extras v ! d"
  have c: "comb_ok ?b ?e" and n: "numeric ?e = isInt sc d"
    using extras_okD(2,3) [OF view_okD(2) [OF v] d] by blast+
  have "x \<in> set (dict_vals ?b @ dict_vals ?e)" using x d view_ok_lengths [OF v] by (simp add: view_vals_nth)
  from comb_fits [OF c this] show ?thesis using c n by (simp add: comb_ok_def)
qed

lemma dimString_canon:
  assumes v: "view_ok sc v" and d: "d < ndims sc" and i: "unat i < length (view_vals v ! d)"
  shows "canon (isInt sc d) (dimString v d i) = Some (view_vals v ! d ! unat i)"
proof -
  have "val_fits (isInt sc d) (view_vals v ! d ! unat i)" using view_vals_fit [OF v d] i by simp
  then show ?thesis
    by (cases "view_vals v ! d ! unat i") (simp_all add: dimString_val [OF v d i] canon_def parse_format_int)
qed

end
