(* ===== verification/Crc.thy ===== *)
theory Crc
  imports Golib
begin

text \<open>
  The CRC-32C of \<open>hash/crc32\<close> (the Castagnoli table), as \<open>persist.go\<close> uses it: reflected
  polynomial, initial value and final complement all ones. The step for one byte is a bijection
  of the register and of the byte, so a change of one byte always changes the checksum.
\<close>

section \<open>The checksum\<close>

definition castagnoli :: u32 where
  "castagnoli = 0x82F63B78"

definition crc_bit :: "u32 \<Rightarrow> u32" where
  "crc_bit c = (if bit c 0 then drop_bit 1 c XOR castagnoli else drop_bit 1 c)"

definition crc_byte :: "byte \<Rightarrow> u32 \<Rightarrow> u32" where
  "crc_byte b c = (crc_bit ^^ 8) (c XOR ucast b)"

definition crc32c :: "byte list \<Rightarrow> u32" where
  "crc32c bs = NOT (fold crc_byte bs (NOT 0))"

lemma crc_byte_eval: "crc_byte b c =
  crc_bit (crc_bit (crc_bit (crc_bit (crc_bit (crc_bit (crc_bit (crc_bit (c XOR ucast b))))))))"
  by (simp add: crc_byte_def numeral_eq_Suc)

text \<open>The check value that the catalogues of CRCs give for this polynomial.\<close>

lemma crc32c_check: "crc32c (bytes_of ''123456789'') = 0xE3069283"
  by (simp add: crc32c_def bytes_of_def crc_byte_eval crc_bit_def castagnoli_def)

section \<open>One byte at a time\<close>

lemma xor_cancel: "c XOR w = d XOR w \<longleftrightarrow> c = d" "w XOR c = w XOR d \<longleftrightarrow> c = d" for c d w :: u32
proof -
  have *: "(a XOR w) XOR w = a" for a by (simp add: xor.assoc)
  show r: "c XOR w = d XOR w \<longleftrightarrow> c = d" by (metis *)
  show "w XOR c = w XOR d \<longleftrightarrow> c = d" using r by (simp add: xor.commute)
qed

lemma bit_castagnoli_31: "bit castagnoli 31"
  by (simp add: castagnoli_def)

lemma crc_bit_31: "bit (crc_bit c) 31 \<longleftrightarrow> bit c 0"
proof -
  have "\<not> bit c (Suc 31)" by (auto dest: bit_imp_le_length)
  then show ?thesis using bit_castagnoli_31 by (simp add: crc_bit_def bit_xor_iff bit_drop_bit_eq)
qed

lemma inj_crc_bit: "inj crc_bit"
proof (rule injI)
  fix a b assume e: "crc_bit a = crc_bit b"
  then have z: "bit a 0 \<longleftrightarrow> bit b 0" using crc_bit_31 [of a] crc_bit_31 [of b] by simp
  have d: "drop_bit 1 a = drop_bit 1 b"
    using e z by (simp add: crc_bit_def xor_cancel split: if_splits)
  show "a = b"
  proof (rule bit_word_eqI)
    fix n show "bit a n \<longleftrightarrow> bit b n"
      using z arg_cong [OF d, of "\<lambda>w. bit w (n - 1)"] by (cases n) (simp_all add: bit_drop_bit_eq)
  qed
qed

lemma inj_crc_bits: "inj (crc_bit ^^ n)"
proof (induction n)
  case (Suc n)
  then show ?case using inj_compose [OF inj_crc_bit] by (simp only: funpow.simps)
qed simp

lemma is_up_u8: "is_up (ucast :: byte \<Rightarrow> u32)"
  by (simp add: is_up)

lemma crc_byte_inject:
  "crc_byte b c = crc_byte b d \<longleftrightarrow> c = d" "crc_byte a c = crc_byte b c \<longleftrightarrow> a = b"
proof -
  show "crc_byte b c = crc_byte b d \<longleftrightarrow> c = d"
    by (simp add: crc_byte_def inj_eq [OF inj_crc_bits] xor_cancel)
  have "ucast a = (ucast b :: u32) \<longleftrightarrow> a = b" by (metis ucast_up_ucast_id is_up_u8)
  then show "crc_byte a c = crc_byte b c \<longleftrightarrow> a = b"
    by (simp add: crc_byte_def inj_eq [OF inj_crc_bits] xor_cancel)
qed

lemma fold_crc_inject: "fold crc_byte bs c = fold crc_byte bs d \<longleftrightarrow> c = d"
  by (induction bs arbitrary: c d) (simp_all add: crc_byte_inject)

text \<open>No single wrong byte goes unnoticed.\<close>

lemma crc32c_one_byte:
  assumes "i < length bs" "b \<noteq> bs ! i"
  shows "crc32c (bs[i := b]) \<noteq> crc32c bs"
proof -
  have "fold crc_byte (bs[i := b]) c \<noteq> fold crc_byte bs c" for c
  proof -
    have s: "bs = take i bs @ bs ! i # drop (Suc i) bs" using assms(1) by (simp add: id_take_nth_drop)
    have u: "bs[i := b] = take i bs @ b # drop (Suc i) bs" using assms(1) by (simp add: upd_conv_take_nth_drop)
    show ?thesis
      using assms(2) arg_cong [OF s, of "\<lambda>xs. fold crc_byte xs c"] unfolding u
      by (simp add: fold_crc_inject crc_byte_inject)
  qed
  then show ?thesis by (simp add: crc32c_def)
qed

end
