(* ===== verification/Persist.thy ===== *)
theory Persist
  imports Store Crc "HOL-Library.Monad_Syntax"
begin

text \<open>
  \<open>persist.go\<close>: the file format of a base snapshot, the writer with its temporary file and
  rename, the reader with its validation, and \<open>SaveSnapshot\<close> and \<open>LoadSnapshot\<close>. A file
  system is a map from names to contents.
\<close>

section \<open>The file format\<close>

definition snapMagic :: string where "snapMagic = ''FCSNAP01''"
definition snapVersion :: u32 where "snapVersion = 2"

definition put_i64 :: "i64 \<Rightarrow> byte list" where
  "put_i64 v = le64 (word_of_int v)"

text \<open>One dictionary: its length, then each entry with its length, integers rendered.\<close>

definition put_entry :: "string \<Rightarrow> byte list" where
  "put_entry s = le32 (of_nat (length s)) @ bytes_of s"

definition put_dict :: "dict \<Rightarrow> byte list" where
  "put_dict d = le32 (of_nat (dlen d)) @ concat (map (\<lambda>i. put_entry (dict_str d (of_nat i))) [0..<dlen d])"

definition put_col :: "('a \<Rightarrow> byte list) \<Rightarrow> 'a list \<Rightarrow> byte list" where
  "put_col enc col = concat (map enc col)"

text \<open>What goes through the hashing writer.\<close>

definition payload :: "schema \<Rightarrow> snapshot \<Rightarrow> byte list" where
  "payload sc s =
     bytes_of snapMagic @ le32 snapVersion @ le64 (fingerprint sc) @ put_i64 (s_maxUpdated s) @
     le64 (of_nat (srows s)) @
     concat (map put_dict (s_dicts s)) @ concat (map (put_col le32) (s_dims s)) @
     concat (map (put_col le64) (s_mets s)) @ put_col put_i64 (s_updated s) @ put_col put_i64 (s_expire s)"

definition file_of :: "byte list \<Rightarrow> byte list" where
  "file_of body = body @ le32 (crc32c body)"

section \<open>The writer\<close>

type_synonym fs = "string \<rightharpoonup> byte list"

text \<open>
  What the operating system answers: the name that \<open>CreateTemp\<close> picks, the number of bytes
  after which a write fails, if it does, and which of the other calls succeed.
\<close>

record io =
  io_tmp :: string
  io_create :: bool
  io_flush :: "nat option"
  io_tail :: "nat option"
  io_sync :: bool
  io_close :: bool
  io_rename :: bool
  io_remove :: bool

text \<open>The states of the temporary file while bytes of \<open>bs\<close> reach it after \<open>pre\<close>, in any chunks.\<close>

definition writing :: "fs \<Rightarrow> string \<Rightarrow> byte list \<Rightarrow> byte list \<Rightarrow> nat \<Rightarrow> fs list" where
  "writing fs0 tmp pre bs n = map (\<lambda>k. fs0(tmp \<mapsto> pre @ take k bs)) [0..<Suc n]"

definition sent :: "nat option \<Rightarrow> byte list \<Rightarrow> nat" where
  "sent fail bs = (case fail of None \<Rightarrow> length bs | Some n \<Rightarrow> min n (length bs))"

text \<open>
  The result is the error and every state the file system passes through, in order. The
  deferred function removes the temporary file when an error is returned.
\<close>

definition writeSnapshotFile :: "io \<Rightarrow> string \<Rightarrow> schema \<Rightarrow> snapshot \<Rightarrow> fs \<Rightarrow> err option \<times> fs list" where
  "writeSnapshotFile io path sc snap fs0 =
     (if \<not> io_create io then (Some ErrIO, [fs0])
      else
        let tmp = io_tmp io;
            fail = (\<lambda>tr. (Some ErrIO, tr @ [if io_remove io then (last tr)(tmp := None) else last tr]));
            body = payload sc snap;
            tr1 = fs0 # writing fs0 tmp [] body (sent (io_flush io) body)
        in if io_flush io \<noteq> None then fail tr1
           else
             let tail = le32 (crc32c body);
                 tr2 = tr1 @ writing fs0 tmp body tail (sent (io_tail io) tail)
             in if io_tail io \<noteq> None then fail tr2
                else if \<not> io_sync io then fail tr2
                else if \<not> io_close io then fail tr2
                else if \<not> io_rename io then fail tr2
                else (None, tr2 @ [(last tr2)(tmp := None, path := last tr2 tmp)]))"

definition SaveSnapshot :: "io \<Rightarrow> string \<Rightarrow> store \<Rightarrow> fs \<Rightarrow> err option \<times> store \<times> fs list" where
  "SaveSnapshot io path s fs0 =
     (case writeSnapshotFile io path (sto_sc s) (v_base (sto_view s)) fs0 of
        (Some e, tr) \<Rightarrow>
          (Some e, s\<lparr>sto_st := (sto_st s)\<lparr>snapshotSaveFailures := snapshotSaveFailures (sto_st s) + 1\<rparr>\<rparr>, tr)
      | (None, tr) \<Rightarrow> (None, s\<lparr>sto_st := (sto_st s)\<lparr>snapshotSaves := snapshotSaves (sto_st s) + 1\<rparr>\<rparr>, tr))"

section \<open>The reader\<close>

text \<open>
  The closures over the cursor, with the rest of the body in its place: \<open>None\<close> is \<open>!ok\<close>, on
  which every caller returns \<open>errSnapshotFormat\<close>.
\<close>

definition rd :: "nat \<Rightarrow> byte list \<Rightarrow> (byte list \<times> byte list) option" where
  "rd n bs = (if n > length bs then None else Some (take n bs, drop n bs))"

definition rdU32 :: "byte list \<Rightarrow> (u32 \<times> byte list) option" where
  "rdU32 bs = map_option (\<lambda>(b, r). (un_le32 b, r)) (rd 4 bs)"

definition rdU64 :: "byte list \<Rightarrow> (u64 \<times> byte list) option" where
  "rdU64 bs = map_option (\<lambda>(b, r). (un_le64 b, r)) (rd 8 bs)"

definition rdI64 :: "byte list \<Rightarrow> (i64 \<times> byte list) option" where
  "rdI64 bs = map_option (\<lambda>(w, r). (sint w, r)) (rdU64 bs)"

text \<open>\<open>for r := range n\<close> over one reading function.\<close>

fun rdMany :: "(byte list \<Rightarrow> ('a \<times> byte list) option) \<Rightarrow> nat \<Rightarrow> byte list \<Rightarrow> ('a list \<times> byte list) option" where
  "rdMany dec 0 bs = Some ([], bs)"
| "rdMany dec (Suc n) bs =
     do { (x, r) \<leftarrow> dec bs; (xs, r') \<leftarrow> rdMany dec n r; Some (x # xs, r') }"

definition check :: "bool \<Rightarrow> unit option" where
  "check b = (if b then Some () else None)"

text \<open>One dictionary entry, interned.\<close>

definition rdEntry :: "bool \<Rightarrow> dict \<Rightarrow> byte list \<Rightarrow> (dict \<times> byte list) option" where
  "rdEntry isnum d bs =
     do { (sl, r) \<leftarrow> rdU32 bs;
          (sb, r') \<leftarrow> rd (unat sl) r;
          if isnum then
            do { v \<leftarrow> parse_int (string_of sb); Some (snd (getOrAddN d v), r') }
          else Some (snd (getOrAdd d (string_of sb)), r') }"

fun rdEntries :: "bool \<Rightarrow> nat \<Rightarrow> dict \<Rightarrow> byte list \<Rightarrow> (dict \<times> byte list) option" where
  "rdEntries isnum 0 d bs = Some (d, bs)"
| "rdEntries isnum (Suc n) d bs = do { (d', r) \<leftarrow> rdEntry isnum d bs; rdEntries isnum n d' r }"

definition rdDict :: "bool \<Rightarrow> byte list \<Rightarrow> (dict \<times> byte list) option" where
  "rdDict isnum bs =
     do { (cnt, r) \<leftarrow> rdU32 bs;
          (d, r') \<leftarrow> rdEntries isnum (unat cnt) (newDict isnum) r;
          check (dlen d = unat cnt);
          Some (d, r') }"

fun rdDicts :: "schema \<Rightarrow> nat list \<Rightarrow> byte list \<Rightarrow> (dict list \<times> byte list) option" where
  "rdDicts sc [] bs = Some ([], bs)"
| "rdDicts sc (d # ds) bs =
     do { (x, r) \<leftarrow> rdDict (isInt sc d) bs; (xs, r') \<leftarrow> rdDicts sc ds r; Some (x # xs, r') }"

text \<open>An id, below the cardinality of its dimension.\<close>

definition rdId :: "nat \<Rightarrow> byte list \<Rightarrow> (u32 \<times> byte list) option" where
  "rdId cd bs = do { (v, r) \<leftarrow> rdU32 bs; check (unat v < cd); Some (v, r) }"

fun rdDims :: "nat \<Rightarrow> nat list \<Rightarrow> byte list \<Rightarrow> (u32 list list \<times> byte list) option" where
  "rdDims n [] bs = Some ([], bs)"
| "rdDims n (cd # cards) bs =
     do { (x, r) \<leftarrow> rdMany (rdId cd) n bs; (xs, r') \<leftarrow> rdDims n cards r; Some (x # xs, r') }"

text \<open>Up to the staleness check, which comes before the rest is read.\<close>

definition rdHeader :: "schema \<Rightarrow> byte list \<Rightarrow> (i64 \<times> byte list) option" where
  "rdHeader sc body =
     do { (m, r1) \<leftarrow> rd (length snapMagic) body;
          check (string_of m = snapMagic);
          (v, r2) \<leftarrow> rdU32 r1;
          check (v = snapVersion);
          (fp, r3) \<leftarrow> rdU64 r2;
          check (fp = fingerprint sc);
          rdI64 r3 }"

text \<open>The keys, recomputed; the loop rejects the first descent.\<close>

definition rdKeys :: "schema \<Rightarrow> nat list \<Rightarrow> u32 list list \<Rightarrow> nat \<Rightarrow> u64 list option" where
  "rdKeys sc shifts dims n =
     (let keys = map (\<lambda>r. packKey shifts (map (\<lambda>i. dims ! i ! r) [0..<idx_dims sc])) [0..<n]
      in do { check (list_all (\<lambda>r. \<not> (r > 0 \<and> keys ! (r - 1) > keys ! r)) [0..<n]); Some keys })"

definition rdTable :: "schema \<Rightarrow> i64 \<Rightarrow> nat \<Rightarrow> byte list \<Rightarrow> snapshot option" where
  "rdTable sc maxU blen bs =
     do { (rowsU, b0) \<leftarrow> rdU64 bs;
          let n = unat rowsU;
          check (\<not> n > blen);
          (dicts, b1) \<leftarrow> rdDicts sc [0..<ndims sc] b0;
          let cards = map dlen dicts;
          (dims, b2) \<leftarrow> rdDims n cards b1;
          (mets, b3) \<leftarrow> rdMany (rdMany rdU64 n) (nmets sc) b2;
          (upd, b4) \<leftarrow> rdMany rdI64 n b3;
          let gotMax = fold (\<lambda>u m. if u > m then u else m) upd 0;
          (exp, b5) \<leftarrow> rdMany rdI64 n b4;
          let mins = fold (\<lambda>(u, e) s. trackMin s u e) (zip upd exp) (emptySnapshot sc);
          check (\<not> (b5 \<noteq> [] \<or> n > 0 \<and> gotMax \<noteq> maxU));
          case computeShifts cards (idx_dims sc) of
            Inl e \<Rightarrow> None
          | Inr shifts \<Rightarrow>
              do { keys \<leftarrow> rdKeys sc shifts dims n;
                   Some \<lparr>s_sc = sc, s_dicts = dicts, s_dims = dims, s_mets = mets, s_updated = upd, s_expire = exp,
                     s_keys = keys, s_shifts = shifts, s_maxUpdated = maxU,
                     s_minUpdated = s_minUpdated mins, s_minExpire = s_minExpire mins\<rparr> } }"

text \<open>\<open>file\<close> is what \<open>os.ReadFile\<close> returns, \<open>None\<close> where it fails.\<close>

definition readSnapshotFile :: "schema \<Rightarrow> i64 \<Rightarrow> byte list option \<Rightarrow> err + snapshot" where
  "readSnapshotFile sc ttl file =
     (case file of
        None \<Rightarrow> Inl ErrIO
      | Some data \<Rightarrow>
          if length data < length snapMagic + 4 + 8 + 8 + 8 + 4 then Inl ErrSnapshotFormat
          else
            let body = take (length data - 4) data; tail = drop (length data - 4) data
            in if crc32c body \<noteq> un_le32 tail then Inl ErrSnapshotFormat
               else (case rdHeader sc body of
                       None \<Rightarrow> Inl ErrSnapshotFormat
                     | Some (maxU, r) \<Rightarrow>
                         if ttl > 0 \<and> maxU < ttl then Inl ErrSnapshotStale
                         else (case rdTable sc maxU (length body) r of
                                 None \<Rightarrow> Inl ErrSnapshotFormat
                               | Some snap \<Rightarrow> Inr snap)))"

definition LoadSnapshot :: "store \<Rightarrow> instant \<Rightarrow> byte list option \<Rightarrow> err option \<times> store" where
  "LoadSnapshot s t file =
     (case readSnapshotFile (sto_sc s) (ttlCutoff s t) file of
        Inl e \<Rightarrow> (Some e, s)
      | Inr snap \<Rightarrow>
          if overCap (sto_cfg s) (srows snap)
          then (Some (ErrRowLimit (srows snap) (MaxRows (sto_cfg s))), s)
          else (None, s\<lparr>sto_view := newView snap, sto_capBlocked := False\<rparr>))"

end
