(* ===== verification/PersistSound.thy ===== *)
theory PersistSound
  imports Persist
begin

text \<open>
  The snapshot file: what the writer writes the reader reads back, whatever the reader accepts
  satisfies the invariant of a base but for two checks it does not make, a single wrong byte is
  rejected, and the file at the path is at every moment the old one or the complete new one.
\<close>

section \<open>Codecs\<close>

text \<open>
  An encoding with a reading function that takes it off the front of the input. The locale is
  the interface of the columns: a codec of a value gives one of a column of values.
\<close>

locale codec =
  fixes enc :: "'a \<Rightarrow> byte list" and dec :: "byte list \<Rightarrow> ('a \<times> byte list) option" and ok :: "'a \<Rightarrow> bool"
  assumes dec_enc: "ok x \<Longrightarrow> dec (enc x @ r) = Some (x, r)"
    and dec_ok: "dec bs = Some (x, r) \<Longrightarrow> ok x"
begin

lemma many_enc:
  "\<forall>x \<in> set xs. ok x \<Longrightarrow> rdMany dec (length xs) (put_col enc xs @ r) = Some (xs, r)"
  by (induction xs) (auto simp: put_col_def dec_enc)

lemma many_ok: "rdMany dec n bs = Some (xs, r) \<Longrightarrow> length xs = n \<and> (\<forall>x \<in> set xs. ok x)"
  by (induction n arbitrary: bs xs r) (auto simp: bind_eq_Some_conv dest: dec_ok)

lemma column: "codec (put_col enc) (rdMany dec n) (\<lambda>xs. length xs = n \<and> (\<forall>x \<in> set xs. ok x))"
  by unfold_locales (use many_enc many_ok in auto)

end

lemma rd_append: "length x = n \<Longrightarrow> rd n (x @ r) = Some (x, r)"
  by (simp add: rd_def)

lemma rdU32_le32 [simp]: "rdU32 (le32 w @ r) = Some (w, r)"
  by (simp add: rdU32_def rd_append)

lemma rdU64_le64 [simp]: "rdU64 (le64 w @ r) = Some (w, r)"
  by (simp add: rdU64_def rd_append)

lemma sint_i64: "i64_ok v \<Longrightarrow> sint (word_of_int v :: u64) = v"
  using wrap64_id [of v] by (simp add: wrap64_def sint_sbintrunc')

lemma i64_ok_sint: "i64_ok (sint (w :: u64))"
  using sint_ge [of w] sint_lt [of w] by (simp add: i64_ok_def)

interpretation id_codec: codec le32 "rdId n" "\<lambda>i. unat i < n" for n
  by unfold_locales (auto simp: rdId_def check_def bind_eq_Some_conv split: if_splits)

interpretation metric_codec: codec le64 rdU64 "\<lambda>_. True"
  by unfold_locales simp_all

interpretation time_codec: codec put_i64 rdI64 i64_ok
proof unfold_locales
  fix x r assume "i64_ok x"
  then show "rdI64 (put_i64 x @ r) = Some (x, r)" by (simp add: rdI64_def put_i64_def sint_i64)
next
  fix bs x r assume "rdI64 bs = Some (x, r)"
  then show "i64_ok x" by (auto simp: rdI64_def i64_ok_sint)
qed

interpretation metric_column: codec "put_col le64" "rdMany rdU64 n" "\<lambda>xs. length xs = n \<and> (\<forall>x \<in> set xs. True)" for n
  by (rule metric_codec.column)

section \<open>Dictionaries\<close>

lemma format_uint_length: "0 \<le> n \<Longrightarrow> n < 10 ^ Suc k \<Longrightarrow> length (format_uint n) \<le> Suc k"
proof (induction k arbitrary: n)
  case 0
  then show ?case by (simp add: format_uint.simps [of n])
next
  case (Suc k)
  then have "n div 10 < 10 ^ Suc k" by (simp add: div_less_iff_less_mult)
  with Suc show ?case by (subst format_uint.simps) simp
qed

lemma format_int_length: "i64_ok v \<Longrightarrow> length (format_int v) \<le> 20"
  using format_uint_length [of "\<bar>v\<bar>" 18]
  by (auto simp: format_int_def i64_ok_def abs_if split: if_splits)

lemma dict_eqI:
  assumes a: "dict_ok a" and b: "dict_ok b" and "numeric a = numeric b" and v: "dict_vals a = dict_vals b"
  shows "a = b"
proof -
  have f: "dict_find a x = dict_find b x" for x
    using dict_okD(2) [OF a, of x] dict_okD(2) [OF b, of x] v
    by (cases "dict_find a x"; cases "dict_find b x") (auto simp flip: length_dict_vals)
  have sub: "inj VInt" "inj VStr" by (simp_all add: inj_def)
  show ?thesis
  proof (cases "numeric a")
    case True
    have "idsN a = idsN b" using f [of "VInt _"] True assms(3) by (auto simp: fun_eq_iff)
    then show ?thesis using True assms sub by (auto simp: dict_ok_def dict_vals_def inj_map_eq_map)
  next
    case False
    have "ids a = ids b" using f [of "VStr _"] False assms(3) by (auto simp: fun_eq_iff)
    then show ?thesis using False assms sub by (auto simp: dict_ok_def dict_vals_def inj_map_eq_map)
  qed
qed

lemma add_all_new:
  assumes "dict_ok d" "\<forall>x \<in> set xs. val_fits (numeric d) x" "dlen d + length xs < 2 ^ 32"
    and "distinct (dict_vals d @ xs)"
  shows "dict_ok (snd (dict_intern.add_all d xs)) \<and> numeric (snd (dict_intern.add_all d xs)) = numeric d \<and>
    dict_vals (snd (dict_intern.add_all d xs)) = dict_vals d @ xs"
  using assms
proof (induction xs arbitrary: d)
  case (Cons x xs)
  have n: "dict_find d x = None" using Cons.prems(1,4) by (simp add: dict_find_None)
  have fx: "val_fits (numeric d) x" using Cons.prems(2) by simp
  note new = dict_add_new [OF n fx]
  have "dict_ok (snd (dict_add d x))" using Cons.prems(3) by (intro dict_ok_add_new [OF Cons.prems(1) n fx]) simp
  then show ?case
    using Cons.IH [of "snd (dict_add d x)"] Cons.prems new by (simp add: split_def Let_def)
qed simp

lemma add_all_self:
  assumes "dict_ok d" "dlen d < 2 ^ 32"
  shows "snd (dict_intern.add_all (newDict (numeric d)) (dict_vals d)) = d"
  using add_all_new [of "newDict (numeric d)" "dict_vals d"] assms dict_distinct [OF assms(1)]
  by (intro dict_eqI) (simp_all add: dict_okD(3))

lemma rdEntry_put:
  assumes "canon b s = Some x" "length s < 2 ^ 32"
  shows "rdEntry b d (put_entry s @ r) = Some (snd (dict_add d x), r)"
proof -
  have "unat (of_nat (length s) :: u32) = length s" using assms(2) by (rule unat_of_nat_u32)
  then have "rd (unat (of_nat (length s) :: u32)) (bytes_of s @ r) = Some (bytes_of s, r)" by (simp add: rd_append)
  then show ?thesis
    using assms(1) by (auto simp: rdEntry_def put_entry_def dict_add_def canon_def split: if_splits)
qed

lemma rdEntries_put:
  assumes "list_all2 (\<lambda>s x. canon b s = Some x \<and> length s < 2 ^ 32) ss xs"
  shows "rdEntries b (length xs) d (concat (map put_entry ss) @ r) = Some (snd (dict_intern.add_all d xs), r)"
  using assms
proof (induction arbitrary: d rule: list_all2_induct)
  case (Cons s ss x xs)
  then show ?case by (simp add: rdEntry_put split_def Let_def)
qed simp

text \<open>
  What a file can hold: lengths that fit \<open>uint32\<close>. An integer has more than one spelling that
  the reader takes; \<open>spells\<close> says that a list of strings spells the values of a dictionary,
  and the writer writes the renderings.
\<close>

definition dict_storable :: "dict \<Rightarrow> bool" where
  "dict_storable d \<longleftrightarrow> dlen d < 2 ^ 32 \<and> (\<forall>s \<in> set (strs d). length s < 2 ^ 32)"

definition spells :: "dict \<Rightarrow> string list \<Rightarrow> bool" where
  "spells d ss \<longleftrightarrow> list_all2 (\<lambda>s x. canon (numeric d) s = Some x \<and> length s < 2 ^ 32) ss (dict_vals d)"

definition put_strings :: "string list \<Rightarrow> byte list" where
  "put_strings ss = le32 (of_nat (length ss)) @ concat (map put_entry ss)"

definition renderings :: "dict \<Rightarrow> string list" where
  "renderings d = map (\<lambda>i. dict_str d (of_nat i)) [0..<dlen d]"

lemma put_dict_strings: "put_dict d = put_strings (renderings d)"
  by (simp add: put_dict_def put_strings_def renderings_def comp_def)

lemma rdDict_put:
  assumes d: "dict_ok d" "dlen d < 2 ^ 32" and s: "spells d ss"
  shows "rdDict (numeric d) (put_strings ss @ r) = Some (d, r)"
proof -
  have l: "length ss = dlen d" using list_all2_lengthD [OF s [unfolded spells_def]] by simp
  have "unat (of_nat (dlen d) :: u32) = dlen d" using d(2) by (rule unat_of_nat_u32)
  moreover have "rdEntries (numeric d) (dlen d) (newDict (numeric d)) (concat (map put_entry ss) @ r) = Some (d, r)"
    using rdEntries_put [OF s [unfolded spells_def], of "newDict (numeric d)" r] by (simp add: add_all_self [OF d])
  ultimately show ?thesis by (simp add: rdDict_def put_strings_def l check_def)
qed

lemma spells_renderings:
  assumes d: "dict_ok d" and s: "dict_storable d"
  shows "spells d (renderings d)"
proof -
  have len: "dlen d < 2 ^ 32" using s by (simp add: dict_storable_def)
  have u: "unat (of_nat i :: u32) = i" if "i \<le> dlen d" for i using len that by (intro unat_of_nat_u32) simp
  have "length (dict_str d (of_nat i)) < 2 ^ 32" if "i < dlen d" for i
  proof (cases "numeric d")
    case True
    then have "i64_ok (vals d ! i)" using dict_okD(3) [OF d, of "VInt (vals d ! i)"] that by (simp add: dict_vals_def dlen_def)
    from format_int_length [OF this] show ?thesis using True u that by (simp add: dict_str_def)
  next
    case False
    then show ?thesis using s u that by (simp add: dict_str_def dict_storable_def dlen_def)
  qed
  then show ?thesis using dict_vals_str [OF d] u by (auto simp: spells_def renderings_def list_all2_conv_all_nth)
qed

lemma rdEntry_add:
  assumes "rdEntry b d bs = Some (d', r)"
  shows "\<exists>x. val_fits b x \<and> d' = snd (dict_add d x)"
proof (cases b)
  case True
  obtain t v where v: "parse_int t = Some v" "d' = snd (getOrAddN d v)"
    using assms True by (auto simp: rdEntry_def bind_eq_Some_conv)
  then show ?thesis using True parse_int_ok by (intro exI [of _ "VInt v"]) (auto simp: dict_add_def)
next
  case False
  then obtain t where "d' = snd (getOrAdd d t)"
    using assms by (auto simp: rdEntry_def bind_eq_Some_conv)
  then show ?thesis using False by (intro exI [of _ "VStr t"]) (auto simp: dict_add_def)
qed

lemma rdEntries_ok:
  assumes "rdEntries b n d bs = Some (d', r)" "dict_ok d" "numeric d = b" "dlen d + n < 2 ^ 32"
  shows "dict_ok d' \<and> numeric d' = b"
  using assms
proof (induction n arbitrary: d bs)
  case (Suc n)
  then obtain d1 r1 where one: "rdEntry b d bs = Some (d1, r1)" and rest: "rdEntries b n d1 r1 = Some (d', r)"
    by (auto simp: bind_eq_Some_conv)
  obtain x where x: "val_fits b x" "d1 = snd (dict_add d x)" using rdEntry_add [OF one] by blast
  obtain i where i: "dict_add d x = (i, d1)" using x(2) by (cases "dict_add d x") simp
  have f: "val_fits (numeric d) x" "dlen d < 2 ^ 32" using x Suc.prems by simp_all
  note spec = dict_add_spec [OF Suc.prems(2) f i]
  have "dlen d1 \<le> Suc (dlen d)" using spec(4) by (auto simp flip: length_dict_vals)
  then show ?case using Suc.IH [OF rest] spec(1,2) Suc.prems(3,4) by simp
qed simp

lemma rdDict_ok:
  assumes "rdDict b bs = Some (d, r)"
  shows "dict_ok d \<and> numeric d = b \<and> dlen d < 2 ^ 32"
proof -
  obtain c r1 where "rdEntries b (unat c) (newDict b) r1 = Some (d, r)" "dlen d = unat (c :: u32)"
    using assms by (auto simp: rdDict_def bind_eq_Some_conv check_def split: if_splits)
  with rdEntries_ok [of b "unat c" "newDict b" r1 d r] unat_u32_less [of c] show ?thesis by simp
qed


section \<open>Lists of dictionaries and of id columns\<close>

lemma rdDicts_put:
  assumes "list_all2 (\<lambda>i d. dict_ok d \<and> numeric d = isInt sc i \<and> dlen d < 2 ^ 32) is ds" "list_all2 spells ds sss"
  shows "rdDicts sc is (concat (map put_strings sss) @ r) = Some (ds, r)"
  using assms
proof (induction arbitrary: sss rule: list_all2_induct)
  case (Cons i "is" d ds)
  obtain ss tss where s: "sss = ss # tss" "spells d ss" "list_all2 spells ds tss"
    using Cons.prems by (auto simp: list_all2_Cons1)
  then have "rdDict (isInt sc i) (put_strings ss @ x) = Some (d, x)" for x
    using Cons.hyps rdDict_put [of d ss x] by simp
  then show ?case using Cons.IH [OF s(3)] s(1) by simp
qed simp

lemma rdDicts_ok:
  "rdDicts sc is bs = Some (ds, r) \<Longrightarrow>
   list_all2 (\<lambda>i d. dict_ok d \<and> numeric d = isInt sc i \<and> dlen d < 2 ^ 32) is ds"
  by (induction "is" arbitrary: bs ds r) (auto simp: bind_eq_Some_conv dest: rdDict_ok)

lemma rdDims_put:
  assumes "list_all2 (\<lambda>c col. length col = n \<and> (\<forall>i \<in> set col. unat i < c)) cards cols"
  shows "rdDims n cards (concat (map (put_col le32) cols) @ r) = Some (cols, r)"
  using assms
proof (induction rule: list_all2_induct)
  case (Cons c cs col cols)
  then show ?case using id_codec.many_enc [of col c] by auto
qed simp

lemma rdDims_ok:
  "rdDims n cards bs = Some (cols, r) \<Longrightarrow>
   list_all2 (\<lambda>c col. length col = n \<and> (\<forall>i \<in> set col. unat i < c)) cards cols"
  by (induction cards arbitrary: bs cols r) (auto simp: bind_eq_Some_conv dest: id_codec.many_ok)

section \<open>What the reader establishes\<close>

text \<open>
  The invariant of a base without what the reader does not check: that no two rows carry the
  same tuple, and that the sync position of an empty file is zero.
\<close>

definition readable :: "schema \<Rightarrow> snapshot \<Rightarrow> bool" where
  "readable sc s \<longleftrightarrow>
     s_sc s = sc \<and> dicts_ok sc (s_dicts s) \<and> (\<forall>d \<in> set (s_dicts s). dlen d < 2 ^ 32) \<and>
     list_all2 (\<lambda>d col. length col = srows s \<and> (\<forall>i \<in> set col. unat i < dlen d)) (s_dicts s) (s_dims s) \<and>
     length (s_mets s) = nmets sc \<and> cols_len (s_mets s) (srows s) \<and> length (s_expire s) = srows s \<and>
     (\<forall>u \<in> set (s_updated s). i64_ok u) \<and> (\<forall>e \<in> set (s_expire s). i64_ok e) \<and> i64_ok (s_maxUpdated s) \<and>
     computeShifts (map dlen (s_dicts s)) (idx_dims sc) = Inr (s_shifts s) \<and>
     s_keys s = map (\<lambda>r. packKey (s_shifts s) (map (\<lambda>i. s_dims s ! i ! r) [0..<idx_dims sc])) [0..<srows s] \<and>
     sorted (s_keys s) \<and>
     (0 < srows s \<longrightarrow> s_maxUpdated s = fold max (s_updated s) 0) \<and>
     s_minUpdated s = fold min_upd_step (s_updated s) 0 \<and>
     s_minExpire s = fold min_exp_step (s_expire s) 0"

lemma readable_rows:
  assumes "length ds = ndims sc"
  shows "list_all2 (\<lambda>d col. length col = n \<and> (\<forall>i \<in> set col. unat i < dlen d)) ds cols \<longleftrightarrow>
    length cols = ndims sc \<and> cols_len cols n \<and> (\<forall>r < n. ids_ok (map dict_vals ds) (row_of cols r))"
    (is "?l \<longleftrightarrow> ?r")
proof
  assume l: ?l
  then have k: "length cols = ndims sc" "cols_len cols n" using assms
    by (auto simp: cols_len_def list_all2_conv_all_nth in_set_conv_nth)
  have "ids_ok (map dict_vals ds) (row_of cols r)" if r: "r < n" for r
    using l k r assms by (intro ids_okI) (auto simp: list_all2_conv_all_nth)
  with k show ?r by blast
next
  assume r: ?r
  have "unat (cols ! d ! i) < dlen (ds ! d)" if "d < length ds" "i < n" for d i
    using ids_okD(2) [of "map dict_vals ds" "row_of cols i" d] r that assms by simp
  with r assms show ?l by (auto simp: list_all2_conv_all_nth cols_lenD in_set_conv_nth)
qed

lemma packed_prefix:
  "k \<le> length dims \<Longrightarrow> take k (row_of dims r) = map (\<lambda>i. dims ! i ! r) [0..<k]"
  by (intro nth_equalityI) simp_all

text \<open>The two checks that are missing, exactly.\<close>

lemma fold_max_i64: "(\<forall>u \<in> set us. i64_ok u) \<Longrightarrow> i64_ok m \<Longrightarrow> i64_ok (fold max us m)"
  by (induction us arbitrary: m) (auto simp: max_def)

lemma snap_ok_readable:
  assumes sc: "schema_ok sc"
  shows "snap_ok sc s \<and> (\<forall>d \<in> set (s_dicts s). dlen d < 2 ^ 32) \<longleftrightarrow>
    readable sc s \<and> distinct (map (row_of (s_dims s)) [0..<srows s]) \<and> (srows s = 0 \<longrightarrow> s_maxUpdated s = 0)"
proof -
  have k: "idx_dims sc \<le> ndims sc" using sc by (auto dest: schema_okD)
  have rows: "rows_ok sc (snap_vals s) (s_dims s) (s_mets s) (s_updated s) (s_expire s) \<longleftrightarrow>
    list_all2 (\<lambda>d col. length col = srows s \<and> (\<forall>i \<in> set col. unat i < dlen d)) (s_dicts s) (s_dims s) \<and>
    length (s_mets s) = nmets sc \<and> cols_len (s_mets s) (srows s) \<and> length (s_expire s) = srows s \<and>
    (\<forall>u \<in> set (s_updated s). i64_ok u) \<and> (\<forall>e \<in> set (s_expire s). i64_ok e) \<and>
    distinct (map (row_of (s_dims s)) [0..<srows s])" if "length (s_dicts s) = ndims sc"
    unfolding readable_rows [OF that] rows_ok_def snap_vals_def srows_def by blast
  have keys: "take (idx_dims sc) (row_of (s_dims s) r) = map (\<lambda>i. s_dims s ! i ! r) [0..<idx_dims sc]"
    if "length (s_dims s) = ndims sc" for r
    using k that by (intro packed_prefix) simp
  have z: "srows s = 0 \<Longrightarrow> fold max (s_updated s) 0 = 0" by (simp add: srows_def)
  have m: "(\<forall>u \<in> set (s_updated s). i64_ok u) \<Longrightarrow> i64_ok (fold max (s_updated s) 0)"
    by (rule fold_max_i64) (simp_all add: i64_ok_def)
  show ?thesis
  proof (cases "dicts_ok sc (s_dicts s) \<and> length (s_dims s) = ndims sc \<and> s_sc s = sc")
    case True
    with sc z m show ?thesis
      by (cases "srows s = 0") (auto simp: snap_ok_def readable_def rows dicts_okD(1) keys_ok_def keys minmax_ok_def)
  next
    case False
    then have "\<not> snap_ok sc s" by (auto dest: snap_okD(2,3) rows_okD(1) [OF snap_okD(4)])
    moreover have "\<not> readable sc s"
    proof
      assume r: "readable sc s"
      then have "length (s_dicts s) = length (s_dims s)" unfolding readable_def by (blast dest: list_all2_lengthD)
      with r False show False by (auto simp: readable_def dicts_okD(1))
    qed
    ultimately show ?thesis by blast
  qed
qed

lemma trackMin_fold:
  assumes "length upd = length exp"
  shows "s_minUpdated (fold (\<lambda>(u, e) s. trackMin s u e) (zip upd exp) s) = fold min_upd_step upd (s_minUpdated s) \<and>
    s_minExpire (fold (\<lambda>(u, e) s. trackMin s u e) (zip upd exp) s) = fold min_exp_step exp (s_minExpire s)"
  using assms by (induction upd exp arbitrary: s rule: list_induct2) simp_all

lemma fold_gotMax: "fold (\<lambda>u m. if u > m then u else m) us (m :: int) = fold max us m"
  by (induction us arbitrary: m) (simp_all add: max_def)

lemma keys_ascending:
  "list_all (\<lambda>r. \<not> (r > 0 \<and> keys ! (r - 1) > keys ! r)) [0..<length keys] \<longleftrightarrow> sorted (keys :: u64 list)"
proof
  assume a: "list_all (\<lambda>r. \<not> (r > 0 \<and> keys ! (r - 1) > keys ! r)) [0..<length keys]"
  have "keys ! i \<le> keys ! Suc i" if "Suc i < length keys" for i
    using a that by (auto simp: list_all_iff not_less dest!: bspec [of _ _ "Suc i"])
  then show "sorted keys" by (simp add: sorted_iff_nth_Suc)
next
  assume "sorted keys"
  then have "keys ! (r - 1) \<le> keys ! r" if "r < length keys" for r using that by (simp add: sorted_nth_mono)
  then show "list_all (\<lambda>r. \<not> (r > 0 \<and> keys ! (r - 1) > keys ! r)) [0..<length keys]"
    by (auto simp: list_all_iff not_less)
qed

lemma emptySnapshot_minima [simp]: "s_minUpdated (emptySnapshot sc) = 0" "s_minExpire (emptySnapshot sc) = 0"
  by (simp_all add: emptySnapshot_def)

lemma check_Some [simp]: "check b = Some u \<longleftrightarrow> b"
  by (simp add: check_def)

lemma check_bind: "(check b \<bind> f) = (if b then f () else None)"
  by (simp add: check_def)

lemma case_sum_Some: "(case x of Inl e \<Rightarrow> None | Inr y \<Rightarrow> f y) = Some z \<longleftrightarrow> (\<exists>y. x = Inr y \<and> f y = Some z)"
  by (cases x) simp_all

lemma list_all2_upt: "list_all2 P [0..<n] ys \<longleftrightarrow> length ys = n \<and> (\<forall>i < n. P i (ys ! i))"
  by (auto simp: list_all2_conv_all_nth)

text \<open>Whatever the reader accepts is readable.\<close>

lemma rdTable_readable:
  assumes "rdTable sc maxU blen bs = Some s" "i64_ok maxU"
  shows "readable sc s \<and> s_maxUpdated s = maxU \<and> srows s \<le> blen"
proof -
  define mins where "mins upd exp = fold (\<lambda>(u, e) s. trackMin s u e) (zip upd exp) (emptySnapshot sc)" for upd exp
  obtain n b0 dicts b1 dims b2 mets b3 upd b4 exp shifts keys where
    n: "n \<le> blen"
    and d: "rdDicts sc [0..<ndims sc] b0 = Some (dicts, b1)"
    and c: "rdDims n (map dlen dicts) b1 = Some (dims, b2)"
    and m: "rdMany (rdMany rdU64 n) (nmets sc) b2 = Some (mets, b3)"
    and u: "rdMany rdI64 n b3 = Some (upd, b4)"
    and e: "rdMany rdI64 n b4 = Some (exp, [])"
    and g: "\<not> (n > 0 \<and> fold max upd 0 \<noteq> maxU)"
    and sh: "computeShifts (map dlen dicts) (idx_dims sc) = Inr shifts"
    and k: "rdKeys sc shifts dims n = Some keys"
    and s: "s = \<lparr>s_sc = sc, s_dicts = dicts, s_dims = dims, s_mets = mets, s_updated = upd, s_expire = exp,
       s_keys = keys, s_shifts = shifts, s_maxUpdated = maxU,
       s_minUpdated = s_minUpdated (mins upd exp), s_minExpire = s_minExpire (mins upd exp)\<rparr>"
    using assms(1) unfolding rdTable_def Let_def fold_gotMax mins_def
    by (clarsimp simp: bind_eq_Some_conv case_sum_Some not_less)
  have len: "length upd = n" "length exp = n" using time_codec.many_ok [OF u] time_codec.many_ok [OF e] by auto
  have keys: "keys = map (\<lambda>r. packKey shifts (map (\<lambda>i. dims ! i ! r) [0..<idx_dims sc])) [0..<n]" "sorted keys"
    using k keys_ascending [of keys] by (auto simp: rdKeys_def Let_def bind_eq_Some_conv)
  have ds: "length dicts = ndims sc" "dicts_ok sc dicts" "\<forall>d \<in> set dicts. dlen d < 2 ^ 32"
    using rdDicts_ok [OF d] by (auto simp: list_all2_upt dicts_ok_def in_set_conv_nth)
  have cols: "list_all2 (\<lambda>d col. length col = n \<and> (\<forall>i \<in> set col. unat i < dlen d)) dicts dims"
    using rdDims_ok [OF c] by (simp add: list_all2_map1)
  have mets: "length mets = nmets sc" "cols_len mets n"
    using metric_column.many_ok [OF m] by (auto simp: cols_len_def)
  have gm: "0 < n \<longrightarrow> maxU = fold max upd 0" using g by auto
  show ?thesis
    using n gm sh ds cols mets keys len assms(2) time_codec.many_ok [OF u] time_codec.many_ok [OF e]
    unfolding readable_def s by (simp add: srows_def mins_def trackMin_fold)
qed


section \<open>The round trip\<close>

definition storable :: "snapshot \<Rightarrow> bool" where
  "storable s \<longleftrightarrow> srows s < 2 ^ 64 \<and> (\<forall>d \<in> set (s_dicts s). \<forall>x \<in> set (strs d). length x < 2 ^ 32)"

lemma length_put_col: "(\<And>x. length (enc x) = k) \<Longrightarrow> length (put_col enc xs) = k * length xs"
  by (induction xs) (simp_all add: put_col_def)

lemma length_put_i64 [simp]: "length (put_i64 v) = 8"
  by (simp add: put_i64_def)

text \<open>The parts of a file, the dictionaries spelled in some way.\<close>

definition put_header :: "schema \<Rightarrow> i64 \<Rightarrow> byte list" where
  "put_header sc maxU = bytes_of snapMagic @ le32 snapVersion @ le64 (fingerprint sc) @ put_i64 maxU"

definition put_table :: "snapshot \<Rightarrow> string list list \<Rightarrow> byte list" where
  "put_table s sss = le64 (of_nat (srows s)) @
     concat (map put_strings sss) @ concat (map (put_col le32) (s_dims s)) @
     concat (map (put_col le64) (s_mets s)) @ put_col put_i64 (s_updated s) @ put_col put_i64 (s_expire s)"

lemma payload_split: "payload sc s = put_header sc (s_maxUpdated s) @ put_table s (map renderings (s_dicts s))"
  by (simp add: payload_def put_header_def put_table_def comp_def flip: put_dict_strings)

lemma readable_spells:
  assumes r: "readable sc s" and st: "storable s"
  shows "list_all2 spells (s_dicts s) (map renderings (s_dicts s))"
proof -
  have ok: "dict_ok d" if "d \<in> set (s_dicts s)" for d
    using r that dicts_okD(1,2) [of sc "s_dicts s"] by (auto simp: readable_def in_set_conv_nth)
  have "dict_storable d" if "d \<in> set (s_dicts s)" for d
    using r st that by (simp add: readable_def storable_def dict_storable_def)
  then show ?thesis using spells_renderings ok by (simp add: list_all2_conv_all_nth)
qed

lemma rdHeader_put:
  assumes "i64_ok maxU"
  shows "rdHeader sc (put_header sc maxU @ r) = Some (maxU, r)"
    and "fingerprint sc' \<noteq> fingerprint sc \<Longrightarrow> rdHeader sc' (put_header sc maxU @ r) = None"
proof -
  have m: "rd (length snapMagic) (bytes_of snapMagic @ r) = Some (bytes_of snapMagic, r)" for r
    by (rule rd_append) simp
  show "rdHeader sc (put_header sc maxU @ r) = Some (maxU, r)"
    unfolding rdHeader_def put_header_def using assms by (simp add: m check_bind time_codec.dec_enc)
  show "fingerprint sc' \<noteq> fingerprint sc \<Longrightarrow> rdHeader sc' (put_header sc maxU @ r) = None"
    unfolding rdHeader_def put_header_def by (simp add: m check_bind)
qed

lemma rdTable_put:
  assumes r: "readable sc s" and st: "srows s < 2 ^ 64" and sp: "list_all2 spells (s_dicts s) sss" and n: "srows s \<le> blen"
  shows "rdTable sc (s_maxUpdated s) blen (put_table s sss) = Some s"
proof -
  note rd = r [unfolded readable_def]
  let ?m = "concat (map (put_col le64) (s_mets s))" and ?u = "put_col put_i64 (s_updated s)"
    and ?e = "put_col put_i64 (s_expire s)" and ?d = "concat (map (put_col le32) (s_dims s))"
  have N: "unat (of_nat (srows s) :: u64) = srows s" using st by (rule unat_of_nat_u64)
  have lu: "length (s_updated s) = srows s" by (simp add: srows_def)
  have le: "length (s_expire s) = srows s" using rd by blast
  have ds: "dicts_ok sc (s_dicts s)" using rd by blast
  have "list_all2 (\<lambda>i d. dict_ok d \<and> numeric d = isInt sc i \<and> dlen d < 2 ^ 32) [0..<ndims sc] (s_dicts s)"
    using dicts_okD [OF ds] rd by (auto simp: list_all2_upt)
  note d = rdDicts_put [OF this sp, of "?d @ ?m @ ?u @ ?e"]
  have c: "rdDims (srows s) (map dlen (s_dicts s)) (?d @ ?m @ ?u @ ?e) = Some (s_dims s, ?m @ ?u @ ?e)"
    using rd by (intro rdDims_put) (simp add: list_all2_map1)
  have m: "rdMany (rdMany rdU64 (srows s)) (nmets sc) (?m @ ?u @ ?e) = Some (s_mets s, ?u @ ?e)"
    using metric_column.many_enc [of "s_mets s" "srows s" "?u @ ?e"] rd by (simp add: cols_len_def put_col_def)
  have u: "rdMany rdI64 (srows s) (?u @ ?e) = Some (s_updated s, ?e)"
    using time_codec.many_enc [of "s_updated s"] rd lu by simp
  have e: "rdMany rdI64 (srows s) ?e = Some (s_expire s, [])"
    using time_codec.many_enc [of "s_expire s" "[]"] rd le by simp
  have keys: "s_keys s = map (\<lambda>r. packKey (s_shifts s) (map (\<lambda>i. s_dims s ! i ! r) [0..<idx_dims sc])) [0..<srows s]"
    and "sorted (s_keys s)" using rd by blast+
  moreover have "length (s_keys s) = srows s" by (simp add: keys)
  ultimately have k: "rdKeys sc (s_shifts s) (s_dims s) (srows s) = Some (s_keys s)"
    using keys_ascending [of "s_keys s"] unfolding rdKeys_def Let_def keys [symmetric] by (simp add: check_bind)
  have f: "s_sc s = sc" "computeShifts (map dlen (s_dicts s)) (idx_dims sc) = Inr (s_shifts s)"
    "srows s = 0 \<or> fold max (s_updated s) 0 = s_maxUpdated s"
    "fold min_upd_step (s_updated s) 0 = s_minUpdated s" "fold min_exp_step (s_expire s) 0 = s_minExpire s"
    using rd by auto
  have "rdTable sc (s_maxUpdated s) blen (put_table s sss) =
    Some \<lparr>s_sc = sc, s_dicts = s_dicts s, s_dims = s_dims s, s_mets = s_mets s, s_updated = s_updated s,
      s_expire = s_expire s, s_keys = s_keys s, s_shifts = s_shifts s, s_maxUpdated = s_maxUpdated s,
      s_minUpdated = s_minUpdated s, s_minExpire = s_minExpire s\<rparr>"
    unfolding rdTable_def put_table_def Let_def fold_gotMax
    using n f(3) by (simp add: N d c m u e k check_bind trackMin_fold lu le f(2,4,5))
  then show ?thesis using f(1) by simp
qed

lemma file_of_split:
  "take (length (file_of body) - 4) (file_of body) = body"
  "drop (length (file_of body) - 4) (file_of body) = le32 (crc32c body)"
  by (simp_all add: file_of_def)

lemma readable_max: "readable sc s \<Longrightarrow> i64_ok (s_maxUpdated s)"
  by (simp add: readable_def)

lemma length_put_header [simp]: "length (put_header sc maxU) = 28"
  by (simp add: put_header_def snapMagic_def)

lemma length_put_table: "8 + srows s \<le> length (put_table s sss)"
  by (simp add: put_table_def length_put_col [of put_i64 8] srows_def)

lemma read_parts:
  assumes "i64_ok maxU" "8 \<le> length rest"
  shows "readSnapshotFile sc ttl (Some (file_of (put_header sc maxU @ rest))) =
    (if ttl > 0 \<and> maxU < ttl then Inl ErrSnapshotStale
     else (case rdTable sc maxU (28 + length rest) rest of None \<Rightarrow> Inl ErrSnapshotFormat | Some snap \<Rightarrow> Inr snap))"
    and "fingerprint sc' \<noteq> fingerprint sc \<Longrightarrow>
      readSnapshotFile sc' ttl (Some (file_of (put_header sc maxU @ rest))) = Inl ErrSnapshotFormat"
proof -
  let ?b = "put_header sc maxU @ rest"
  have "length snapMagic + 4 + 8 + 8 + 8 + 4 \<le> length (file_of ?b)"
    using assms(2) by (simp add: file_of_def snapMagic_def)
  then show "readSnapshotFile sc ttl (Some (file_of ?b)) =
    (if ttl > 0 \<and> maxU < ttl then Inl ErrSnapshotStale
     else (case rdTable sc maxU (28 + length rest) rest of None \<Rightarrow> Inl ErrSnapshotFormat | Some snap \<Rightarrow> Inr snap))"
    unfolding readSnapshotFile_def Let_def by (simp add: file_of_split rdHeader_put [OF assms(1)])
  show "fingerprint sc' \<noteq> fingerprint sc \<Longrightarrow> readSnapshotFile sc' ttl (Some (file_of ?b)) = Inl ErrSnapshotFormat"
    unfolding readSnapshotFile_def Let_def by (simp add: file_of_split rdHeader_put [OF assms(1)])
qed

lemma read_spelled:
  assumes r: "readable sc s" and st: "srows s < 2 ^ 64" and sp: "list_all2 spells (s_dicts s) sss"
  shows "readSnapshotFile sc ttl (Some (file_of (put_header sc (s_maxUpdated s) @ put_table s sss))) =
    (if ttl > 0 \<and> s_maxUpdated s < ttl then Inl ErrSnapshotStale else Inr s)"
proof -
  have "8 \<le> length (put_table s sss)" "srows s \<le> 28 + length (put_table s sss)" using length_put_table [of s sss] by simp_all
  with rdTable_put [OF r st sp] read_parts(1) [OF readable_max [OF r]] show ?thesis by simp
qed

lemma read_written:
  assumes r: "readable sc s" and st: "storable s"
  shows "readSnapshotFile sc ttl (Some (file_of (payload sc s))) =
    (if ttl > 0 \<and> s_maxUpdated s < ttl then Inl ErrSnapshotStale else Inr s)"
  using read_spelled [OF r _ readable_spells [OF r st]] st by (simp add: payload_split storable_def)

lemma read_other_schema:
  assumes "readable sc s" "fingerprint sc' \<noteq> fingerprint sc"
  shows "readSnapshotFile sc' ttl (Some (file_of (payload sc s))) = Inl ErrSnapshotFormat"
proof -
  let ?t = "put_table s (map renderings (s_dicts s))"
  have "8 \<le> length ?t" using length_put_table [of s "map renderings (s_dicts s)"] by simp
  from read_parts(2) [OF readable_max [OF assms(1)] this assms(2)] show ?thesis by (simp add: payload_split)
qed

lemma read_readable:
  assumes "readSnapshotFile sc ttl file = Inr s"
  shows "readable sc s" "\<not> (ttl > 0 \<and> s_maxUpdated s < ttl)"
proof -
  obtain data maxU r where *: "file = Some data" "rdHeader sc (take (length data - 4) data) = Some (maxU, r)"
    "\<not> (ttl > 0 \<and> maxU < ttl)" "rdTable sc maxU (length (take (length data - 4) data)) r = Some s"
    using assms unfolding readSnapshotFile_def Let_def
    by (auto split: option.splits if_splits prod.splits)
  have "i64_ok maxU" using *(2) by (auto simp: rdHeader_def bind_eq_Some_conv dest: time_codec.dec_ok)
  from rdTable_readable [OF *(4) this] *(3) show "readable sc s" "\<not> (ttl > 0 \<and> s_maxUpdated s < ttl)" by auto
qed

text \<open>The reader fails in three ways, and only the age of the file is reported as staleness.\<close>

lemma read_errors:
  assumes "readSnapshotFile sc ttl file = Inl e"
  shows "e = ErrIO \<and> file = None \<or> e = ErrSnapshotFormat \<or> e = ErrSnapshotStale \<and> 0 < ttl"
  using assms unfolding readSnapshotFile_def Let_def
  by (auto split: option.splits if_splits prod.splits)

section \<open>Corruption\<close>

lemma le32_un_le32: "length bs = 4 \<Longrightarrow> le32 (un_le32 bs) = bs"
proof -
  assume "length bs = 4"
  then obtain a b c d where bs: "bs = [a, b, c, d]"
    by (auto simp: length_Suc_conv numeral_eq_Suc)
  have "ucast (un_le32 bs) = a" "ucast (drop_bit 8 (un_le32 bs)) = b"
    "ucast (drop_bit 16 (un_le32 bs)) = c" "ucast (drop_bit 24 (un_le32 bs)) = d"
    by (rule bit_word_eqI;
        auto simp: bs un_le32_def bit_or_iff bit_push_bit_iff bit_ucast_iff bit_drop_bit_eq dest: bit_imp_le_length)+
  then show ?thesis by (simp add: le32_def bs)
qed

lemma un_le32_inject: "length xs = 4 \<Longrightarrow> length ys = 4 \<Longrightarrow> un_le32 xs = un_le32 ys \<longleftrightarrow> xs = ys"
  by (metis le32_un_le32)

lemma wrong_byte:
  assumes i: "i < length (file_of body)" and b: "b \<noteq> file_of body ! i"
  shows "readSnapshotFile sc ttl (Some ((file_of body)[i := b])) = Inl ErrSnapshotFormat"
proof -
  let ?f = "(file_of body)[i := b]"
  have "crc32c (take (length ?f - 4) ?f) \<noteq> un_le32 (drop (length ?f - 4) ?f)"
  proof (cases "i < length body")
    case True
    then have f: "?f = body[i := b] @ le32 (crc32c body)" by (simp add: file_of_def list_update_append1)
    have "b \<noteq> body ! i" using b True by (simp add: file_of_def nth_append)
    with crc32c_one_byte [OF True] show ?thesis unfolding f by simp
  next
    case False
    then have f: "?f = body @ (le32 (crc32c body))[i - length body := b]"
      by (simp add: file_of_def list_update_append)
    have "b \<noteq> le32 (crc32c body) ! (i - length body)" "i - length body < 4"
      using b i False by (simp_all add: file_of_def nth_append)
    then have "(le32 (crc32c body))[i - length body := b] \<noteq> le32 (crc32c body)"
      by (metis length_le32 nth_list_update_eq)
    then have "un_le32 ((le32 (crc32c body))[i - length body := b]) \<noteq> un_le32 (le32 (crc32c body))"
      by (simp only: un_le32_inject length_list_update length_le32) simp
    then show ?thesis unfolding f by simp
  qed
  then show ?thesis unfolding readSnapshotFile_def Let_def by simp
qed

end
