(* ===== verification/FileFormat.thy ===== *)
theory FileFormat
  imports PersistSound
begin

text \<open>
  The language of snapshot files: which bytes the reader accepts, as what, and why it rejects
  the others. The files are described from the side of the writer, with the one freedom that an
  integer of a dictionary may be spelled in any way that the reader takes.
\<close>

section \<open>The language\<close>

text \<open>A file that holds a snapshot, and a complete file too old for a cutoff.\<close>

definition holds_file :: "schema \<Rightarrow> byte list \<Rightarrow> snapshot \<Rightarrow> bool" where
  "holds_file sc file snap \<longleftrightarrow> readable sc snap \<and> srows snap < 2 ^ 64 \<and>
     (\<exists>sss. list_all2 spells (s_dicts snap) sss \<and>
        file = file_of (put_header sc (s_maxUpdated snap) @ put_table snap sss))"

definition stale_file :: "schema \<Rightarrow> i64 \<Rightarrow> byte list \<Rightarrow> bool" where
  "stale_file sc ttl file \<longleftrightarrow> 0 < ttl \<and>
     (\<exists>maxU rest. i64_ok maxU \<and> maxU < ttl \<and> 8 \<le> length rest \<and> file = file_of (put_header sc maxU @ rest))"

section \<open>Decoding is injective\<close>

text \<open>A codec whose decoder accepts nothing but encodings.\<close>

locale exact_codec = codec +
  assumes dec_enc_only: "dec bs = Some (x, r) \<Longrightarrow> bs = enc x @ r"
begin

lemma many_only: "rdMany dec n bs = Some (xs, r) \<Longrightarrow> bs = put_col enc xs @ r"
  by (induction n arbitrary: bs xs r) (auto simp: put_col_def bind_eq_Some_conv dest!: dec_enc_only)

lemma exact_column: "exact_codec (put_col enc) (rdMany dec n) (\<lambda>xs. length xs = n \<and> (\<forall>x \<in> set xs. ok x))"
  using column many_only by (intro exact_codec.intro exact_codec_axioms.intro) auto

end

lemma rd_only: "rd n bs = Some (x, r) \<Longrightarrow> bs = x @ r \<and> length x = n"
  by (auto simp: rd_def split: if_splits)

lemma rdU32_only: "rdU32 bs = Some (w, r) \<Longrightarrow> bs = le32 w @ r"
  by (auto simp: rdU32_def le32_un_le32 dest!: rd_only)

lemma le64_un_le64:
  assumes "length bs = 8"
  shows "le64 (un_le64 bs) = bs"
proof -
  have t: "length (take 4 bs) = 4" "length (drop 4 bs) = 4" using assms by simp_all
  have "ucast (un_le64 bs) = un_le32 (take 4 bs)" "ucast (drop_bit 32 (un_le64 bs)) = un_le32 (drop 4 bs)"
    by (rule bit_word_eqI;
        auto simp: un_le64_def bit_or_iff bit_push_bit_iff bit_ucast_iff bit_drop_bit_eq dest: bit_imp_le_length)+
  then show ?thesis by (simp add: le64_def le32_un_le32 [OF t(1)] le32_un_le32 [OF t(2)])
qed

lemma rdU64_only: "rdU64 bs = Some (w, r) \<Longrightarrow> bs = le64 w @ r"
  by (auto simp: rdU64_def le64_un_le64 dest!: rd_only)

lemma rdI64_only: "rdI64 bs = Some (v, r) \<Longrightarrow> bs = put_i64 v @ r"
  by (auto simp: rdI64_def put_i64_def dest!: rdU64_only)

interpretation id_exact: exact_codec le32 "rdId n" "\<lambda>i. unat i < n" for n
  by unfold_locales (auto simp: rdId_def bind_eq_Some_conv dest: rdU32_only)

interpretation metric_exact: exact_codec le64 rdU64 "\<lambda>_. True"
  by unfold_locales (rule rdU64_only)

interpretation time_exact: exact_codec put_i64 rdI64 i64_ok
  by unfold_locales (rule rdI64_only)

interpretation metric_column_exact: exact_codec "put_col le64" "rdMany rdU64 n" "\<lambda>xs. length xs = n \<and> (\<forall>x \<in> set xs. True)" for n
  by (rule metric_exact.exact_column)

section \<open>Dictionaries\<close>

lemma bytes_of_string_of: "bytes_of (string_of bs) = bs"
proof -
  have "word_of_int (of_char (char_of (uint b) :: char)) = b" for b :: byte
  proof -
    have "uint b mod 256 = uint b" using uint_bounded [of b] by simp
    then show ?thesis by (simp add: of_char_of)
  qed
  then show ?thesis by (induction bs) (simp_all add: bytes_of_def string_of_def)
qed

lemma rdEntry_only:
  assumes "rdEntry b d bs = Some (d', r)"
  shows "\<exists>s x. bs = put_entry s @ r \<and> canon b s = Some x \<and> length s < 2 ^ 32 \<and> d' = snd (dict_add d x)"
proof -
  obtain sl sb r0 where r: "rdU32 bs = Some (sl, r0)" "rd (unat sl) r0 = Some (sb, r)"
    and d: "if b then \<exists>v. parse_int (string_of sb) = Some v \<and> d' = snd (getOrAddN d v) else d' = snd (getOrAdd d (string_of sb))"
    using assms by (auto simp: rdEntry_def bind_eq_Some_conv split: if_splits)
  have l: "length sb = unat sl" "r0 = sb @ r" using rd_only [OF r(2)] by auto
  have s: "length (string_of sb) = unat sl" using l by (simp add: string_of_def)
  have "bs = put_entry (string_of sb) @ r"
    using rdU32_only [OF r(1)] l s by (simp add: put_entry_def bytes_of_string_of)
  moreover have "length (string_of sb) < 2 ^ 32" using s unat_u32_less [of sl] by simp
  ultimately show ?thesis using d by (cases b) (auto simp: canon_def dict_add_def)
qed

lemma rdEntries_only:
  assumes "rdEntries b n d bs = Some (d', r)"
  shows "\<exists>ss xs. bs = concat (map put_entry ss) @ r \<and> length xs = n \<and>
    list_all2 (\<lambda>s x. canon b s = Some x \<and> length s < 2 ^ 32) ss xs \<and> d' = snd (dict_intern.add_all d xs)"
  using assms
proof (induction n arbitrary: d bs)
  case (Suc n)
  then obtain d1 r1 where one: "rdEntry b d bs = Some (d1, r1)" and rest: "rdEntries b n d1 r1 = Some (d', r)"
    by (auto simp: bind_eq_Some_conv)
  obtain s x where s: "bs = put_entry s @ r1" "canon b s = Some x" "length s < 2 ^ 32" "d1 = snd (dict_add d x)"
    using rdEntry_only [OF one] by blast
  obtain ss xs where ss: "r1 = concat (map put_entry ss) @ r" "length xs = n"
    "list_all2 (\<lambda>s x. canon b s = Some x \<and> length s < 2 ^ 32) ss xs" "d' = snd (dict_intern.add_all d1 xs)"
    using Suc.IH [OF rest] by blast
  show ?case using s ss by (intro exI [of _ "s # ss"] exI [of _ "x # xs"]) (simp add: split_def Let_def)
qed simp

text \<open>Interning as many different values as there are entries adds them all.\<close>

lemma add_all_count:
  assumes "dict_ok d" "\<forall>x \<in> set xs. val_fits (numeric d) x" "dlen d + length xs \<le> 2 ^ 32"
  shows "dlen (snd (dict_intern.add_all d xs)) \<le> dlen d + length xs \<and>
    (dlen (snd (dict_intern.add_all d xs)) = dlen d + length xs \<longrightarrow>
      dict_vals (snd (dict_intern.add_all d xs)) = dict_vals d @ xs)"
  using assms
proof (induction xs arbitrary: d)
  case (Cons x xs)
  obtain i d1 where i: "dict_add d x = (i, d1)" by (cases "dict_add d x")
  have f: "val_fits (numeric d) x" "dlen d < 2 ^ 32" using Cons.prems by simp_all
  note spec = dict_add_spec [OF Cons.prems(1) f i]
  have len: "dlen d1 \<le> Suc (dlen d)" "dlen d1 = Suc (dlen d) \<longrightarrow> dict_vals d1 = dict_vals d @ [x]"
    using spec(4) by (auto simp flip: length_dict_vals)
  have "dlen d1 + length xs \<le> 2 ^ 32" using Cons.prems(3) len(1) by simp
  with Cons.IH [OF spec(1)] Cons.prems(2) spec(2) len i show ?case by (auto simp: split_def Let_def)
qed simp

lemma rdDict_only:
  assumes "rdDict b bs = Some (d, r)"
  shows "\<exists>ss. bs = put_strings ss @ r \<and> spells d ss"
proof -
  obtain c r0 where c: "rdU32 bs = Some (c, r0)" and e: "rdEntries b (unat c) (newDict b) r0 = Some (d, r)"
    and n: "dlen d = unat (c :: u32)"
    using assms by (auto simp: rdDict_def bind_eq_Some_conv check_def split: if_splits)
  obtain ss xs where s: "r0 = concat (map put_entry ss) @ r" "length xs = unat c"
    "list_all2 (\<lambda>s x. canon b s = Some x \<and> length s < 2 ^ 32) ss xs" "d = snd (dict_intern.add_all (newDict b) xs)"
    using rdEntries_only [OF e] by blast
  have fits: "\<forall>x \<in> set xs. val_fits b x"
    using s(3) canon_fits by (fastforce simp: list_all2_conv_all_nth in_set_conv_nth)
  have "dict_vals d = xs"
    using add_all_count [of "newDict b" xs] fits s(2,4) n unat_u32_less [of c] by auto
  moreover have "numeric d = b" using rdDict_ok [OF assms] by blast
  ultimately have "spells d ss" using s(3) by (simp add: spells_def)
  moreover have "bs = put_strings ss @ r"
    using rdU32_only [OF c] s(1,2) list_all2_lengthD [OF s(3)] by (simp add: put_strings_def)
  ultimately show ?thesis by blast
qed

lemma rdDicts_only:
  "rdDicts sc is bs = Some (ds, r) \<Longrightarrow> \<exists>sss. bs = concat (map put_strings sss) @ r \<and> list_all2 spells ds sss"
proof (induction "is" arbitrary: bs ds r)
  case (Cons i "is")
  then obtain d r1 ds' where d: "rdDict (isInt sc i) bs = Some (d, r1)" "rdDicts sc is r1 = Some (ds', r)" "ds = d # ds'"
    by (auto simp: bind_eq_Some_conv)
  obtain ss sss where "bs = put_strings ss @ r1" "spells d ss" "r1 = concat (map put_strings sss) @ r" "list_all2 spells ds' sss"
    using rdDict_only [OF d(1)] Cons.IH [OF d(2)] by blast
  then show ?case using d(3) by (intro exI [of _ "ss # sss"]) simp
qed simp

lemma rdDims_only: "rdDims n cards bs = Some (cols, r) \<Longrightarrow> bs = concat (map (put_col le32) cols) @ r"
  by (induction cards arbitrary: bs cols r) (auto simp: bind_eq_Some_conv dest!: id_exact.many_only)

section \<open>Tables and files\<close>

lemma rdHeader_only:
  assumes "rdHeader sc bs = Some (maxU, r)"
  shows "bs = put_header sc maxU @ r" "i64_ok maxU"
proof -
  obtain m r1 v r2 fp r3 where *: "rd (length snapMagic) bs = Some (m, r1)" "string_of m = snapMagic"
    "rdU32 r1 = Some (v, r2)" "v = snapVersion" "rdU64 r2 = Some (fp, r3)" "fp = fingerprint sc" "rdI64 r3 = Some (maxU, r)"
    using assms by (auto simp: rdHeader_def bind_eq_Some_conv)
  have "m = bytes_of snapMagic" using *(2) bytes_of_string_of [of m] by simp
  then show "bs = put_header sc maxU @ r"
    using rd_only [OF *(1)] rdU32_only [OF *(3)] rdU64_only [OF *(5)] rdI64_only [OF *(7)] *(4,6) by (simp add: put_header_def)
  show "i64_ok maxU" using *(7) by (rule time_codec.dec_ok)
qed

lemma rdTable_only:
  assumes t: "rdTable sc maxU blen bs = Some s"
  shows "srows s < 2 ^ 64 \<and> (\<exists>sss. list_all2 spells (s_dicts s) sss \<and> bs = put_table s sss)"
proof -
  obtain rows b0 dicts b1 dims b2 mets b3 upd b4 exp where
    n: "rdU64 bs = Some (rows, b0)"
    and d: "rdDicts sc [0..<ndims sc] b0 = Some (dicts, b1)"
    and c: "rdDims (unat rows) (map dlen dicts) b1 = Some (dims, b2)"
    and m: "rdMany (rdMany rdU64 (unat rows)) (nmets sc) b2 = Some (mets, b3)"
    and u: "rdMany rdI64 (unat rows) b3 = Some (upd, b4)"
    and e: "rdMany rdI64 (unat rows) b4 = Some (exp, [])"
    and s: "s_dicts s = dicts" "s_dims s = dims" "s_mets s = mets" "s_updated s = upd" "s_expire s = exp"
    using t unfolding rdTable_def Let_def by (clarsimp simp: bind_eq_Some_conv case_sum_Some not_less)
  have rows: "srows s = unat rows" using time_codec.many_ok [OF u] s by (simp add: srows_def)
  obtain sss where sss: "b0 = concat (map put_strings sss) @ b1" "list_all2 spells dicts sss"
    using rdDicts_only [OF d] by blast
  have "bs = put_table s sss"
    using rdU64_only [OF n] sss(1) rdDims_only [OF c] metric_column_exact.many_only [OF m]
      time_exact.many_only [OF u] time_exact.many_only [OF e]
    by (simp add: put_table_def rows s put_col_def [of "put_col le64"])
  moreover have "srows s < 2 ^ 64" using unsigned_less [of rows] by (simp add: rows)
  ultimately show ?thesis using sss(2) s(1) by blast
qed

text \<open>The reader accepts exactly the files that hold a snapshot and are not stale, as that snapshot.\<close>

lemma sealed:
  assumes "\<not> length data < 40" "crc32c (take (length data - 4) data) = un_le32 (drop (length data - 4) data)"
  shows "data = file_of (take (length data - 4) data)"
  using assms by (simp add: file_of_def le32_un_le32)

lemma stale_file_parts:
  assumes "i64_ok maxU" "8 \<le> length rest"
  shows "stale_file sc ttl (file_of (put_header sc maxU @ rest)) \<longleftrightarrow> 0 < ttl \<and> maxU < ttl"
proof -
  have "m = maxU" if "file_of (put_header sc maxU @ rest) = file_of (put_header sc m @ r)" "i64_ok m" "8 \<le> length r" for m r
  proof -
    have "put_header sc maxU @ rest = put_header sc m @ r"
      using arg_cong [OF that(1), of "\<lambda>f. take (length f - 4) f"] by (simp only: file_of_split)
    then have "Some (maxU, rest) = Some (m, r)"
      using rdHeader_put(1) [OF assms(1), of sc rest] rdHeader_put(1) [OF that(2), of sc r] by (simp only:)
    then show ?thesis by blast
  qed
  then show ?thesis using assms unfolding stale_file_def by blast
qed

lemma read_holds:
  assumes h: "holds_file sc file snap"
  shows "readSnapshotFile sc ttl (Some file) = (if stale_file sc ttl file then Inl ErrSnapshotStale else Inr snap)"
proof -
  obtain sss where f: "readable sc snap" "srows snap < 2 ^ 64" "list_all2 spells (s_dicts snap) sss"
    "file = file_of (put_header sc (s_maxUpdated snap) @ put_table snap sss)"
    using h by (auto simp: holds_file_def)
  have "8 \<le> length (put_table snap sss)" using length_put_table [of snap sss] by simp
  then show ?thesis using read_spelled [OF f(1-3), of ttl] stale_file_parts [OF readable_max [OF f(1)]] f(4) by simp
qed

lemma read_stale: "stale_file sc ttl file \<Longrightarrow> readSnapshotFile sc ttl (Some file) = Inl ErrSnapshotStale"
  using read_parts(1) by (auto simp: stale_file_def)

lemma read_Inr_holds:
  assumes r: "readSnapshotFile sc ttl (Some file) = Inr snap"
  shows "holds_file sc file snap"
proof -
  let ?body = "take (length file - 4) file"
  obtain maxU t where l: "\<not> length file < 40" and c: "crc32c ?body = un_le32 (drop (length file - 4) file)"
    and h: "rdHeader sc ?body = Some (maxU, t)" and tab: "rdTable sc maxU (length ?body) t = Some snap"
    using r unfolding readSnapshotFile_def Let_def by (auto simp: snapMagic_def split: option.splits if_splits prod.splits)
  have s: "s_maxUpdated snap = maxU" using rdTable_readable [OF tab rdHeader_only(2) [OF h]] by blast
  show ?thesis
    using read_readable(1) [OF r] rdTable_only [OF tab] sealed [OF l c] rdHeader_only(1) [OF h]
    by (auto simp: holds_file_def s)
qed

lemma read_Inl_stale:
  assumes r: "readSnapshotFile sc ttl (Some file) = Inl ErrSnapshotStale"
  shows "stale_file sc ttl file"
proof -
  let ?body = "take (length file - 4) file"
  obtain maxU t where l: "\<not> length file < 40" and c: "crc32c ?body = un_le32 (drop (length file - 4) file)"
    and h: "rdHeader sc ?body = Some (maxU, t)" and o: "0 < ttl" "maxU < ttl"
    using r unfolding readSnapshotFile_def Let_def by (auto simp: snapMagic_def split: option.splits if_splits prod.splits)
  have "length ?body = 28 + length t" using arg_cong [OF rdHeader_only(1) [OF h], of length] by simp
  then have "8 \<le> length t" using l by simp
  then show ?thesis
    using o sealed [OF l c] rdHeader_only [OF h] unfolding stale_file_def by metis
qed

lemma read_exact:
  "readSnapshotFile sc ttl (Some file) = Inr snap \<longleftrightarrow> holds_file sc file snap \<and> \<not> stale_file sc ttl file"
  "readSnapshotFile sc ttl (Some file) = Inl ErrSnapshotStale \<longleftrightarrow> stale_file sc ttl file"
  "readSnapshotFile sc ttl (Some file) = Inl ErrSnapshotFormat \<longleftrightarrow> \<not> stale_file sc ttl file \<and> (\<nexists>snap. holds_file sc file snap)"
proof -
  show "readSnapshotFile sc ttl (Some file) = Inl ErrSnapshotStale \<longleftrightarrow> stale_file sc ttl file"
    using read_stale read_Inl_stale by blast
  show "readSnapshotFile sc ttl (Some file) = Inr snap \<longleftrightarrow> holds_file sc file snap \<and> \<not> stale_file sc ttl file"
  proof
    assume r: "readSnapshotFile sc ttl (Some file) = Inr snap"
    then have "\<not> stale_file sc ttl file" using read_stale [of sc ttl "file"] by auto
    with read_Inr_holds [OF r] show "holds_file sc file snap \<and> \<not> stale_file sc ttl file" by blast
  next
    assume "holds_file sc file snap \<and> \<not> stale_file sc ttl file"
    then show "readSnapshotFile sc ttl (Some file) = Inr snap" by (elim conjE) (drule read_holds [of _ _ _ ttl], simp)
  qed
  show "readSnapshotFile sc ttl (Some file) = Inl ErrSnapshotFormat \<longleftrightarrow> \<not> stale_file sc ttl file \<and> (\<nexists>snap. holds_file sc file snap)"
  proof (cases "readSnapshotFile sc ttl (Some file)")
    case (Inl e)
    then have "\<not> holds_file sc file snap" if "\<not> stale_file sc ttl file" for snap using read_holds that by fastforce
    moreover have "e = ErrSnapshotFormat \<or> e = ErrSnapshotStale \<and> stale_file sc ttl file"
      using read_errors [OF Inl] Inl read_Inl_stale by blast
    ultimately show ?thesis using Inl read_stale [of sc ttl "file"] by auto
  next
    case (Inr snap)
    with read_Inr_holds [OF Inr] show ?thesis by auto
  qed
qed

end
