(* ===== verification/PersistIO.thy ===== *)
theory PersistIO
  imports FileFormat
begin

text \<open>
  Saving and loading on a store: the states that the file system passes through during a save,
  and what a load of the saved file gives back.
\<close>

section \<open>The file system during a save\<close>

lemma writing_states: "f \<in> set (writing fs0 tmp pre bs n) \<Longrightarrow> \<exists>b. f = fs0(tmp \<mapsto> b)"
  by (auto simp: writing_def)

lemma writing_last [simp]:
  "writing fs0 tmp pre bs n \<noteq> []" "last (writing fs0 tmp pre bs n) = fs0(tmp \<mapsto> pre @ take n bs)"
  by (simp_all add: writing_def)

text \<open>Until the rename only the temporary file changes; a failure leaves the path alone.\<close>

lemma write_states:
  assumes "writeSnapshotFile io path sc snap fs0 = (r, tr)" "io_tmp io \<noteq> path" "f \<in> set tr"
  shows "\<forall>p. p \<noteq> path \<longrightarrow> p \<noteq> io_tmp io \<longrightarrow> f p = fs0 p"
    and "f path = fs0 path \<or> f path = Some (file_of (payload sc snap))"
proof -
  let ?b = "payload sc snap" and ?t = "io_tmp io"
  have w: "(\<forall>p. p \<noteq> path \<longrightarrow> p \<noteq> ?t \<longrightarrow> f p = fs0 p) \<and> f path = fs0 path"
    if "f \<in> set (writing fs0 ?t pre bs n)" for pre bs n
    using writing_states [OF that] assms(2) by auto
  have "(\<forall>p. p \<noteq> path \<longrightarrow> p \<noteq> ?t \<longrightarrow> f p = fs0 p) \<and> (f path = fs0 path \<or> f path = Some (file_of ?b))"
    using assms w by (auto simp: writeSnapshotFile_def Let_def sent_def file_of_def split: if_splits option.splits)
  then show "\<forall>p. p \<noteq> path \<longrightarrow> p \<noteq> ?t \<longrightarrow> f p = fs0 p" "f path = fs0 path \<or> f path = Some (file_of ?b)"
    by blast+
qed

lemma write_None:
  assumes "writeSnapshotFile io path sc snap fs0 = (None, tr)"
  shows "last tr = fs0(io_tmp io := None, path \<mapsto> file_of (payload sc snap))"
  using assms
  by (auto simp: writeSnapshotFile_def Let_def sent_def file_of_def fun_eq_iff split: if_splits option.splits)

lemma write_Some:
  assumes "writeSnapshotFile io path sc snap fs0 = (Some e, tr)" "io_tmp io \<noteq> path"
  shows "e = ErrIO" "last tr path = fs0 path" "io_remove io \<Longrightarrow> fs0 (io_tmp io) = None \<Longrightarrow> last tr = fs0"
  using assms
  by (auto simp: writeSnapshotFile_def Let_def fun_eq_iff split: if_splits option.splits)

text \<open>The save succeeds exactly when every call of the operating system does.\<close>

definition io_ok :: "io \<Rightarrow> bool" where
  "io_ok io \<longleftrightarrow> io_create io \<and> io_flush io = None \<and> io_tail io = None \<and> io_sync io \<and> io_close io \<and> io_rename io"

lemma write_ok: "fst (writeSnapshotFile io path sc snap fs0) = None \<longleftrightarrow> io_ok io"
  by (auto simp: writeSnapshotFile_def io_ok_def Let_def)

lemma save_outcome:
  assumes "io_tmp io \<noteq> path" "fs0 (io_tmp io) = None" "io_remove io"
  shows "(fst (writeSnapshotFile io path sc snap fs0) = None \<longleftrightarrow> io_ok io) \<and>
    last (snd (writeSnapshotFile io path sc snap fs0)) =
      (if io_ok io then fs0(path \<mapsto> file_of (payload sc snap)) else fs0)"
proof -
  obtain r tr where w: "writeSnapshotFile io path sc snap fs0 = (r, tr)" by force
  have ok: "r = None \<longleftrightarrow> io_ok io" using write_ok [of io path sc snap fs0] w by simp
  show ?thesis
  proof (cases r)
    case None
    then show ?thesis using ok w write_None [of io path sc snap fs0 tr] assms(1,2) by (auto simp: fun_eq_iff)
  next
    case (Some e)
    then show ?thesis using ok w write_Some(3) [of io path sc snap fs0 e tr] assms by simp
  qed
qed

section \<open>On a store\<close>

definition base_table :: "store \<Rightarrow> dval list \<rightharpoonup> arow" where
  "base_table s = abs_view (newView (v_base (sto_view s)))"

lemma Save_frame:
  assumes "SaveSnapshot io path s fs0 = (r, s1, tr)"
  shows "sto_sc s1 = sto_sc s" "sto_cfg s1 = sto_cfg s" "sto_view s1 = sto_view s" "sto_capBlocked s1 = sto_capBlocked s"
    and "store_ok s1 = store_ok s" "table s1 = table s"
    and "writeSnapshotFile io path (sto_sc s) (v_base (sto_view s)) fs0 = (r, tr)"
    and "snapshotSaves (sto_st s1) = snapshotSaves (sto_st s) + (if r = None then 1 else 0)"
    and "snapshotSaveFailures (sto_st s1) = snapshotSaveFailures (sto_st s) + (if r = None then 0 else 1)"
  using assms by (auto simp: SaveSnapshot_def store_ok_def table_def Rows_def split: prod.splits option.splits)

lemma base_readable:
  assumes "store_ok s"
  shows "readable (sto_sc s) (v_base (sto_view s))" "snap_ok (sto_sc s) (v_base (sto_view s))"
    and "\<forall>d \<in> set (s_dicts (v_base (sto_view s))). dlen d < 2 ^ 32"
proof -
  have v: "view_ok (sto_sc s) (sto_view s)" using assms by (rule store_okD)
  show sn: "snap_ok (sto_sc s) (v_base (sto_view s))" using v by (rule view_okD)
  have small: "dlen (s_dicts (v_base (sto_view s)) ! d) < 2 ^ 32" if "d < ndims (sto_sc s)" for d
    using extras_okD(2) [OF view_okD(2) [OF v] that] by (simp add: comb_ok_def)
  then show *: "\<forall>d \<in> set (s_dicts (v_base (sto_view s))). dlen d < 2 ^ 32"
    using dicts_okD(1) [OF snap_okD(3) [OF sn]] by (auto simp: in_set_conv_nth)
  show "readable (sto_sc s) (v_base (sto_view s))"
    using snap_ok_readable [OF snap_okD(1) [OF sn]] sn * by blast
qed

lemma LoadSnapshot_frame:
  "sto_sc (snd (LoadSnapshot s t fl)) = sto_sc s" "sto_cfg (snd (LoadSnapshot s t fl)) = sto_cfg s"
  by (auto simp: LoadSnapshot_def split: sum.splits)

text \<open>
  Every result of a load has its reason in the bytes: no file, a complete header with a position
  before the cutoff, bytes that no snapshot is written as, more rows than the cap; otherwise the
  snapshot is installed.
\<close>

definition loads :: "store \<Rightarrow> instant \<Rightarrow> byte list option \<Rightarrow> snapshot \<Rightarrow> bool" where
  "loads s t data snap \<longleftrightarrow>
     (\<exists>bs. data = Some bs \<and> holds_file (sto_sc s) bs snap \<and> \<not> stale_file (sto_sc s) (ttlCutoff s t) bs)"

lemma Load_exact:
  "case LoadSnapshot s t data of (r, s1) \<Rightarrow>
     (r = Some ErrIO \<longleftrightarrow> data = None) \<and>
     (r = Some ErrSnapshotStale \<longleftrightarrow> (\<exists>bs. data = Some bs \<and> stale_file (sto_sc s) (ttlCutoff s t) bs)) \<and>
     (r = Some ErrSnapshotFormat \<longleftrightarrow> (\<exists>bs. data = Some bs \<and> \<not> stale_file (sto_sc s) (ttlCutoff s t) bs \<and>
        (\<nexists>snap. holds_file (sto_sc s) bs snap))) \<and>
     (r = Some (ErrRowLimit n cap) \<longleftrightarrow> cap = MaxRows (sto_cfg s) \<and> overCap (sto_cfg s) n \<and>
        (\<exists>snap. loads s t data snap \<and> n = srows snap)) \<and>
     (r = None \<longleftrightarrow> (\<exists>snap. loads s t data snap \<and> \<not> overCap (sto_cfg s) (srows snap) \<and>
        s1 = s\<lparr>sto_view := newView snap, sto_capBlocked := False\<rparr>)) \<and>
     (r = None \<or> s1 = s)"
proof (cases data)
  case None
  then show ?thesis by (simp add: LoadSnapshot_def readSnapshotFile_def loads_def)
next
  case (Some bs)
  note ex = read_exact [of "sto_sc s" "ttlCutoff s t" bs]
  show ?thesis
  proof (cases "readSnapshotFile (sto_sc s) (ttlCutoff s t) data")
    case (Inl e)
    have e: "e = ErrSnapshotFormat \<or> e = ErrSnapshotStale" using read_errors [OF Inl] Some by auto
    have no: "\<not> loads s t (Some bs) snap" for snap using ex(1) Inl Some by (simp add: loads_def)
    have "e = ErrSnapshotStale \<longleftrightarrow> stale_file (sto_sc s) (ttlCutoff s t) bs"
      "e = ErrSnapshotFormat \<longleftrightarrow> \<not> stale_file (sto_sc s) (ttlCutoff s t) bs \<and> (\<nexists>snap. holds_file (sto_sc s) bs snap)"
      using ex(2,3) Inl Some by simp_all
    then show ?thesis using e no Inl Some by (auto simp: LoadSnapshot_def)
  next
    case (Inr snap)
    have one: "loads s t (Some bs) sn \<longleftrightarrow> sn = snap" for sn using ex(1) [of sn] Inr Some by (auto simp: loads_def)
    have no: "\<not> stale_file (sto_sc s) (ttlCutoff s t) bs" "holds_file (sto_sc s) bs snap"
      using ex(1) [of snap] Inr Some by simp_all
    then show ?thesis using Inr Some by (auto simp: LoadSnapshot_def one)
  qed
qed

text \<open>Loading a file that some store of the same schema saved.\<close>

lemma Load_saved:
  assumes ok: "snap_ok (sto_sc s) snap" and small: "\<forall>d \<in> set (s_dicts snap). dlen d < 2 ^ 32"
    and st: "storable snap" and fl: "fl = Some (file_of (payload (sto_sc s) snap))"
  shows "LoadSnapshot s t fl =
    (if 0 < ttlCutoff s t \<and> s_maxUpdated snap < ttlCutoff s t then (Some ErrSnapshotStale, s)
     else if overCap (sto_cfg s) (srows snap) then (Some (ErrRowLimit (srows snap) (MaxRows (sto_cfg s))), s)
     else (None, s\<lparr>sto_view := newView snap, sto_capBlocked := False\<rparr>))"
proof -
  have "readable (sto_sc s) snap" using snap_ok_readable [OF snap_okD(1) [OF ok]] ok small by blast
  from read_written [OF this st] show ?thesis by (simp add: LoadSnapshot_def fl)
qed

lemma Load_saved_ok:
  assumes ok: "snap_ok (sto_sc s) snap" and small: "\<forall>d \<in> set (s_dicts snap). dlen d < 2 ^ 32"
    and s: "store_ok s" and st: "storable snap"
  shows "store_ok (snd (LoadSnapshot s t (Some (file_of (payload (sto_sc s) snap)))))"
proof -
  have "Rows (s\<lparr>sto_view := newView snap, sto_capBlocked := False\<rparr>) = srows snap"
    by (simp add: Rows_def newView_def)
  then show ?thesis
    unfolding Load_saved [OF ok small st refl]
    using s view_ok_newView [OF ok] small dicts_okD(1) [OF snap_okD(3) [OF ok]] by (auto simp: store_ok_def)
qed

text \<open>From one store through the file into another.\<close>

lemma load_after_save:
  assumes ok: "store_ok s" and st: "storable (v_base (sto_view s))"
    and save: "SaveSnapshot io path s fs0 = (None, s1, tr)"
    and sc: "sto_sc s2 = sto_sc s" and load: "LoadSnapshot s2 t (last tr path) = (r, s3)"
  shows "if 0 < ttlCutoff s2 t \<and> s_maxUpdated (v_base (sto_view s)) < ttlCutoff s2 t then r = Some ErrSnapshotStale
    else if overCap (sto_cfg s2) (Rows s) then r = Some (ErrRowLimit (Rows s) (MaxRows (sto_cfg s2)))
    else r = None \<and> table s3 = base_table s \<and> Rows s3 = Rows s \<and> DeltaRows s3 = 0 \<and> \<not> sto_capBlocked s3"
proof -
  have f: "last tr path = Some (file_of (payload (sto_sc s) (v_base (sto_view s))))"
    using write_None [OF Save_frame(7) [OF save]] by simp
  have d: "drows (v_delta (newView snap)) = 0" "v_base (newView snap) = snap" for snap
    by (simp_all add: newView_def emptyDelta_def drows_def)
  note l = Load_saved [of s2 "v_base (sto_view s)" "last tr path" t, unfolded sc, OF base_readable(2,3) [OF ok] st f]
  show ?thesis
    using load unfolding l by (auto simp: table_def base_table_def Rows_def DeltaRows_def d split: if_splits)
qed

text \<open>A compaction leaves nothing but the base, so saving it loses nothing.\<close>

lemma Compact_base:
  assumes "Compact srt s t0 t1 t2 el = (None, s1)"
  shows "base_table s1 = table s1"
proof -
  have n: "v_base (newView snap) = snap" for snap by (simp add: newView_def)
  show ?thesis
    using assms unfolding Compact_def Let_def
    by (auto simp: base_table_def table_def n split: sum.splits if_splits prod.splits)
qed

end
