(* ===== verification/Compactor.thy ===== *)
theory Compactor
  imports PersistIO Float64
begin

text \<open>
  \<open>compactor.go\<close>: the background policy, and the whole system of a store, its host, the
  compactor and the snapshot file as a step relation, with crashes at any moment.
\<close>

section \<open>The policy\<close>

record compactorConfig =
  CheckInterval :: duration
  CompactInterval :: duration
  DeltaRatio :: f64
  MaxDeltaRows :: int
  SnapshotPath :: string

text \<open>\<open>0x3FB999999999999A\<close> is the \<open>float64\<close> constant 0.1.\<close>

definition withDefaults :: "compactorConfig \<Rightarrow> compactorConfig" where
  "withDefaults c =
     (let c1 = (if CheckInterval c \<le> 0 then c\<lparr>CheckInterval := 10 * 1000000000\<rparr> else c);
          c2 = (if CompactInterval c1 \<le> 0 then c1\<lparr>CompactInterval := 300 * 1000000000\<rparr> else c1)
      in if f_le (DeltaRatio c2) 0 then c2\<lparr>DeltaRatio := 0x3FB999999999999A\<rparr> else c2)"

text \<open>The store that the compactor points to is the state that its operations take.\<close>

record compactor =
  co_cfg :: compactorConfig

definition NewCompactor :: "compactorConfig \<Rightarrow> compactor" where
  "NewCompactor cfg = \<lparr>co_cfg = withDefaults cfg\<rparr>"

definition isCapBlocked :: "store \<Rightarrow> bool" where
  "isCapBlocked s = sto_capBlocked s"

text \<open>Whether a check tick compacts.\<close>

definition ratioHit :: "compactorConfig \<Rightarrow> store \<Rightarrow> bool" where
  "ratioHit c s =
     (let d = int (DeltaRows s); base = max (int (Rows s)) 1
      in d > 0 \<and> f_le (f_mul (DeltaRatio c) (f_of_int base)) (f_of_int d))"

definition capHit :: "compactorConfig \<Rightarrow> store \<Rightarrow> bool" where
  "capHit c s \<longleftrightarrow> MaxDeltaRows c > 0 \<and> int (DeltaRows s) \<ge> MaxDeltaRows c"

definition checkDue :: "compactor \<Rightarrow> store \<Rightarrow> bool" where
  "checkDue c s \<longleftrightarrow> \<not> isCapBlocked s \<and> (ratioHit (co_cfg c) s \<or> capHit (co_cfg c) s)"

text \<open>The clock readings of one compaction, and what the operating system answers to the save.\<close>

record env =
  e_t0 :: instant
  e_t1 :: instant
  e_t2 :: instant
  e_elapsed :: i64
  e_io :: io

definition compactAndSave :: "nat sort_fn \<Rightarrow> compactor \<Rightarrow> env \<Rightarrow> store \<times> fs \<Rightarrow> store \<times> fs" where
  "compactAndSave srt c en = (\<lambda>(s, f).
     case Compact srt s (e_t0 en) (e_t1 en) (e_t2 en) (e_elapsed en) of
       (Some e, s1) \<Rightarrow> (s1, f)
     | (None, s1) \<Rightarrow>
         if SnapshotPath (co_cfg c) = [] then (s1, f)
         else (let (r, s2, tr) = SaveSnapshot (e_io en) (SnapshotPath (co_cfg c)) s1 f in (s2, last tr)))"

text \<open>
  The \<open>select\<close> of \<open>Run\<close>: which of the ready channels it takes is not determined, so a run is
  given by the sequence of its choices; the compaction tick carries the clock reading of
  \<open>NeedsCompaction\<close>.
\<close>

datatype event = CtxDone | CheckTick env | CompactTick instant env

definition runOnce :: "nat sort_fn \<Rightarrow> compactor \<Rightarrow> event \<Rightarrow> store \<times> fs \<Rightarrow> (store \<times> fs) option" where
  "runOnce srt c ev st =
     (case ev of
        CtxDone \<Rightarrow> None
      | CheckTick en \<Rightarrow> Some (if checkDue c (fst st) then compactAndSave srt c en st else st)
      | CompactTick t en \<Rightarrow> Some (if NeedsCompaction (fst st) t then compactAndSave srt c en st else st))"

text \<open>The result is whether \<open>Run\<close> has returned, and the state.\<close>

fun Run :: "nat sort_fn \<Rightarrow> compactor \<Rightarrow> event list \<Rightarrow> store \<times> fs \<Rightarrow> bool \<times> store \<times> fs" where
  "Run srt c [] st = (False, st)"
| "Run srt c (ev # evs) st =
     (case runOnce srt c ev st of None \<Rightarrow> (True, st) | Some st1 \<Rightarrow> Run srt c evs st1)"

section \<open>The whole system\<close>

text \<open>
  The steps interleave: the host writes to the store and saves it at any time, also between the
  compaction and the save of one tick; the process dies at any time, also in the middle of a save, and
  starts again with an empty store and the files it left, from which the host may load.
\<close>

datatype phase = Waiting | Compacting | Saving

record sys =
  y_store :: store
  y_fs :: fs
  y_phase :: phase

inductive sys_step :: "nat sort_fn \<Rightarrow> compactor \<Rightarrow> sys \<Rightarrow> sys \<Rightarrow> bool" for srt c where
  host: "op_fits oper (y_store y) \<Longrightarrow> exec srt oper (y_store y) = (r, s) \<Longrightarrow>
    sys_step srt c y (y\<lparr>y_store := s\<rparr>)"
| load: "LoadSnapshot (y_store y) t (y_fs y (SnapshotPath (co_cfg c))) = (r, s) \<Longrightarrow>
    sys_step srt c y (y\<lparr>y_store := s\<rparr>)"
| check_tick: "y_phase y = Waiting \<Longrightarrow> checkDue c (y_store y) \<Longrightarrow>
    sys_step srt c y (y\<lparr>y_phase := Compacting\<rparr>)"
| compact_tick: "y_phase y = Waiting \<Longrightarrow> NeedsCompaction (y_store y) t \<Longrightarrow>
    sys_step srt c y (y\<lparr>y_phase := Compacting\<rparr>)"
| compact: "y_phase y = Compacting \<Longrightarrow> Compact srt (y_store y) t0 t1 t2 el = (r, s) \<Longrightarrow>
    sys_step srt c y (y\<lparr>y_store := s,
      y_phase := (if r = None \<and> SnapshotPath (co_cfg c) \<noteq> [] then Saving else Waiting)\<rparr>)"
| save: "y_phase y = Saving \<Longrightarrow> storable (v_base (sto_view (y_store y))) \<Longrightarrow> io_tmp io \<noteq> SnapshotPath (co_cfg c) \<Longrightarrow>
    SaveSnapshot io (SnapshotPath (co_cfg c)) (y_store y) (y_fs y) = (r, s, tr) \<Longrightarrow>
    sys_step srt c y (y\<lparr>y_store := s, y_fs := last tr, y_phase := Waiting\<rparr>)"
| host_save: "storable (v_base (sto_view (y_store y))) \<Longrightarrow> io_tmp io \<noteq> SnapshotPath (co_cfg c) \<Longrightarrow>
    SaveSnapshot io (SnapshotPath (co_cfg c)) (y_store y) (y_fs y) = (r, s, tr) \<Longrightarrow>
    sys_step srt c y (y\<lparr>y_store := s, y_fs := last tr\<rparr>)"
| crash: "New (sto_sc (y_store y)) (sto_cfg (y_store y)) = Inr s \<Longrightarrow>
    sys_step srt c y (y\<lparr>y_store := s, y_phase := Waiting\<rparr>)"
| crash_saving: "storable (v_base (sto_view (y_store y))) \<Longrightarrow>
    io_tmp io \<noteq> SnapshotPath (co_cfg c) \<Longrightarrow>
    SaveSnapshot io (SnapshotPath (co_cfg c)) (y_store y) (y_fs y) = (r, s, tr) \<Longrightarrow> f \<in> set tr \<Longrightarrow>
    New (sto_sc (y_store y)) (sto_cfg (y_store y)) = Inr s' \<Longrightarrow>
    sys_step srt c y (y\<lparr>y_store := s', y_fs := f, y_phase := Waiting\<rparr>)"

abbreviation sys_reach :: "nat sort_fn \<Rightarrow> compactor \<Rightarrow> sys \<Rightarrow> sys \<Rightarrow> bool" where
  "sys_reach srt c \<equiv> (sys_step srt c)\<^sup>*\<^sup>*"

text \<open>The invariant: a sound store, and at the path nothing or a complete snapshot.\<close>

definition file_good :: "schema \<Rightarrow> byte list option \<Rightarrow> bool" where
  "file_good sc x \<longleftrightarrow> (\<forall>b. x = Some b \<longrightarrow> (\<exists>snap. snap_ok sc snap \<and>
     (\<forall>d \<in> set (s_dicts snap). dlen d < 2 ^ 32) \<and> storable snap \<and> b = file_of (payload sc snap)))"

definition sys_ok :: "compactor \<Rightarrow> sys \<Rightarrow> bool" where
  "sys_ok c y \<longleftrightarrow> store_ok (y_store y) \<and> file_good (sto_sc (y_store y)) (y_fs y (SnapshotPath (co_cfg c)))"

lemma load_good:
  assumes s: "store_ok s" and g: "file_good (sto_sc s) x"
  shows "store_ok (snd (LoadSnapshot s t x))" "fst (LoadSnapshot s t x) \<noteq> Some ErrSnapshotFormat"
proof -
  have "store_ok (snd (LoadSnapshot s t x)) \<and> fst (LoadSnapshot s t x) \<noteq> Some ErrSnapshotFormat"
  proof (cases x)
    case None
    with s show ?thesis by (simp add: LoadSnapshot_def readSnapshotFile_def)
  next
    case (Some b)
    with g obtain snap where sn: "snap_ok (sto_sc s) snap" "\<forall>d \<in> set (s_dicts snap). dlen d < 2 ^ 32" "storable snap"
      "b = file_of (payload (sto_sc s) snap)" by (auto simp: file_good_def)
    have "fst (LoadSnapshot s t (Some b)) \<noteq> Some ErrSnapshotFormat"
      using Load_saved [OF sn(1-3) refl, of t] sn(4) by simp
    moreover have "store_ok (snd (LoadSnapshot s t (Some b)))"
      using Load_saved_ok [OF sn(1,2) s sn(3)] sn(4) by blast
    ultimately show ?thesis using Some by blast
  qed
  then show "store_ok (snd (LoadSnapshot s t x))" "fst (LoadSnapshot s t x) \<noteq> Some ErrSnapshotFormat" by blast+
qed

lemma save_good:
  assumes s: "store_ok s" and st: "storable (v_base (sto_view s))" and t: "io_tmp io \<noteq> path"
    and save: "SaveSnapshot io path s f0 = (r, s1, tr)" and f: "f \<in> set tr" and g: "file_good (sto_sc s) (f0 path)"
  shows "file_good (sto_sc s) (f path)"
  using write_states(2) [OF Save_frame(7) [OF save] t f] g base_readable(2,3) [OF s] st
  by (auto simp: file_good_def)

lemma write_trace_nonempty: "writeSnapshotFile io path sc snap f0 = (r, tr) \<Longrightarrow> tr \<noteq> []"
  by (auto simp: writeSnapshotFile_def Let_def split: if_splits)

lemma sys_step_ok:
  assumes step: "sys_step srt c y y'" and srt: "sorter srt" and ok: "sys_ok c y"
  shows "sys_ok c y' \<and> sto_sc (y_store y') = sto_sc (y_store y) \<and> sto_cfg (y_store y') = sto_cfg (y_store y)"
  using step
proof cases
  case (host oper r s)
  then show ?thesis using exec_ok [of "y_store y" oper srt] exec_frame [of srt oper "y_store y"] srt ok
    by (simp add: sys_ok_def)
next
  case (load t r s)
  then show ?thesis using load_good(1) [of "y_store y" _ t] ok LoadSnapshot_frame
    by (metis sys_ok_def snd_conv sys.select_convs(1,2) sys.surjective sys.update_convs(1))
next
  case (compact t0 t1 t2 el r s)
  then have "exec srt (OpCompact t0 t1 t2 el) (y_store y) = (r, s)" by (simp add: exec_def)
  then show ?thesis
    using exec_ok [of "y_store y" "OpCompact t0 t1 t2 el" srt] exec_frame [of srt "OpCompact t0 t1 t2 el" "y_store y"]
      srt ok compact by (simp add: sys_ok_def op_fits_def)
next
  case (save io r s tr)
  have "last tr \<in> set tr" using write_trace_nonempty [OF Save_frame(7) [OF save(5)]] by simp
  from save_good [OF _ save(3,4,5) this] show ?thesis
    using ok save Save_frame(1,2,5) [OF save(5)] by (simp add: sys_ok_def)
next
  case (host_save io r s tr)
  have "last tr \<in> set tr" using write_trace_nonempty [OF Save_frame(7) [OF host_save(4)]] by simp
  from save_good [OF _ host_save(2,3,4) this] show ?thesis
    using ok host_save Save_frame(1,2,5) [OF host_save(4)] by (simp add: sys_ok_def)
next
  case (crash s)
  then show ?thesis using ok New_ok [OF crash(2)] by (simp add: sys_ok_def)
next
  case (crash_saving io r s tr f s')
  from save_good [OF _ crash_saving(2-5)] show ?thesis
    using ok crash_saving New_ok [OF crash_saving(6)] by (simp add: sys_ok_def)
qed (use ok in \<open>simp_all add: sys_ok_def\<close>)

interpretation sys_run: preserved "sys_step srt c" "\<lambda>y. sorter srt \<and> sys_ok c y"
    "\<lambda>y. (sto_sc (y_store y), sto_cfg (y_store y))" for srt c
  by unfold_locales (use sys_step_ok in auto)

lemma sys_reach_ok:
  assumes "sys_reach srt c y y'" "sorter srt" "sys_ok c y"
  shows "sys_ok c y' \<and> sto_sc (y_store y') = sto_sc (y_store y) \<and> sto_cfg (y_store y') = sto_cfg (y_store y)"
  using sys_run.run_ok [OF assms(1)] assms(2,3) by simp

text \<open>The file at the path is the one of the start, or of a base that the store has held since.\<close>

lemma sys_step_file:
  assumes "sys_step srt c y y'"
  shows "y_fs y' (SnapshotPath (co_cfg c)) = y_fs y (SnapshotPath (co_cfg c)) \<or>
    y_fs y' (SnapshotPath (co_cfg c)) = Some (file_of (payload (sto_sc (y_store y)) (v_base (sto_view (y_store y)))))"
  using assms
proof cases
  case (save io r s tr)
  have "last tr \<in> set tr" using write_trace_nonempty [OF Save_frame(7) [OF save(5)]] by simp
  from write_states(2) [OF Save_frame(7) [OF save(5)] save(4) this] show ?thesis using save(1) by simp
next
  case (host_save io r s tr)
  have "last tr \<in> set tr" using write_trace_nonempty [OF Save_frame(7) [OF host_save(4)]] by simp
  from write_states(2) [OF Save_frame(7) [OF host_save(4)] host_save(3) this] show ?thesis using host_save(1) by simp
next
  case (crash_saving io r s tr f s')
  from write_states(2) [OF Save_frame(7) [OF crash_saving(4)] crash_saving(3,5)] show ?thesis
    using crash_saving(1) by simp
qed auto

lemma sys_reach_file:
  assumes "sys_reach srt c y y'"
  shows "y_fs y' (SnapshotPath (co_cfg c)) = y_fs y (SnapshotPath (co_cfg c)) \<or>
    (\<exists>y1. sys_reach srt c y y1 \<and> sys_reach srt c y1 y' \<and>
      y_fs y' (SnapshotPath (co_cfg c)) = Some (file_of (payload (sto_sc (y_store y1)) (v_base (sto_view (y_store y1))))))"
  using assms
proof (induction rule: rtranclp_induct)
  case (step y1 y2)
  from sys_step_file [OF step.hyps(2)] step show ?case
    by (metis (no_types, lifting) r_into_rtranclp rtranclp.rtrancl_into_rtrancl)
qed simp

section \<open>What a tick achieves\<close>

text \<open>A due tick empties the delta, or the failure of the compaction is counted.\<close>

lemma Compact_outcome:
  assumes "Compact srt s t0 t1 t2 el = (r, s1)"
  shows "r = None \<longrightarrow> DeltaRows s1 = 0 \<and> compactions (sto_st s1) = compactions (sto_st s) + 1"
    and "r \<noteq> None \<longrightarrow> sto_view s1 = sto_view s \<and> compactionFailures (sto_st s1) = compactionFailures (sto_st s) + 1"
proof -
  have n: "drows (v_delta (newView snap)) = 0" for snap by (simp add: newView_def emptyDelta_def drows_def)
  show "r = None \<longrightarrow> DeltaRows s1 = 0 \<and> compactions (sto_st s1) = compactions (sto_st s) + 1"
    and "r \<noteq> None \<longrightarrow> sto_view s1 = sto_view s \<and> compactionFailures (sto_st s1) = compactionFailures (sto_st s) + 1"
    using assms unfolding Compact_def Let_def
    by (auto simp: countFailure_def DeltaRows_def n split: sum.splits if_splits prod.splits)
qed

lemma compactAndSave_outcome:
  assumes "compactAndSave srt c en (s, f) = (s1, f1)"
  shows "(DeltaRows s1 = 0 \<and> compactions (sto_st s1) = compactions (sto_st s) + 1) \<or>
    (sto_view s1 = sto_view s \<and> compactionFailures (sto_st s1) = compactionFailures (sto_st s) + 1 \<and> f1 = f)"
proof -
  obtain r s2 where c: "Compact srt s (e_t0 en) (e_t1 en) (e_t2 en) (e_elapsed en) = (r, s2)" by force
  obtain r3 s3 tr where sv: "SaveSnapshot (e_io en) (SnapshotPath (co_cfg c)) s2 f = (r3, s3, tr)"
    by (metis prod_cases3)
  note o1 = Compact_outcome [OF c]
  have "DeltaRows s3 = DeltaRows s2" "compactions (sto_st s3) = compactions (sto_st s2)"
    using sv by (auto simp: SaveSnapshot_def DeltaRows_def split: prod.splits option.splits)
  then show ?thesis
    using assms c sv o1 by (cases r) (auto simp: compactAndSave_def split: if_splits)
qed

end
