(* ===== verification/Monitor.thy ===== *)
theory Monitor
  imports Store
begin

text \<open>
  What the monitoring operations of \<open>store.go\<close> and \<open>stats.go\<close> say about the table: \<open>IndexKeyBits\<close>
  of \<open>Stats\<close> bounds the keys of every compaction, \<open>NeedsCompaction\<close> tells whether a compaction
  would change the table, and no row is newer than \<open>SyncPosition\<close>.
\<close>

section \<open>Rows of the table and rows of the columns\<close>

lemma ran_table:
  assumes ok: "store_ok s"
  shows "ran (table s) = snd ` set (view_rows (sto_view s))"
proof -
  have v: "view_ok (sto_sc s) (sto_view s)" using ok by (rule store_okD)
  show ?thesis
    unfolding table_def ran_def abs_view_Some [OF v] using view_rows_ids_ok [OF v] by (force intro!: image_eqI)
qed

lemma ran_table_base:
  assumes ok: "store_ok s" and d: "DeltaRows s = 0"
  shows "ran (table s) = (\<lambda>r. snd (snap_row (v_base (sto_view s)) r)) ` {..<srows (v_base (sto_view s))}"
proof -
  let ?v = "sto_view s"
  have v: "view_ok (sto_sc s) ?v" using ok by (rule store_okD)
  have "\<not> bitGet (v_overridden ?v) r" if "r < srows (v_base ?v)" for r
    using view_okD(5) [OF v] d that by (simp add: over_ok_def DeltaRows_def)
  then have "base_rows ?v = map (snap_row (v_base ?v)) [0..<srows (v_base ?v)]"
    by (simp add: base_rows_def)
  then show ?thesis
    using d by (simp add: ran_table [OF ok] view_rows_def delta_rows_def DeltaRows_def image_image atLeast_upt)
qed

section \<open>\<open>Stats\<close>\<close>

lemma Stats_entries:
  assumes ok: "store_ok s"
  shows "o_DictEntries (Stats s) = map length (view_vals (sto_view s))"
    and "o_IndexKeyBits (Stats s) = sum_list (key_widths (map length (view_vals (sto_view s))) (idx_dims (sto_sc s)))"
proof -
  let ?v = "sto_view s" and ?sc = "sto_sc s"
  have v: "view_ok ?sc ?v" using ok by (rule store_okD)
  note len = view_ok_lengths [OF v]
  show ent: "o_DictEntries (Stats s) = map length (view_vals ?v)"
    using len by (auto simp: Stats_def Let_def view_vals_nth intro!: nth_equalityI)
  have idx: "int i < IndexDims ?sc \<longleftrightarrow> i < idx_dims ?sc" for i by (auto simp: idx_dims_def)
  have le: "idx_dims ?sc \<le> ndims ?sc" using snap_okD(1) [OF view_okD(1) [OF v]] by (rule schema_okD)
  have sum: "fold (\<lambda>i b. if i < k then b + f i else b) [0..<n] c = c + sum_list (map f [0..<min k n])" for f :: "nat \<Rightarrow> nat" and k n c
    by (induction n arbitrary: c) (auto simp: min_def not_less le_Suc_eq)
  have "o_IndexKeyBits (Stats s) = sum_list (map (\<lambda>i. dictBits (o_DictEntries (Stats s) ! i)) [0..<idx_dims ?sc])"
    using le by (simp add: Stats_def Let_def idx sum min_def)
  then show "o_IndexKeyBits (Stats s) = sum_list (key_widths (map length (view_vals ?v)) (idx_dims ?sc))"
    by (simp add: ent key_widths_def)
qed

text \<open>The live values of a compaction never need more bits than that.\<close>

lemma live_bits_Stats: "store_ok s \<Longrightarrow> live_bits (sto_sc s) ttl now (table s) \<le> o_IndexKeyBits (Stats s)"
  unfolding Stats_entries(2) table_def by (rule live_bits_le [OF store_okD(1)])

lemma Compact_no_overflow:
  assumes ok: "store_ok s" and srt: "sorter srt" and bits: "o_IndexKeyBits (Stats s) \<le> 64"
  shows "fst (Compact srt s t0 t1 t2 el) \<noteq> Some ErrKeyOverflow"
proof
  assume e: "fst (Compact srt s t0 t1 t2 el) = Some ErrKeyOverflow"
  have "\<not> live_bits (sto_sc s) c n (table s) > 64" for c n
    using live_bits_Stats [OF ok, of c n] bits by simp
  then show False
    using Compact_refines(2) [OF ok srt, of t1 t2 t0 el] e by (auto simp: spec_compact_def Let_def split: if_splits)
qed

section \<open>\<open>NeedsCompaction\<close>\<close>

text \<open>The cutoff that \<open>NeedsCompaction\<close> computes is that of \<open>ttlCutoff\<close> for a TTL of whole milliseconds.\<close>

lemma wrap64_diff: "wrap64 (wrap64 a - b) = wrap64 (a - b)"
  using signed_take_bit_diff [of 63 "signed_take_bit 63 a" b] signed_take_bit_diff [of 63 a b]
  by (simp add: wrap64_def)

lemma ttlCutoff_milli:
  assumes "0 < TTL (sto_cfg s)" "TTL (sto_cfg s) mod 1000000 = 0"
  shows "ttlCutoff s t = wrap64 (unix_milli t - milliseconds (TTL (sto_cfg s)))"
proof -
  obtain k where k: "TTL (sto_cfg s) = k * 1000000" using assms(2) by (metis mod_0_imp_dvd dvd_def mult.commute)
  have "(t - k * 1000000 - unix_epoch) div 1000000 = (t - unix_epoch) div 1000000 - k"
    by (simp add: algebra_simps)
  then show ?thesis
    using assms(1) k by (simp add: ttlCutoff_def unix_milli_def milliseconds_def wrap64_diff)
qed

lemma min_exp_mem: "fold min_exp_step es m \<in> insert m (set es)"
proof (induction es arbitrary: m)
  case (Cons e es)
  have "min_exp_step e m \<in> {m, e}" by (simp add: min_exp_step_def)
  with Cons [of "min_exp_step e m"] show ?case by auto
qed simp

text \<open>With an empty delta, the answer is whether the table holds a row that a compaction drops.\<close>

lemma NeedsCompaction_base:
  assumes ok: "store_ok s" and d: "DeltaRows s = 0" and ms: "TTL (sto_cfg s) mod 1000000 = 0"
    and pos: "\<forall>row \<in> ran (table s). 0 < a_upd row"
  shows "NeedsCompaction s t \<longleftrightarrow> (\<exists>row \<in> ran (table s). \<not> keep_row (ttlCutoff s t) (unix_milli t) row)"
proof -
  let ?b = "v_base (sto_view s)"
  have sn: "snap_ok (sto_sc s) ?b" using view_okD(1) [OF store_okD(1) [OF ok]] .
  have len: "length (s_expire ?b) = length (s_updated ?b)" using rows_okD(5) [OF snap_okD(4) [OF sn]] .
  have n: "srows ?b = length (s_updated ?b)" by (simp add: srows_def)
  note ran = ran_table_base [OF ok d]
  have upd: "a_upd ` ran (table s) = set (s_updated ?b)" "a_exp ` ran (table s) = set (s_expire ?b)"
    unfolding ran image_image n by (auto simp: snap_row_def set_conv_nth len)
  have old: "0 < TTL (sto_cfg s) \<and> s_minUpdated ?b \<noteq> 0 \<and> s_minUpdated ?b < ttlCutoff s t \<longleftrightarrow>
      (\<exists>row \<in> ran (table s). a_upd row < ttlCutoff s t)"
  proof -
    have p: "\<forall>u \<in> set (s_updated ?b). 0 < u" using pos unfolding upd(1) [symmetric] by blast
    have m: "s_minUpdated ?b = fold min_upd_step (s_updated ?b) 0" using snap_okD(6) [OF sn] by (simp add: minmax_ok_def)
    have "0 < TTL (sto_cfg s) \<and> s_minUpdated ?b \<noteq> 0 \<and> s_minUpdated ?b < ttlCutoff s t \<longleftrightarrow>
        (\<exists>u \<in> set (s_updated ?b). u < ttlCutoff s t)"
    proof (cases "s_updated ?b = []")
      case False
      have "Min (set (s_updated ?b)) \<in> set (s_updated ?b)" using False by simp
      then have nz: "Min (set (s_updated ?b)) \<noteq> 0" using p by force
      have "s_minUpdated ?b \<noteq> 0 \<and> (s_minUpdated ?b < ttlCutoff s t \<longleftrightarrow> (\<exists>u \<in> set (s_updated ?b). u < ttlCutoff s t))"
        unfolding m min_upd_fold [OF p False] using nz Min_less_iff [of "set (s_updated ?b)"] False by simp
      moreover have "0 < TTL (sto_cfg s)" if "u \<in> set (s_updated ?b)" "u < ttlCutoff s t" for u
        using p that by (fastforce simp: ttlCutoff_def split: if_splits)
      ultimately show ?thesis by blast
    qed (simp add: m)
    then show ?thesis unfolding upd(1) [symmetric] by blast
  qed
  have exp: "s_minExpire ?b \<noteq> 0 \<and> s_minExpire ?b \<le> unix_milli t \<longleftrightarrow>
      (\<exists>row \<in> ran (table s). rowExpired (a_exp row) (unix_milli t))"
  proof -
    have m: "s_minExpire ?b = fold min_exp_step (s_expire ?b) 0" using snap_okD(6) [OF sn] by (simp add: minmax_ok_def)
    have "s_minExpire ?b \<noteq> 0 \<and> s_minExpire ?b \<le> unix_milli t \<longleftrightarrow> (\<exists>e \<in> set (s_expire ?b). e \<noteq> 0 \<and> e \<le> unix_milli t)"
      using min_exp_mem [of "s_expire ?b" 0] min_exp_fold(1) [of "s_expire ?b" 0]
        min_exp_fold(2) [of _ "s_expire ?b" 0] unfolding m by fastforce
    then show ?thesis unfolding upd(2) [symmetric] rowExpired_def by blast
  qed
  have cut: "s_minUpdated ?b < wrap64 (unix_milli t - milliseconds (TTL (sto_cfg s))) \<longleftrightarrow> s_minUpdated ?b < ttlCutoff s t"
    if "0 < TTL (sto_cfg s)"
    using ttlCutoff_milli [OF that ms] by simp
  have "NeedsCompaction s t \<longleftrightarrow>
      (0 < TTL (sto_cfg s) \<and> s_minUpdated ?b \<noteq> 0 \<and> s_minUpdated ?b < ttlCutoff s t) \<or>
      (s_minExpire ?b \<noteq> 0 \<and> s_minExpire ?b \<le> unix_milli t)"
    using d cut by (auto simp: NeedsCompaction_def Let_def DeltaRows_def)
  then show ?thesis unfolding old exp keep_row_def by blast
qed

text \<open>So it is whether a compaction at that moment changes the table.\<close>

lemma NeedsCompaction_changes:
  assumes ok: "store_ok s" and srt: "sorter srt" and d: "DeltaRows s = 0" and ms: "TTL (sto_cfg s) mod 1000000 = 0"
    and pos: "\<forall>row \<in> ran (table s). 0 < a_upd row" and c: "Compact srt s t t t el = (None, s1)"
  shows "NeedsCompaction s t \<longleftrightarrow> table s1 \<noteq> table s"
proof -
  have "table s1 = survivors (ttlCutoff s t) (unix_milli t) (table s)"
    using Compact_refines(2) [OF ok srt, of t t t el] c by (auto simp: spec_compact_def Let_def split: sum.splits if_splits)
  moreover have "survivors c n A \<noteq> A \<longleftrightarrow> (\<exists>row \<in> ran A. \<not> keep_row c n row)" for c n and A :: "dval list \<rightharpoonup> arow"
    by (auto simp: survivors_def fun_eq_iff ran_def split: option.splits)
  ultimately show ?thesis by (simp add: NeedsCompaction_base [OF ok d ms pos])
qed

section \<open>\<open>SyncPosition\<close>\<close>

text \<open>No row of the table is newer than the position.\<close>

lemma SyncPosition_bound:
  assumes ok: "store_ok s" and row: "row \<in> ran (table s)"
  shows "a_upd row \<le> view_maxUpdated (sto_view s)"
proof -
  let ?v = "sto_view s"
  have v: "view_ok (sto_sc s) ?v" using ok by (rule store_okD)
  have le: "u \<in> set us \<Longrightarrow> u \<le> fold max us m" "m \<le> fold max us m" for u :: int and us m
    by (induction us arbitrary: m) (auto intro: order_trans [OF max.cobounded1] order_trans [OF max.cobounded2])
  have "s_updated (v_base ?v) ! r \<le> s_maxUpdated (v_base ?v)" if "r < srows (v_base ?v)" for r
    using snap_okD(6) [OF view_okD(1) [OF v]] that le(1) by (simp add: minmax_ok_def srows_def)
  moreover have "d_updated (v_delta ?v) ! r \<le> d_maxUpdated (v_delta ?v)" if "r < drows (v_delta ?v)" for r
    using view_okD(6) [OF v] that by (simp add: delta_times_ok_def drows_def)
  ultimately have "a_upd (snd x) \<le> max (s_maxUpdated (v_base ?v)) (d_maxUpdated (v_delta ?v))" if "x \<in> set (view_rows ?v)" for x
    using that by (auto simp: view_rows_def base_rows_def delta_rows_def snap_row_def delta_row_def le_max_iff_disj)
  then have "a_upd row \<le> max (s_maxUpdated (v_base ?v)) (d_maxUpdated (v_delta ?v))"
    using row unfolding ran_table [OF ok] by blast
  then show ?thesis by (simp add: view_maxUpdated_def max_def split: if_splits)
qed

end
