(* ===== verification/Samples.thy ===== *)
theory Samples
  imports Answers Compactor Monitor
begin

text \<open>
  Concrete inputs on which the properties are applied: a schema with a string dimension
  \<open>src\<close> (the index prefix), an integer dimension \<open>day\<close> and one metric, a store with a row
  cap of two, and a few records at given times.
\<close>

definition sc0 :: schema where
  "sc0 = \<lparr>Dims = [\<lparr>dimName = ''src'', dimType = DimString\<rparr>, \<lparr>dimName = ''day'', dimType = DimInt\<rparr>],
          IndexDims = 1, Metrics = [''n'']\<rparr>"

definition cfg0 :: config where
  "cfg0 = \<lparr>TTL = 0, MaxRows = 2, MaxScanRows = 0, DictCompactInterval = 0\<rparr>"

definition at_milli :: "int \<Rightarrow> instant" where
  "at_milli ms = unix_epoch + ms * 1000000"

definition mk :: "string \<Rightarrow> string \<Rightarrow> int \<Rightarrow> int \<Rightarrow> rec" where
  "mk src day m ms = \<lparr>rDims = [src, day], rMetrics = [f_of_int m], UpdatedAt = at_milli ms, ExpireAt = 0\<rparr>"

definition recs0 :: "rec list" where
  "recs0 = [mk ''b'' ''01'' 1 1000, mk ''a'' ''2'' 2 1000, mk ''b'' ''1'' 3 2000]"

definition store0 :: store where
  "store0 = \<lparr>sto_sc = sc0, sto_cfg = cfg0, sto_view = newView (emptySnapshot sc0), sto_st = zeroStats,
             sto_capBlocked = False, sto_lastDictCompact = 0\<rparr>"

definition store1 :: store where
  "store1 = snd (Apply store0 recs0 0)"

lemma sc0_ok: "schema_ok sc0"
  by code_simp

lemma New0: "New sc0 cfg0 = Inr store0"
proof -
  have "validate sc0 = None" by code_simp
  then show ?thesis by (simp add: New_def store0_def)
qed

lemma store0_ok: "store_ok store0"
  using New_ok [OF New0] by blast

lemma room0: "m < 2 ^ 32 \<Longrightarrow> room (sto_sc store0) (sto_view store0) m"
  by (rule room_New [OF New0])

lemma store1_ok: "store_ok store1"
  unfolding store1_def by (rule Apply_refines(2) [OF store0_ok room0]) (simp add: recs0_def)

lemma store1_sc: "sto_sc store1 = sc0" "sto_capBlocked store1 = False"
  by (simp_all add: store1_def Apply_frame store0_def)

lemma store1_cutoff: "ttlCutoff store1 t = 0"
  by (simp add: ttlCutoff_def store1_def Apply_frame store0_def cfg0_def)

lemma view1_ok: "view_ok sc0 (sto_view store1)"
  using store_okD(1) [OF store1_ok] by (simp add: store1_sc)

lemma room1: "m < 1000 \<Longrightarrow> room (sto_sc store1) (sto_view store1) m"
  unfolding store1_def by (intro Apply_room [OF store0_ok] room0) (simp add: recs0_def)

text \<open>The insertion sort stands for \<open>slices.SortFunc\<close>.\<close>

definition srt0 :: "nat sort_fn" where
  "srt0 = insertion_sort_cmp"

lemma srt0: "sorter srt0"
  unfolding srt0_def by (rule insertion.sorter_axioms)

definition store2 :: store where
  "store2 = snd (Compact srt0 store1 (at_milli 5000) 0 0 0)"

lemma store2_ok: "store_ok store2"
  unfolding store2_def by (rule Compact_refines(1) [OF store1_ok srt0])


section \<open>Queries\<close>

definition isrt0 :: "iv sort_fn" where
  "isrt0 = insertion_sort_cmp"

lemma isrt0: "sorter isrt0"
  unfolding isrt0_def by (rule insertion.sorter_axioms)

text \<open>\<open>src = "b"\<close>, or \<open>day\<close> in the range 2 to 9.\<close>

definition g0 :: "cond list" where
  "g0 = [\<lparr>c_dim = ''src'', c_value = ''b'', c_in = [], c_range = None\<rparr>]"

definition g1 :: "cond list" where
  "g1 = [\<lparr>c_dim = ''day'', c_value = [], c_in = [], c_range = Some (2, 9)\<rparr>,
         \<lparr>c_dim = ''src'', c_value = [], c_in = [''c'', ''a''], c_range = None\<rparr>]"

definition gs0 :: "cond list list" where
  "gs0 = [g0, g1]"

definition aggs0 :: "agg list" where
  "aggs0 = [\<lparr>g_metric = [], g_dim = [], g_op = AggCount\<rparr>, \<lparr>g_metric = ''n'', g_dim = [], g_op = AggSum\<rparr>,
            \<lparr>g_metric = [], g_dim = ''day'', g_op = AggDistinct\<rparr>, \<lparr>g_metric = ''n'', g_dim = [], g_op = AggMax\<rparr>]"

definition pool0 :: caps where
  "pool0 = \<lparr>k_plans = 0, k_ivs = 0, k_condDims = 0, k_condIDs = 0, k_inWins = 0, k_inPool = 0, k_rWins = 0,
            k_mets = 0, k_ddims = 0, k_acc = 0, k_bms = 0\<rparr>"

text \<open>The two tuples of the table: \<open>b, 1\<close> holds 3 and \<open>a, 2\<close> holds 2.\<close>

lemma store1_rows: "map fst (answer_rows store1 9000 gs0) = [[VStr ''b'', VInt 1], [VStr ''a'', VInt 2]]"
  by code_simp

lemma store1_few: "length (answer_rows store1 (unix_milli (at_milli 9000)) gs0) \<le> 2 ^ 32"
proof -
  have "unix_milli (at_milli 9000) = 9000" by (simp add: unix_milli_def at_milli_def wrap64_id i64_ok_def)
  then show ?thesis using arg_cong [OF store1_rows, of length] by simp
qed


lemma table1: "table store1 = map_of
    [([VStr ''b'', VInt 1], \<lparr>a_mets = [0x4008000000000000], a_upd = 2000, a_exp = 0\<rparr>),
     ([VStr ''a'', VInt 2], \<lparr>a_mets = [0x4000000000000000], a_upd = 1000, a_exp = 0\<rparr>)]"
proof -
  have "map (\<lambda>(is, row). (decode (view_vals (sto_view store1)) is, row)) (view_rows (sto_view store1)) =
    [([VStr ''b'', VInt 1], \<lparr>a_mets = [0x4008000000000000], a_upd = 2000, a_exp = 0\<rparr>),
     ([VStr ''a'', VInt 2], \<lparr>a_mets = [0x4000000000000000], a_upd = 1000, a_exp = 0\<rparr>)]"
    by code_simp
  then show ?thesis by (simp add: table_def abs_view_def)
qed

lemma table1_times: "table store1 key = Some row \<Longrightarrow> 0 \<le> a_upd row"
  by (auto simp: table1 split: if_splits)

text \<open>The metric as an integer.\<close>

definition val0 :: "dval list \<Rightarrow> int" where
  "val0 key = (if key = [VStr ''b'', VInt 1] then 3 else 2)"

lemma floats: "f_of_int 3 = 0x4008000000000000" "f_of_int 2 = 0x4000000000000000"
  by code_simp+

lemma table1_ints: "table store1 key = Some row \<Longrightarrow> a_mets row ! 0 = f_of_int (val0 key) \<and> 0 \<le> val0 key"
  by (auto simp: table1 val0_def floats split: if_splits)

lemma visible1: "sum val0 (visible_keys store1 now gs) < 2 ^ 53"
proof -
  have "dom (table store1) = {[VStr ''b'', VInt 1], [VStr ''a'', VInt 2]}" by (auto simp: table1)
  then have "visible_keys store1 now gs \<subseteq> {[VStr ''b'', VInt 1], [VStr ''a'', VInt 2]}"
    by (auto simp: visible_keys_def)
  then have "sum val0 (visible_keys store1 now gs) \<le> sum val0 {[VStr ''b'', VInt 1], [VStr ''a'', VInt 2]}"
    by (intro sum_mono2) (auto simp: val0_def)
  then show ?thesis by (simp add: val0_def)
qed

section \<open>Files\<close>

lemma compact1: "Compact srt0 store1 (at_milli 5000) 0 0 0 = (None, store2)"
proof -
  have "fst (Compact srt0 store1 (at_milli 5000) 0 0 0) = None" by code_simp
  then show ?thesis by (simp add: store2_def prod_eq_iff)
qed

lemma store2_storable: "storable (v_base (sto_view store2))"
proof -
  have "map strs (s_dicts (v_base (sto_view store2))) = [[''b'', ''a''], []]" "srows (v_base (sto_view store2)) = 2"
    by code_simp+
  moreover from this(1) have "strs d \<in> {[''b'', ''a''], []}" if "d \<in> set (s_dicts (v_base (sto_view store2)))" for d
    using that by (metis empty_set image_eqI list.simps(15) set_map)
  ultimately show ?thesis by (fastforce simp: storable_def)
qed

definition io0 :: io where
  "io0 = \<lparr>io_tmp = ''.olsnap-1'', io_create = True, io_flush = None, io_tail = None, io_sync = True,
          io_close = True, io_rename = True, io_remove = True\<rparr>"

text \<open>A disk that fills up after 40 bytes.\<close>

definition io1 :: io where
  "io1 = io0\<lparr>io_flush := Some 40\<rparr>"

definition store3 :: store where
  "store3 = fst (snd (SaveSnapshot io0 ''t.snap'' store2 Map.empty))"

lemma save2: "SaveSnapshot io0 ''t.snap'' store2 Map.empty =
    (None, store3, snd (snd (SaveSnapshot io0 ''t.snap'' store2 Map.empty)))"
proof -
  have "fst (writeSnapshotFile io0 ''t.snap'' (sto_sc store2) (v_base (sto_view store2)) Map.empty) = None"
    by (simp add: write_ok io_ok_def io0_def)
  then show ?thesis by (simp add: store3_def prod_eq_iff SaveSnapshot_def split: prod.splits option.splits)
qed

section \<open>The system\<close>

definition compactor0 :: compactor where
  "compactor0 = NewCompactor \<lparr>CheckInterval = 0, CompactInterval = 0, DeltaRatio = 0, MaxDeltaRows = 1,
     SnapshotPath = ''t.snap''\<rparr>"

definition sys0 :: sys where
  "sys0 = \<lparr>y_store = store1, y_fs = Map.empty, y_phase = Waiting\<rparr>"

definition sys1 :: sys where
  "sys1 = sys0\<lparr>y_phase := Compacting\<rparr>"

definition sys2 :: sys where
  "sys2 = sys1\<lparr>y_store := store2, y_phase := Saving\<rparr>"

lemma check_due1: "checkDue compactor0 store1"
  by code_simp

lemma path0: "SnapshotPath (co_cfg compactor0) = ''t.snap''"
  by code_simp

lemma sys0_ok: "sys_ok compactor0 sys0"
  by (simp add: sys_ok_def sys0_def store1_ok file_good_def)

lemma sys_steps: "sys_reach srt0 compactor0 sys0 sys2"
proof -
  have "sys_step srt0 compactor0 sys0 sys1"
    unfolding sys1_def by (rule check_tick) (simp_all add: sys0_def check_due1)
  moreover have "sys_step srt0 compactor0 sys1 sys2"
    using compact [of sys1 srt0 "at_milli 5000" 0 0 0 None store2 compactor0] compact1
    by (simp add: sys2_def sys1_def sys0_def path0)
  ultimately show ?thesis by (meson converse_rtranclp_into_rtranclp rtranclp.rtrancl_refl)
qed


text \<open>The host of this run applies a batch and compacts.\<close>

lemma store2_reach: "reach srt0 store0 store2"
proof -
  have "exec srt0 (OpApply recs0 0) store0 = (fst (Apply store0 recs0 0), store1)"
    by (simp add: exec_def store1_def)
  moreover have "op_fits (OpApply recs0 0) store0" using room0 by (simp add: op_fits_def recs0_def)
  ultimately have "writer_step srt0 store0 store1" by (rule write_op [rotated])
  moreover have "exec srt0 (OpCompact (at_milli 5000) 0 0 0) store1 = (None, store2)"
    using compact1 by (simp add: exec_def)
  then have "writer_step srt0 store1 store2" by (intro write_op) (simp_all add: op_fits_def)
  ultimately show ?thesis by (meson converse_rtranclp_into_rtranclp rtranclp.rtrancl_refl)
qed

section \<open>More states\<close>

lemma apply0_ok: "fst (Apply store0 recs0 0) = None"
  by code_simp

definition blocked1 :: store where
  "blocked1 = store1\<lparr>sto_capBlocked := True\<rparr>"

lemma blocked1_ok: "store_ok blocked1"
  using store1_ok by (simp add: blocked1_def store_ok_def Rows_def)

lemma blocked1_room: "room (sto_sc blocked1) (sto_view blocked1) (length recs0)"
  using room1 [of "length recs0"] by (simp add: blocked1_def recs0_def)

lemma store1_ttl: "TTL (sto_cfg store1) \<le> 0" and store1_unbounded: "MaxScanRows (sto_cfg store1) \<le> 0"
  by (simp_all add: store1_def Apply_frame store0_def cfg0_def)

lemma milli5: "unix_milli (at_milli 5000) \<le> 9000"
  by code_simp

lemma gs0_errs: "group_errs (sto_sc store1) gs0 = {}"
proof -
  have "\<forall>c \<in> set (concat gs0). cond_err sc0 c = None" by code_simp
  then show ?thesis by (simp add: group_errs_def store1_sc)
qed

text \<open>The answers of two queries over these groups.\<close>

definition summed1 :: "f64 list \<times> store" where
  "summed1 = (case QueryGroups isrt0 store1 gs0 (at_milli 9000) pool0 of
     Some (Inr dst, s1) \<Rightarrow> (dst, s1) | _ \<Rightarrow> ([], store1))"

lemma summed1: "QueryGroups isrt0 store1 gs0 (at_milli 9000) pool0 = Some (Inr (fst summed1), snd summed1)"
  using QueryGroups_total [OF store1_ok isrt0 _ gs0_errs store1_unbounded, of "at_milli 9000" pool0]
  by (auto simp: summed1_def gs0_def)

definition counted1 :: "f64 list \<times> store" where
  "counted1 = (case QueryAggs isrt0 store1 aggs0 gs0 (at_milli 9000) pool0 of
     Some (Inr dst, s1) \<Rightarrow> (dst, s1) | _ \<Rightarrow> ([], store1))"

lemma counted1: "QueryAggs isrt0 store1 aggs0 gs0 (at_milli 9000) pool0 = Some (Inr (fst counted1), snd counted1)"
proof -
  have "first_err sc0 aggs0 = None" "aggs0 \<noteq> []" by code_simp+
  then show ?thesis
    using QueryAggs_total [OF store1_ok isrt0 _ gs0_errs store1_unbounded, of aggs0 "at_milli 9000" pool0]
    by (auto simp: counted1_def gs0_def store1_sc)
qed

lemma store2_sc: "sto_sc store2 = sc0"
  using exec_frame [of srt0 "OpCompact (at_milli 5000) 0 0 0" store1] compact1 by (simp add: exec_def store1_sc)

lemma view2_ok: "view_ok sc0 (sto_view store2)"
  using store_okD(1) [OF store2_ok] by (simp add: store2_sc)

lemma snap2_ok: "snap_ok sc0 (v_base (sto_view store2))"
  using view2_ok by (rule view_okD)

lemma snap2_facts: "map dlen (s_dicts (v_base (sto_view store2))) = [2, 2]" "srows (v_base (sto_view store2)) = 2"
  by code_simp+

lemma snap2_dict: "dlen (s_dicts (v_base (sto_view store2)) ! 0) = 2"
  by code_simp

lemma view1_card: "length (view_vals (sto_view store1) ! 1) = 2"
  by code_simp

definition loaded2 :: "err option \<times> store" where
  "loaded2 = LoadSnapshot store0 9 (last (snd (snd (SaveSnapshot io0 ''t.snap'' store2 Map.empty))) ''t.snap'')"

lemma store2_readable: "readable sc0 (v_base (sto_view store2))"
  using base_readable(1) [OF store2_ok] by (simp add: store2_sc)

lemma read2: "readSnapshotFile sc0 0 (Some (file_of (payload sc0 (v_base (sto_view store2))))) = Inr (v_base (sto_view store2))"
  using read_written [OF store2_readable store2_storable, of 0] by simp

text \<open>A save on the full disk over an older file.\<close>

definition failed1 :: "err option \<times> fs list" where
  "failed1 = writeSnapshotFile io1 ''t.snap'' sc0 (emptySnapshot sc0) [''t.snap'' \<mapsto> [7]]"

lemma failed1_nonempty: "snd failed1 \<noteq> []"
  using write_trace_nonempty [of io1 "''t.snap''" sc0 "emptySnapshot sc0" "[''t.snap'' \<mapsto> [7]]"]
  by (metis failed1_def prod.collapse)

lemma tmp1: "io_tmp io1 = ''.olsnap-1''"
  by (simp add: io1_def io0_def)

definition env0 :: env where
  "env0 = \<lparr>e_t0 = at_milli 5000, e_t1 = 0, e_t2 = 0, e_elapsed = 0, e_io = io1\<rparr>"

definition ticked1 :: "store \<times> fs" where
  "ticked1 = compactAndSave srt0 compactor0 env0 (store1, Map.empty)"

lemma tick_rows: "DeltaRows store1 = 2" "MaxDeltaRows (co_cfg compactor0) = 1"
  by code_simp+

text \<open>Workspaces.\<close>

definition scratch0 :: queryScratch where
  "scratch0 = fast"

lemma scratch_g1:
  "cond_room g1 (routeScratch pool0 [g1] 0)"
  "length (q_ivs (routeScratch pool0 [g1] 0)) + 1 + 0 \<le> k_ivs (q_caps (routeScratch pool0 [g1] 0))"
  "length (q_condIDs (routeScratch pool0 [g1] 0)) = length (q_condDims (routeScratch pool0 [g1] 0))"
  using routeScratch_room [of "[g1]" pool0 0] by (simp_all add: plan_room_def fresh_def)

lemma room_gs0: "plan_room gs0 (routeScratch pool0 gs0 0)"
  using routeScratch_room by blast

lemma sc0_idx: "idx_dims sc0 = 1" and sc0_ndims: "ndims sc0 = 2"
  by code_simp+

lemma shifts48: "computeShifts [4, 8] 2 = Inr [3, 0]"
  by code_simp

lemma ids48: "ids_within [4, 8] 2 [2, 5]" "ids_within [4, 8] 2 [3, 0]"
  by (auto simp: ids_within_def dest!: less_2_cases)

definition row0 :: arow where
  "row0 = rec_row (mk ''b'' ''1'' 3 2000)"

lemma admits0: "admits (sto_sc store0) (ttlCutoff store0 0) (zip [0..<length recs0] recs0) [VStr ''b'', VInt 1] row0"
proof -
  have "list_ex (\<lambda>(n, rc). canon_dims (sto_sc store0) n rc [0..<ndims (sto_sc store0)] = Inr [VStr ''b'', VInt 1] \<and>
      row0 = rec_row rc \<and> \<not> unix_milli (UpdatedAt rc) < ttlCutoff store0 0) (zip [0..<length recs0] recs0)"
    by code_simp
  then show ?thesis by (simp add: admits_def list_ex_iff)
qed

text \<open>A record from before 1970.\<close>

definition rec1 :: rec where
  "rec1 = mk ''c'' ''3'' 1 (- 1)"

lemma rec1_facts: "length (rDims rec1) = ndims sc0" "length (rMetrics rec1) = nmets sc0" "unix_milli (UpdatedAt rec1) < 0"
  by code_simp+

section \<open>Monitoring\<close>

lemma store2_delta: "DeltaRows store2 = 0"
  by code_simp

lemma store2_ttl: "TTL (sto_cfg store2) = 0"
  by code_simp

lemma store2_times: "\<forall>row \<in> ran (table store2). 0 < a_upd row"
proof -
  have "list_all (\<lambda>x. 0 < a_upd (snd x)) (view_rows (sto_view store2))" by code_simp
  then show ?thesis by (simp add: ran_table [OF store2_ok] list_all_iff)
qed

lemma compact2: "Compact srt0 store2 (at_milli 9000) (at_milli 9000) (at_milli 9000) 0 =
    (None, snd (Compact srt0 store2 (at_milli 9000) (at_milli 9000) (at_milli 9000) 0))"
proof -
  have "fst (Compact srt0 store2 (at_milli 9000) (at_milli 9000) (at_milli 9000) 0) = None" by code_simp
  then show ?thesis by (simp add: prod_eq_iff)
qed

lemma bits1: "o_IndexKeyBits (Stats store1) \<le> 64"
  by code_simp

end
