(* ===== verification/Observations.thy ===== *)
theory Observations
  imports Samples
begin

text \<open>
  Corners of the code where it does something other than its comments and documents say, each
  as a lemma on the definitions of the model.
\<close>

section \<open>The wrapped column number of a distinct key\<close>

text \<open>
  \<open>dkey\<close> keeps the column as a \<open>uint8\<close>: with more than 256 columns, two distinct columns over
  one dimension whose numbers differ by 256 share their keys, and the later one misses every
  value that the earlier one has just counted.
\<close>

lemma updCol_collides:
  assumes d: "0 \<le> ddims ! j" "ddims ! (j + 256) = ddims ! j"
  shows "updCol aggs mets ddims g dimID met (j + 256) (updCol aggs mets ddims g dimID met j st) =
    updCol aggs mets ddims g dimID met j st"
proof -
  have "(256 :: byte) = 0" by simp
  then have c: "(of_nat (j + 256) :: byte) = of_nat j" unfolding of_nat_add by simp
  show ?thesis using d by (cases st) (auto simp: updCol_def Let_def c simp del: of_nat_add)
qed

section \<open>Zero as a sentinel\<close>

text \<open>
  An \<open>ExpireAt\<close> of exactly the Unix epoch is stored as 0, which means that the row never
  expires, although the record is a tombstone.
\<close>

lemma expireMilli_epoch:
  "\<not> is_zero unix_epoch \<and> expireMilli unix_epoch = 0 \<and> \<not> rowExpired (expireMilli unix_epoch) now"
  by (simp add: is_zero_def unix_epoch_def expireMilli_def rowExpired_def unix_milli_def wrap64_id i64_ok_def)

text \<open>A row updated at the epoch is forgotten by the running minimum as soon as another follows.\<close>

lemma trackMin_epoch: "0 < u \<Longrightarrow> s_minUpdated (trackMin (trackMin s 0 0) u 0) = (if s_minUpdated s < 0 then s_minUpdated s else u)"
  by (auto simp: trackMin_def Let_def)

text \<open>
  A cutoff of 0 stands for no TTL, but it is still compared with: without a TTL, a record whose
  \<open>UpdatedAt\<close> is before 1970, the zero time included, is dropped silently.
\<close>

lemma Apply_before_1970:
  assumes ok: "store_ok s" and room: "room (sto_sc s) (sto_view s) 1" and ttl: "TTL (sto_cfg s) \<le> 0"
    and rc: "length (rDims rc) = ndims (sto_sc s)" "length (rMetrics rc) = nmets (sto_sc s)"
    and old: "unix_milli (UpdatedAt rc) < 0"
  shows "fst (Apply s [rc] t) = None \<and> table (snd (Apply s [rc] t)) = table s \<and>
    droppedOverCap (sto_st (snd (Apply s [rc] t))) = droppedOverCap (sto_st s)"
proof -
  have "ttlCutoff s t = 0" using ttl by (simp add: ttlCutoff_def)
  then have "spec_apply (sto_sc s) (table s) [rc] (ttlCutoff s t) (sto_capBlocked s) = Inr (table s, 0)"
    using rc old by (simp add: spec_apply_def spec_rec_def)
  then show ?thesis using Apply_refines(1) [OF ok, of "[rc]" t] room by simp
qed

section \<open>Schemas with the same fingerprint\<close>

text \<open>
  The fingerprint ends every name with a zero byte but does not escape one within a name: two
  different schemas with as many columns can share it, and then each reads the other's files.
\<close>

definition sc_ab_c :: schema where
  "sc_ab_c = \<lparr>Dims = [\<lparr>dimName = [CHR ''a'', CHR 0x00, CHR ''b''], dimType = DimString\<rparr>,
                      \<lparr>dimName = ''c'', dimType = DimString\<rparr>], IndexDims = 1, Metrics = [''n'']\<rparr>"

definition sc_a_bc :: schema where
  "sc_a_bc = \<lparr>Dims = [\<lparr>dimName = ''a'', dimType = DimString\<rparr>,
                      \<lparr>dimName = [CHR ''b'', CHR 0x00, CHR ''c''], dimType = DimString\<rparr>], IndexDims = 1, Metrics = [''n'']\<rparr>"

lemma fingerprint_ambiguous:
  "validate sc_ab_c = None" "validate sc_a_bc = None"
  "map dimName (Dims sc_ab_c) \<noteq> map dimName (Dims sc_a_bc)"
  "fingerprint sc_ab_c = fingerprint sc_a_bc"
proof -
  show "validate sc_ab_c = None" "validate sc_a_bc = None" by code_simp+
  show "map dimName (Dims sc_ab_c) \<noteq> map dimName (Dims sc_a_bc)" by (simp add: sc_ab_c_def sc_a_bc_def)
  have "fingerprint_bytes sc_ab_c = fingerprint_bytes sc_a_bc" by code_simp
  then show "fingerprint sc_ab_c = fingerprint sc_a_bc" by (simp add: fingerprint_def)
qed

section \<open>Negative zero\<close>

text \<open>
  \<open>QueryGroupBy\<close> starts a sum with the first value of the group, \<open>QueryGroups\<close> and
  \<open>QueryAggs\<close> with 0: over a single row that holds negative zero they differ in the sign bit.
\<close>

lemma negative_zero_sum:
  "sum_rows 1 [([], \<lparr>a_mets = [0x8000000000000000], a_upd = 0, a_exp = 0\<rparr>)] = [0]"
  by code_simp

end
