(* ===== verification/Spec2Isabelle.thy ===== *)
theory Spec2Isabelle
  imports Observations
begin

text \<open>
  A model of facetta, an embedded in-memory aggregation table written in Go (package
  \<open>facetta\<close>, all files directly under \<open>src/\<close>), and the theorems that make it correct.

  The program. A \<^emph>\<open>store\<close> holds one table: rows are tuples of dimension values with metrics, a
  time of update and an optional expiry. It publishes a \<^emph>\<open>view\<close>, an immutable columnar base plus a
  delta overlay. \<open>Apply\<close> upserts a batch into a copy of the delta; \<open>Compact\<close> merges base and
  delta into a new base; \<open>ReplaceAll\<close> rebuilds the base from a full dump. Queries plan groups of
  conditions (an OR of ANDs) into row intervals over the sorted packed keys of the base, sweep
  these and the delta, and fold the matching rows into sums, aggregates or groups. A base is saved
  to and loaded from a checksummed file; a compactor runs compactions and saves by a policy.

  The theories, in the order of the imports.

  \<^item> \<open>Prelude\<close>, \<open>Golib\<close>, \<open>Crc\<close>, \<open>Float64\<close>, \<open>FloatInt\<close>: shared lemmas; sorting and binary search as
    interfaces (locale \<open>sorter\<close> for \<open>slices.SortFunc\<close> and \<open>sort.Slice\<close>); \<open>strconv\<close>, times,
    byte encodings, FNV-1a, CRC-32C, IEEE 754 addition, multiplication, division and comparison on
    bit patterns, and the exactness of integers below \<open>2 ^ 53\<close>.
  \<^item> \<open>Schema\<close> (\<open>schema.go\<close>), \<open>Dict\<close> (\<open>dict.go\<close>; locale \<open>interning\<close>), \<open>Keys\<close> (packed keys of
    \<open>snapshot.go\<close>), \<open>Snapshot\<close> (the base and its invariant \<open>snap_ok\<close>), \<open>View\<close> (\<open>view.go\<close>; the
    invariant \<open>view_ok\<close> and the abstraction \<open>abs_view\<close> from a view to a map of value tuples).
  \<^item> \<open>Apply\<close> (\<open>applyDelta\<close>), \<open>Build\<close> (\<open>buildFromRecords\<close>), \<open>Merge\<close> (\<open>mergeView\<close>, with and without
    renumbering): each with its specification on tables and the refinement.
  \<^item> \<open>Store\<close> (\<open>store.go\<close>, \<open>stats.go\<close>): the writers and statistics, \<open>store_ok\<close>, and \<open>reach\<close>, the
    stores that a sequence of operations leads to; \<open>Monitor\<close>: what \<open>Stats\<close>, \<open>NeedsCompaction\<close> and
    \<open>SyncPosition\<close> say about the table.
  \<^item> \<open>Scratch\<close> (\<open>scratch.go\<close>), \<open>Plan\<close> and \<open>Query\<close> (\<open>query.go\<close>): the workspace, the planner, the
    matchers and the sweep; \<open>Matching\<close>, \<open>Prefix\<close>, \<open>Planning\<close>, \<open>Expand\<close>, \<open>PlanSound\<close>, \<open>Sweep\<close>: what
    conditions mean on values, that plans match exactly that, that the intervals cover it, that
    no pool overflows, and that the sweep visits each row once.
  \<^item> \<open>Agg\<close>, \<open>AggSound\<close> (\<open>agg.go\<close>), \<open>GroupBy\<close>, \<open>GroupSound\<close> (\<open>groupby.go\<close>): aggregates and groups,
    and what they compute on a list of rows; \<open>Answers\<close>: the query entry points on the table.
  \<^item> \<open>Persist\<close> (\<open>persist.go\<close>), \<open>PersistSound\<close> (locale \<open>codec\<close>, round trips, what an
    accepted file satisfies), \<open>FileFormat\<close> (locale \<open>exact_codec\<close>, exactly which files are accepted and
    why others are rejected), \<open>PersistIO\<close> (the file system during a save, the results of a load).
  \<^item> \<open>Compactor\<close> (\<open>compactor.go\<close>): the policy, the loop of \<open>Run\<close>, and \<open>sys_step\<close>, the steps of the
    whole system of host, compactor, saves of either, loads and crashes at any time.
  \<^item> \<open>Samples\<close>: concrete inputs on which the properties are applied; \<open>Observations\<close>: corners where
    the code departs from its comments.

  State and operations. Structs are records with the fields of the source; \<open>int64\<close> is an integer
  with the wrap-around written out (\<open>wrap64\<close>), \<open>uint32\<close> and \<open>uint64\<close> are words, \<open>float64\<close> its bit
  pattern (comparison and equality are those of IEEE 754; a NaN result is the quiet NaN, whatever
  payload the hardware would propagate). Slices are lists, maps are maps; the errors of the source
  are the constructors of \<open>err\<close> with what their messages print. Writers hold the mutex from start to
  end and publish one pointer, so an execution is a sequence of operations; a query works on the
  view it has loaded. Clock readings are arguments, one per call of \<open>s.now()\<close> or \<open>time.Now()\<close>, so a
  theorem holds whatever the clock does between two calls. Sorting is any function that returns a
  sorted permutation; what the operating system answers to a save and the name of the temporary file
  are arguments (record \<open>io\<close>), and a rename is atomic. The \<open>int32\<close> offsets of plans and intervals
  are naturals.

  Bounds. \<open>room\<close> says that a batch does not bring a dictionary to \<open>2 ^ 32\<close> values, where the ids
  would wrap; it is a hypothesis on \<open>Apply\<close>, and dumps have less than \<open>2 ^ 32\<close> records. A file to be written is \<open>storable\<close>: its lengths fit the fields
  of the format. The workspace of a query has fixed capacities; a reslice beyond one is a run-time
  panic (\<open>Inl Panic\<close>) and the theorems show that none happens. The expansion of IN conditions has the
  number of combinations as fuel, and \<open>expansion\<close> shows that it is exactly enough: \<open>None\<close>, the value
  for a loop that has not ended, is never the result of a query. Every other loop is structural
  or over a list of known length.

  The lemmas. Each component has an invariant that its operations keep, a specification that they
  refine (tables for the writers, lists of rows for the queries, the identity for a file), and
  lemmas for each error. The properties below are in six groups: what queries answer, what the
  writers do to the table, what files and the compactor guarantee, the planning and the sweep
  behind a query, the parts a view is made of, and where the code departs from its documents.

  Not modelled: the scheduling within an operation (the mutex and the atomic pointer make
  operations atomic; the memory model of Go is not described), the timing of the tickers of \<open>Run\<close>
  (any sequence of ticks is allowed), which workspace \<open>sync.Pool\<close> hands out (any capacities are
  allowed) and what the collector frees, allocation, the wrapping of error messages, the buffer
  \<open>kb\<close> that \<open>QueryGroupBy\<close> reuses for its keys, and the durability of a rename across a power cut
  (the code does not sync the directory). A query that fails leaves the caller's buffer as it was.
  The tick of the compactor reads the store at one moment. In \<open>sys_step\<close> a save is one step: it
  loads the view once and no other step reads the path while it runs, except for a crash, which leaves
  the files at any moment of the save; two saves at the same time do not overlap. \<open>Query\<close> is \<open>QueryGroups\<close> with
  the groups as arguments. Tests, benchmarks and documents under \<open>src/\<close> are not part of the program.
\<close>

section \<open>Queries\<close>

text \<open>C1: \<open>Store.QueryGroups\<close> always returns, changes nothing of the store but its counters, and either fails
with an error of the groups or a refusal by the scan budget, or returns, for every metric, the sum
over \<open>answer_rows\<close> in their order (base before delta). The next property says which rows these are.\<close>

theorem query_groups:
  assumes "store_ok s"
    and "sorter srt"
  shows "\<exists>res s1. QueryGroups srt s gs t pool = Some (res, s1) \<and> stats_only s s1 \<and>
    (case res of
       Inl e \<Rightarrow> query_fails s gs e s1
     | Inr dst \<Rightarrow> gs \<noteq> [] \<and> refused s s1 = 0 \<and>
         dst = sum_rows (nmets (sto_sc s)) (answer_rows s (unix_milli t) gs))"
  using assms by (rule QueryGroups_answer)

theorem query_groups_witness:
  "\<exists>res s1. QueryGroups isrt0 store1 gs0 0 pool0 = Some (res, s1) \<and> stats_only store1 s1 \<and>
    (case res of
       Inl e \<Rightarrow> query_fails store1 gs0 e s1
     | Inr dst \<Rightarrow> gs0 \<noteq> [] \<and> refused store1 s1 = 0 \<and>
         dst = sum_rows (nmets (sto_sc store1)) (answer_rows store1 (unix_milli 0) gs0))"
  by (rule query_groups [OF store1_ok isrt0])

text \<open>C2: Every count that \<open>QueryAggs\<close> returns is the number of tuples of the table that have not expired at
the reading of the clock and that satisfy some group: each is counted once, however many groups and
intervals it matches and however many base and delta rows stand for it. Every distinct count is the
number of values that these tuples have in its dimension.\<close>

theorem query_counts:
  assumes "store_ok s"
    and "sorter srt"
    and "QueryAggs srt s aggs gs t pool = Some (Inr dst, s1)"
    and "i < length aggs"
    and "g_op (aggs ! i) = AggCount \<or> g_op (aggs ! i) = AggDistinct"
  shows "dst ! i = f_of_int (int
      (if g_op (aggs ! i) = AggCount then card (visible_keys s (unix_milli t) gs)
       else card ((\<lambda>key. key ! the (dimIndex (sto_sc s) (g_dim (aggs ! i)))) ` visible_keys s (unix_milli t) gs)))"
  by (rule QueryAggs_counts [OF assms])

theorem query_counts_witness:
  "(fst counted1) ! 2 = f_of_int (int
      (if g_op (aggs0 ! 2) = AggCount then card (visible_keys store1 (unix_milli (at_milli 9000)) gs0)
       else card ((\<lambda>key. key ! the (dimIndex (sto_sc store1) (g_dim (aggs0 ! 2)))) ` visible_keys store1 (unix_milli (at_milli 9000)) gs0)))"
  by (rule query_counts [OF store1_ok isrt0 counted1]) (simp_all add: aggs0_def)

text \<open>C3: \<open>Store.QueryAggs\<close> always returns, and either fails (no aggregate, the first invalid aggregate,
an error of the groups, or the scan budget) or returns every aggregate of the rows: the count, the
sum, the quotient, the extremum and the number of different values of the dimension, with \<open>NaN\<close>
for a minimum, maximum or average of no row.\<close>

theorem query_aggs:
  assumes "store_ok s"
    and "sorter srt"
  shows "\<exists>res s1. QueryAggs srt s aggs gs t pool = Some (res, s1) \<and> stats_only s s1 \<and>
    (case res of
       Inl e \<Rightarrow> (if aggs = [] then e = ErrBadAggCount
          else case first_err (sto_sc s) aggs of Some e' \<Rightarrow> e = e' | None \<Rightarrow> query_fails s gs e s1)
     | Inr dst \<Rightarrow> aggs \<noteq> [] \<and> first_err (sto_sc s) aggs = None \<and> gs \<noteq> [] \<and>
         dst = map (agg_spec (sto_sc s) (answer_rows s (unix_milli t) gs)) aggs)"
  using assms by (rule QueryAggs_answer)

theorem query_aggs_witness:
  "\<exists>res s1. QueryAggs isrt0 store1 aggs0 gs0 0 pool0 = Some (res, s1) \<and> stats_only store1 s1 \<and>
    (case res of
       Inl e \<Rightarrow> (if aggs0 = [] then e = ErrBadAggCount
          else case first_err (sto_sc store1) aggs0 of Some e' \<Rightarrow> e = e' | None \<Rightarrow> query_fails store1 gs0 e s1)
     | Inr dst \<Rightarrow> aggs0 \<noteq> [] \<and> first_err (sto_sc store1) aggs0 = None \<and> gs0 \<noteq> [] \<and>
         dst = map (agg_spec (sto_sc store1) (answer_rows store1 (unix_milli 0) gs0)) aggs0)"
  by (rule query_aggs [OF store1_ok isrt0])

text \<open>C4: \<open>Store.QueryGroupBy\<close>, for at most 256 columns and \<open>2 ^ 32\<close> rows (where the \<open>uint8\<close> column and
the \<open>int32\<close> group of a \<open>dkey\<close> do not wrap), always returns and either fails as specified or
fills the result with one entry per combination of the by-dimensions that occurs among the rows,
sorted strictly by the key strings, with the aggregates of that part of the rows.\<close>

theorem query_group_by:
  assumes "store_ok s"
    and "sorter isrt"
    and "sorter srt"
    and "length aggs \<le> 256"
    and "length (answer_rows s (unix_milli t) gs) \<le> 2 ^ 32"
  shows "\<exists>out s1. QueryGroupBy isrt srt s (Some res) by aggs gs t pool = Some (out, s1) \<and> stats_only s s1 \<and>
    (case out of
       Inl e \<Rightarrow> (case gb_err (sto_sc s) by aggs of Some e' \<Rightarrow> e = e' | None \<Rightarrow> query_fails s gs e s1)
     | Inr r \<Rightarrow> gb_err (sto_sc s) by aggs = None \<and> gs \<noteq> [] \<and>
         grouped (sto_sc s) (by_dims (sto_sc s) by) aggs (answer_rows s (unix_milli t) gs) r)"
  using assms by (rule QueryGroupBy_answer)

theorem query_group_by_witness:
  "\<exists>out s1. QueryGroupBy isrt0 srt0 store1 (Some zeroResult) [''day''] aggs0 gs0 (at_milli 9000) pool0 = Some (out, s1) \<and> stats_only store1 s1 \<and>
    (case out of
       Inl e \<Rightarrow> (case gb_err (sto_sc store1) [''day''] aggs0 of Some e' \<Rightarrow> e = e' | None \<Rightarrow> query_fails store1 gs0 e s1)
     | Inr r \<Rightarrow> gb_err (sto_sc store1) [''day''] aggs0 = None \<and> gs0 \<noteq> [] \<and>
         grouped (sto_sc store1) (by_dims (sto_sc store1) [''day'']) aggs0 (answer_rows store1 (unix_milli (at_milli 9000)) gs0) r)"
  by (rule query_group_by [OF store1_ok isrt0 srt0 _ store1_few]) (simp add: aggs0_def)

text \<open>C5: The floating-point sums that \<open>QueryGroups\<close> returns are exact on integers: where a metric holds
non-negative integers whose total over the matching unexpired tuples of the table stays below
\<open>2 ^ 53\<close>, the result for that metric is the float of that total, whatever the order of the rows
and wherever they are held.\<close>

theorem integer_sums:
  assumes "store_ok s"
    and "sorter srt"
    and "QueryGroups srt s gs t pool = Some (Inr dst, s1)"
    and "m < nmets (sto_sc s)"
    and "\<And>key row. table s key = Some row \<Longrightarrow> a_mets row ! m = f_of_int (val key) \<and> 0 \<le> val key"
    and "sum val (visible_keys s (unix_milli t) gs) < 2 ^ 53"
  shows "dst ! m = f_of_int (sum val (visible_keys s (unix_milli t) gs))"
  by (rule QueryGroups_sums [OF assms])

theorem integer_sums_witness:
  "(fst summed1) ! 0 = f_of_int (sum val0 (visible_keys store1 (unix_milli (at_milli 9000)) gs0))"
  by (rule integer_sums [OF store1_ok isrt0 summed1 _ table1_ints visible1]) (simp_all add: store1_sc sc0_def)

text \<open>C6: A query over at least one group, with no erroneous condition and no scan budget, always answers:
the workspace that the routing picks is large enough for every plan.\<close>

theorem query_total:
  assumes "store_ok s"
    and "sorter srt"
    and "gs \<noteq> []"
    and "group_errs (sto_sc s) gs = {}"
    and "MaxScanRows (sto_cfg s) \<le> 0"
  shows "\<exists>dst s1. QueryGroups srt s gs t pool = Some (Inr dst, s1)"
  using assms by (rule QueryGroups_total)

theorem query_total_witness:
  "\<exists>dst s1. QueryGroups isrt0 store1 gs0 0 pool0 = Some (Inr dst, s1)"
  by (rule query_total [OF store1_ok isrt0]) (simp_all add: gs0_errs store1_unbounded, simp add: gs0_def)

section \<open>The store\<close>

text \<open>C7: \<open>Store.Apply\<close> implements the batch upsert on the table the store stands for: it fails with
exactly the error of the specification and then changes nothing, and otherwise the new table
is the specified one and the statistics count the records that the row cap dropped.\<close>

theorem apply_refines:
  assumes "store_ok s"
    and "room (sto_sc s) (sto_view s) (length recs)"
  shows "case spec_apply (sto_sc s) (table s) recs (ttlCutoff s t) (sto_capBlocked s) of
      Inl e \<Rightarrow> Apply s recs t = (Some e, s)
    | Inr (A, k) \<Rightarrow> fst (Apply s recs t) = None \<and> table (snd (Apply s recs t)) = A \<and>
        droppedOverCap (sto_st (snd (Apply s recs t))) = droppedOverCap (sto_st s) + of_nat k"
  using assms by (rule Apply_refines(1))

theorem apply_refines_witness:
  "case spec_apply (sto_sc store1) (table store1) recs0 (ttlCutoff store1 5) (sto_capBlocked store1) of
      Inl e \<Rightarrow> Apply store1 recs0 5 = (Some e, store1)
    | Inr (A, k) \<Rightarrow> fst (Apply store1 recs0 5) = None \<and> table (snd (Apply store1 recs0 5)) = A \<and>
        droppedOverCap (sto_st (snd (Apply store1 recs0 5))) = droppedOverCap (sto_st store1) + of_nat k"
  by (rule apply_refines [OF store1_ok room1]) (simp add: recs0_def)

text \<open>C8: \<open>Store.Compact\<close>, whether or not it renumbers and whether or not it retries, behaves as the
specification on tables at the cutoff of one of its two clock readings: it keeps exactly the
rows that are neither past the TTL nor expired, it reports \<open>ErrKeyOverflow\<close> only where the
values of the surviving rows do not fit the key, \<open>ErrRowLimit\<close> only where the survivors exceed
the cap, and an error leaves the table as it was.\<close>

theorem compact_refines:
  assumes "store_ok s"
    and "sorter srt"
  shows "\<exists>c \<in> {ttlCutoff s t1, ttlCutoff s t2}.
    case spec_compact (sto_sc s) (sto_cfg s) c (unix_milli t0) (table s) of
       Inl e \<Rightarrow> fst (Compact srt s t0 t1 t2 elapsed) = Some e \<and>
         table (snd (Compact srt s t0 t1 t2 elapsed)) = table s \<and>
         sto_capBlocked (snd (Compact srt s t0 t1 t2 elapsed)) = (sto_capBlocked s \<or> e \<noteq> ErrKeyOverflow)
     | Inr A \<Rightarrow> fst (Compact srt s t0 t1 t2 elapsed) = None \<and>
         table (snd (Compact srt s t0 t1 t2 elapsed)) = A \<and>
         \<not> sto_capBlocked (snd (Compact srt s t0 t1 t2 elapsed)) \<and>
         DeltaRows (snd (Compact srt s t0 t1 t2 elapsed)) = 0"
  using assms by (rule Compact_refines(2))

theorem compact_refines_witness:
  "\<exists>c \<in> {ttlCutoff store1 8, ttlCutoff store1 9}.
    case spec_compact (sto_sc store1) (sto_cfg store1) c (unix_milli 7) (table store1) of
       Inl e \<Rightarrow> fst (Compact srt0 store1 7 8 9 1) = Some e \<and>
         table (snd (Compact srt0 store1 7 8 9 1)) = table store1 \<and>
         sto_capBlocked (snd (Compact srt0 store1 7 8 9 1)) = (sto_capBlocked store1 \<or> e \<noteq> ErrKeyOverflow)
     | Inr A \<Rightarrow> fst (Compact srt0 store1 7 8 9 1) = None \<and>
         table (snd (Compact srt0 store1 7 8 9 1)) = A \<and>
         \<not> sto_capBlocked (snd (Compact srt0 store1 7 8 9 1)) \<and>
         DeltaRows (snd (Compact srt0 store1 7 8 9 1)) = 0"
  by (rule compact_refines [OF store1_ok srt0])

text \<open>C9: \<open>Store.ReplaceAll\<close> makes the table the newest unexpired record of every tuple of the dump, and
clears the cap block and the delta; where it fails, with an error of a record, a key overflow or
the row cap, the table stays as it was.\<close>

theorem replace_refines:
  assumes "store_ok s"
    and "sorter srt"
    and "length recs < 2 ^ 32"
  shows "case fst (ReplaceAll srt s recs t1 t2) of
       Some e \<Rightarrow> table (snd (ReplaceAll srt s recs t1 t2)) = table s \<and>
         (spec_stage (sto_sc s) (ttlCutoff s t1) (zip [0..<length recs] recs) = Inl e \<or>
          e = ErrKeyOverflow \<or> (\<exists>n. e = ErrRowLimit n (MaxRows (sto_cfg s)) \<and> overCap (sto_cfg s) n \<and>
            sto_capBlocked (snd (ReplaceAll srt s recs t1 t2))))
     | None \<Rightarrow> \<exists>es. spec_stage (sto_sc s) (ttlCutoff s t1) (zip [0..<length recs] recs) = Inr es \<and>
         build_of es (unix_milli t2) (table (snd (ReplaceAll srt s recs t1 t2))) \<and>
         \<not> sto_capBlocked (snd (ReplaceAll srt s recs t1 t2)) \<and> DeltaRows (snd (ReplaceAll srt s recs t1 t2)) = 0"
  using assms by (rule ReplaceAll_refines(2))

theorem replace_refines_witness:
  "case fst (ReplaceAll srt0 store1 recs0 0 0) of
       Some e \<Rightarrow> table (snd (ReplaceAll srt0 store1 recs0 0 0)) = table store1 \<and>
         (spec_stage (sto_sc store1) (ttlCutoff store1 0) (zip [0..<length recs0] recs0) = Inl e \<or>
          e = ErrKeyOverflow \<or> (\<exists>n. e = ErrRowLimit n (MaxRows (sto_cfg store1)) \<and> overCap (sto_cfg store1) n \<and>
            sto_capBlocked (snd (ReplaceAll srt0 store1 recs0 0 0))))
     | None \<Rightarrow> \<exists>es. spec_stage (sto_sc store1) (ttlCutoff store1 0) (zip [0..<length recs0] recs0) = Inr es \<and>
         build_of es (unix_milli 0) (table (snd (ReplaceAll srt0 store1 recs0 0 0))) \<and>
         \<not> sto_capBlocked (snd (ReplaceAll srt0 store1 recs0 0 0)) \<and> DeltaRows (snd (ReplaceAll srt0 store1 recs0 0 0)) = 0"
  by (rule replace_refines [OF store1_ok srt0]) (simp add: recs0_def)

text \<open>C10: Whatever sequence of \<open>Apply\<close>, \<open>Compact\<close> and \<open>ReplaceAll\<close> runs, successful or not, the store
stays well-formed (the dictionaries are bijective, every id has a value, the keys are the sorted
packed prefixes, tuples are unique, the index and the bitmap agree with the rows) and its base
stays within the row cap.\<close>

theorem store_invariant:
  assumes "reach srt s s1"
    and "sorter srt"
    and "store_ok s"
  shows "store_ok s1 \<and> view_ok (sto_sc s) (sto_view s1) \<and> \<not> overCap (sto_cfg s) (Rows s1)"
  using reach_ok [OF assms] store_okD by metis

theorem store_invariant_witness:
  "store_ok store2 \<and> view_ok (sto_sc store0) (sto_view store2) \<and> \<not> overCap (sto_cfg store0) (Rows store2)"
  by (rule store_invariant [OF store2_reach srt0 store0_ok])

text \<open>C11: After a successful \<open>Apply\<close> without a cap block, every record that the batch admits has a row in
the table at least as recent, no tuple is lost or moved back in time, and every row is an old one
or an admitted record: replaying a batch or receiving it late does no harm.\<close>

theorem apply_converges:
  assumes "store_ok s"
    and "room (sto_sc s) (sto_view s) (length recs)"
    and "\<not> sto_capBlocked s"
    and "fst (Apply s recs t) = None"
  shows "(\<forall>key row. admits (sto_sc s) (ttlCutoff s t) (zip [0..<length recs] recs) key row \<longrightarrow>
      (\<exists>new. table (snd (Apply s recs t)) key = Some new \<and> a_upd row \<le> a_upd new)) \<and>
    (\<forall>key old. table s key = Some old \<longrightarrow>
      (\<exists>new. table (snd (Apply s recs t)) key = Some new \<and> a_upd old \<le> a_upd new)) \<and>
    (\<forall>key new. table (snd (Apply s recs t)) key = Some new \<longrightarrow>
      table s key = Some new \<or> admits (sto_sc s) (ttlCutoff s t) (zip [0..<length recs] recs) key new)"
  using Apply_converges [OF assms] by blast

theorem apply_converges_witness:
  "\<exists>new. table (snd (Apply store0 recs0 0)) [VStr ''b'', VInt 1] = Some new \<and> a_upd row0 \<le> a_upd new"
  proof -
  have "length recs0 < 2 ^ 32" "\<not> sto_capBlocked store0" by (simp_all add: recs0_def store0_def)
  from apply_converges [OF store0_ok room0 [OF this(1)] this(2) apply0_ok] admits0 show ?thesis by blast
qed

text \<open>C12: While the store is blocked by the row cap, \<open>Apply\<close> updates tuples that the table holds and lets
no other in.\<close>

theorem apply_blocked:
  assumes "store_ok s"
    and "room (sto_sc s) (sto_view s) (length recs)"
    and "sto_capBlocked s"
  shows "dom (table (snd (Apply s recs t))) = dom (table s)"
  using assms by (rule Apply_blocked)

theorem apply_blocked_witness:
  "dom (table (snd (Apply blocked1 recs0 5))) = dom (table blocked1)"
  by (rule apply_blocked [OF blocked1_ok blocked1_room]) (simp add: blocked1_def)

text \<open>C13: A successful compaction is invisible to queries, although it rewrites, renumbers and reorders the
rows: a query answers from the same rows after it as before, each once. The conditions are that no
row of the table was updated before the TTL cutoff that the compaction takes at \<open>t1\<close>, or at \<open>t2\<close>
in its retry (without a TTL the cutoff is 0, so that no row may be from before 1970, as a loaded file
may hold one), and that the clock of the query is not behind the reading \<open>t0\<close> of the compaction.\<close>

theorem compact_visible:
  assumes "store_ok s"
    and "sorter srt"
    and "Compact srt s t0 t1 t2 el = (None, s1)"
    and "\<And>key row. table s key = Some row \<Longrightarrow> ttlCutoff s t1 \<le> a_upd row \<and> ttlCutoff s t2 \<le> a_upd row"
    and "unix_milli t0 \<le> now"
  shows "mset (answer_rows s1 now gs) = mset (answer_rows s now gs)"
  using assms by (rule Compact_visible(1))

theorem compact_visible_witness:
  "mset (answer_rows store2 9000 gs0) = mset (answer_rows store1 9000 gs0)"
  by (rule compact_visible [OF store1_ok srt0 compact1]) (simp_all add: store1_cutoff table1_times milli5)

text \<open>C14: On a store without delta rows (with them it always answers yes), \<open>NeedsCompaction\<close> answers from
the two minima of the base whether a compaction at that moment would change the table, for a TTL
of whole milliseconds and times of update after 1970.\<close>

theorem needs_compaction:
  assumes "store_ok s"
    and "sorter srt"
    and "DeltaRows s = 0"
    and "TTL (sto_cfg s) mod 1000000 = 0"
    and "\<forall>row \<in> ran (table s). 0 < a_upd row"
    and "Compact srt s t t t el = (None, s1)"
  shows "NeedsCompaction s t \<longleftrightarrow> table s1 \<noteq> table s"
  using assms by (rule NeedsCompaction_changes)

theorem needs_compaction_witness:
  "NeedsCompaction store2 (at_milli 9000) \<longleftrightarrow> table (snd (Compact srt0 store2 (at_milli 9000) (at_milli 9000) (at_milli 9000) 0)) \<noteq> table store2"
  by (rule needs_compaction [OF store2_ok srt0 store2_delta _ store2_times compact2]) (simp add: store2_ttl)

text \<open>C15: The \<open>IndexKeyBits\<close> that \<open>Stats\<close> reports are an upper bound on the key of every compaction: while
they stay within 64, no compaction fails with \<open>ErrKeyOverflow\<close>, whatever its clock readings.\<close>

theorem key_bits:
  assumes "store_ok s"
    and "sorter srt"
    and "o_IndexKeyBits (Stats s) \<le> 64"
  shows "fst (Compact srt s t0 t1 t2 el) \<noteq> Some ErrKeyOverflow"
  using assms by (rule Compact_no_overflow)

theorem key_bits_witness:
  "fst (Compact srt0 store1 1 2 3 4) \<noteq> Some ErrKeyOverflow"
  by (rule key_bits [OF store1_ok srt0 bits1])

section \<open>Snapshot files and the compactor\<close>

text \<open>C16: A base that one store saves is what another store of the same schema loads, through the bytes of
the file: the same table with an empty delta, unless the file is past the TTL of the loading store
or exceeds its row cap, which are reported as such.\<close>

theorem save_load:
  assumes "store_ok s"
    and "storable (v_base (sto_view s))"
    and "SaveSnapshot io path s fs0 = (None, s1, tr)"
    and "sto_sc s2 = sto_sc s"
    and "LoadSnapshot s2 t (last tr path) = (r, s3)"
  shows "if 0 < ttlCutoff s2 t \<and> s_maxUpdated (v_base (sto_view s)) < ttlCutoff s2 t then r = Some ErrSnapshotStale
    else if overCap (sto_cfg s2) (Rows s) then r = Some (ErrRowLimit (Rows s) (MaxRows (sto_cfg s2)))
    else r = None \<and> table s3 = base_table s \<and> Rows s3 = Rows s \<and> DeltaRows s3 = 0 \<and> \<not> sto_capBlocked s3"
  by (rule load_after_save [OF assms])

theorem save_load_witness:
  "if 0 < ttlCutoff store0 9 \<and> s_maxUpdated (v_base (sto_view store2)) < ttlCutoff store0 9 then (fst loaded2) = Some ErrSnapshotStale
    else if overCap (sto_cfg store0) (Rows store2) then (fst loaded2) = Some (ErrRowLimit (Rows store2) (MaxRows (sto_cfg store0)))
    else (fst loaded2) = None \<and> table (snd loaded2) = base_table store2 \<and> Rows (snd loaded2) = Rows store2 \<and> DeltaRows (snd loaded2) = 0 \<and> \<not> sto_capBlocked (snd loaded2)"
  by (rule save_load [OF store2_ok store2_storable save2]) (simp_all add: store2_sc store0_def loaded2_def)

text \<open>C17: The reader gives back exactly the snapshot that the writer encoded, dictionaries, recomputed keys
and minima included, or reports it as stale.\<close>

theorem file_roundtrip:
  assumes "readable sc s"
    and "storable s"
  shows "readSnapshotFile sc ttl (Some (file_of (payload sc s))) =
    (if ttl > 0 \<and> s_maxUpdated s < ttl then Inl ErrSnapshotStale else Inr s)"
  using assms by (rule read_written)

theorem file_roundtrip_witness:
  "readSnapshotFile sc0 (1500 :: i64) (Some (file_of (payload sc0 (v_base (sto_view store2))))) =
    (if (1500 :: i64) > 0 \<and> s_maxUpdated (v_base (sto_view store2)) < (1500 :: i64) then Inl ErrSnapshotStale else Inr (v_base (sto_view store2)))"
  by (rule file_roundtrip [OF store2_readable store2_storable])

text \<open>C18: Whatever the bytes, a snapshot that the reader accepts satisfies the invariant of a base, with the
exception of the two checks it does not make: that no two rows carry the same tuple and that the
position of an empty file is zero.\<close>

theorem read_invariant:
  assumes "schema_ok sc"
    and "readSnapshotFile sc ttl data = Inr s"
  shows "readable sc s \<and> \<not> (ttl > 0 \<and> s_maxUpdated s < ttl) \<and>
    (snap_ok sc s \<longleftrightarrow> distinct (map (row_of (s_dims s)) [0..<srows s]) \<and> (srows s = 0 \<longrightarrow> s_maxUpdated s = 0))"
  using read_readable [OF assms(2)] snap_ok_readable [OF assms(1), of s] by (auto simp: readable_def)

theorem read_invariant_witness:
  "readable sc0 (v_base (sto_view store2)) \<and> \<not> ((0 :: i64) > 0 \<and> s_maxUpdated (v_base (sto_view store2)) < (0 :: i64)) \<and>
    (snap_ok sc0 (v_base (sto_view store2)) \<longleftrightarrow> distinct (map (row_of (s_dims (v_base (sto_view store2)))) [0..<srows (v_base (sto_view store2))]) \<and> (srows (v_base (sto_view store2)) = 0 \<longrightarrow> s_maxUpdated (v_base (sto_view store2)) = 0))"
  by (rule read_invariant [OF sc0_ok read2])

text \<open>C19: Changing any one byte of a file, in the body or in the trailing checksum, makes the reader reject
it as invalid: the step of the checksum is a bijection.\<close>

theorem one_wrong_byte:
  assumes "i < length (file_of body)"
    and "b \<noteq> file_of body ! i"
  shows "readSnapshotFile sc ttl (Some ((file_of body)[i := b])) = Inl ErrSnapshotFormat"
  using assms by (rule wrong_byte)

theorem one_wrong_byte_witness:
  "readSnapshotFile sc0 0 (Some ((file_of [1, 2, 3])[5 := (file_of [1, 2, 3] ! 5 + 1)])) = Inl ErrSnapshotFormat"
  by (rule one_wrong_byte) (simp_all add: file_of_def)

text \<open>C20: At every moment of a save, wherever it fails or is cut off, the file at the path is the old one or
the complete new one, and no other file than the temporary one is touched.\<close>

theorem save_atomic:
  assumes "writeSnapshotFile io path sc snap fs0 = (r, tr)"
    and "io_tmp io \<noteq> path"
    and "f \<in> set tr"
  shows "(f path = fs0 path \<or> f path = Some (file_of (payload sc snap))) \<and>
    (\<forall>p. p \<noteq> path \<longrightarrow> p \<noteq> io_tmp io \<longrightarrow> f p = fs0 p)"
  using write_states [OF assms] by blast

theorem save_atomic_witness:
  "(last (snd failed1) ''t.snap'' = Some [7] \<or> last (snd failed1) ''t.snap'' = Some (file_of (payload sc0 (emptySnapshot sc0)))) \<and>
    last (snd failed1) ''other'' = None"
  using save_atomic [of io1 "''t.snap''" sc0 "emptySnapshot sc0" "[''t.snap'' \<mapsto> [7]]" "fst failed1" "snd failed1" "last (snd failed1)"]
  by (simp add: failed1_def [symmetric] failed1_nonempty tmp1)

text \<open>C21: A save succeeds exactly when every call of the operating system does, and then the path holds the
snapshot and the temporary name is gone; otherwise the path is as before and, if the name was fresh
and removing it works, so is everything else.\<close>

theorem save_result:
  assumes "io_tmp io \<noteq> path"
    and "fs0 (io_tmp io) = None"
    and "io_remove io"
  shows "(fst (writeSnapshotFile io path sc snap fs0) = None \<longleftrightarrow> io_ok io) \<and>
    last (snd (writeSnapshotFile io path sc snap fs0)) =
      (if io_ok io then fs0(path \<mapsto> file_of (payload sc snap)) else fs0)"
  using assms by (rule save_outcome)

theorem save_result_witness:
  "(fst (writeSnapshotFile io1 ''t.snap'' sc0 (emptySnapshot sc0) [''t.snap'' \<mapsto> [7]]) = None \<longleftrightarrow> io_ok io1) \<and>
    last (snd (writeSnapshotFile io1 ''t.snap'' sc0 (emptySnapshot sc0) [''t.snap'' \<mapsto> [7]])) =
      (if io_ok io1 then [''t.snap'' \<mapsto> [7]](''t.snap'' \<mapsto> file_of (payload sc0 (emptySnapshot sc0))) else [''t.snap'' \<mapsto> [7]])"
  by (rule save_result) (simp_all add: io1_def io0_def)


text \<open>C23: In every interleaving of the host, the compactor and its saves with crashes at any moment, also in
the middle of a save, the store is well-formed, the file at the snapshot path is absent or a complete
snapshot, and so loading it never fails as invalid and leaves a well-formed store. That file is the
one of the start or holds a base that the store had at some moment in between.\<close>

theorem system_invariant:
  assumes "sys_reach srt c y y1"
    and "sorter srt"
    and "sys_ok c y"
  shows "sys_ok c y1 \<and> (\<forall>t. store_ok (snd (LoadSnapshot (y_store y1) t (y_fs y1 (SnapshotPath (co_cfg c))))) \<and>
      fst (LoadSnapshot (y_store y1) t (y_fs y1 (SnapshotPath (co_cfg c)))) \<noteq> Some ErrSnapshotFormat) \<and>
    (y_fs y1 (SnapshotPath (co_cfg c)) = y_fs y (SnapshotPath (co_cfg c)) \<or>
     (\<exists>y2. sys_reach srt c y y2 \<and> sys_reach srt c y2 y1 \<and>
        y_fs y1 (SnapshotPath (co_cfg c)) = Some (file_of (payload (sto_sc (y_store y2)) (v_base (sto_view (y_store y2)))))))"
  using sys_reach_ok [OF assms] load_good sys_reach_file [OF assms(1)] by (metis (no_types, lifting) sys_ok_def)

theorem system_invariant_witness:
  "sys_ok compactor0 sys2 \<and> (\<forall>t. store_ok (snd (LoadSnapshot (y_store sys2) t (y_fs sys2 (SnapshotPath (co_cfg compactor0))))) \<and>
      fst (LoadSnapshot (y_store sys2) t (y_fs sys2 (SnapshotPath (co_cfg compactor0)))) \<noteq> Some ErrSnapshotFormat) \<and>
    (y_fs sys2 (SnapshotPath (co_cfg compactor0)) = y_fs sys0 (SnapshotPath (co_cfg compactor0)) \<or>
     (\<exists>y2. sys_reach srt0 compactor0 sys0 y2 \<and> sys_reach srt0 compactor0 y2 sys2 \<and>
        y_fs sys2 (SnapshotPath (co_cfg compactor0)) = Some (file_of (payload (sto_sc (y_store y2)) (v_base (sto_view (y_store y2)))))))"
  by (rule system_invariant [OF sys_steps srt0 sys0_ok])

text \<open>C24: A check tick that is due, because the delta has reached the absolute cap, either empties the delta
and counts a compaction, or counts a failure and leaves the view and the files as they were; while
the row cap blocks, the tick does nothing.\<close>

theorem tick_progress:
  assumes "runOnce srt c (CheckTick en) (s, f) = Some (s1, f1)"
    and "MaxDeltaRows (co_cfg c) > 0"
    and "int (DeltaRows s) \<ge> MaxDeltaRows (co_cfg c)"
  shows "if sto_capBlocked s then s1 = s \<and> f1 = f
    else DeltaRows s1 = 0 \<and> compactions (sto_st s1) = compactions (sto_st s) + 1 \<or>
      sto_view s1 = sto_view s \<and> compactionFailures (sto_st s1) = compactionFailures (sto_st s) + 1 \<and> f1 = f"
  using assms compactAndSave_outcome [of srt c en s f s1 f1]
  by (auto simp: runOnce_def checkDue_def isCapBlocked_def capHit_def)

theorem tick_progress_witness:
  "if sto_capBlocked store1 then (fst ticked1) = store1 \<and> (snd ticked1) = Map.empty
    else DeltaRows (fst ticked1) = 0 \<and> compactions (sto_st (fst ticked1)) = compactions (sto_st store1) + 1 \<or>
      sto_view (fst ticked1) = sto_view store1 \<and> compactionFailures (sto_st (fst ticked1)) = compactionFailures (sto_st store1) + 1 \<and> (snd ticked1) = Map.empty"
  by (rule tick_progress [of srt0 compactor0 env0]) (simp_all add: ticked1_def runOnce_def tick_rows check_due1)

section \<open>Planning and matching\<close>

text \<open>C25: \<open>view.plan\<close>, expansion of IN conditions included, always returns; it fails only with the error of one
of its conditions and never by exceeding a pool. Its plan matches exactly the rows that satisfy the
group, in the base and in the delta, its intervals hold every such base row, and it leaves the
interval slots that are reserved for the groups after it.\<close>

theorem plan_correct:
  assumes "view_ok sc v"
    and "cond_room g qs"
    and "length (q_ivs qs) + 1 + reserve \<le> k_ivs (q_caps qs)"
    and "length (q_condIDs qs) = length (q_condDims qs)"
  shows "\<exists>res. plan sc v g qs reserve = Some res \<and>
    (case res of
       Inl e \<Rightarrow> \<exists>c \<in> set g. cond_err sc c = Some e
     | Inr (p, qs1) \<Rightarrow> \<exists>E. q_ivs qs1 = q_ivs qs @ E \<and> length (q_ivs qs1) + reserve \<le> k_ivs (q_caps qs) \<and>
         (\<forall>r < srows (v_base v). hitBase qs1 v r p \<longleftrightarrow> base_sat sc v g r) \<and>
         (\<forall>r < srows (v_base v). base_sat sc v g r \<longrightarrow> (\<exists>x \<in> set E. fst x \<le> r \<and> r < snd x)) \<and>
         (\<forall>r < drows (v_delta v). hitDelta qs1 v r p \<longleftrightarrow> delta_sat sc v g r))"
  using assms by (rule plan_matches)

theorem plan_correct_witness:
  "\<exists>res. plan sc0 (sto_view store2) g1 (routeScratch pool0 [g1] 0) 0 = Some res \<and>
    (case res of
       Inl e \<Rightarrow> \<exists>c \<in> set g1. cond_err sc0 c = Some e
     | Inr (p, qs1) \<Rightarrow> \<exists>E. q_ivs qs1 = q_ivs (routeScratch pool0 [g1] 0) @ E \<and> length (q_ivs qs1) + 0 \<le> k_ivs (q_caps (routeScratch pool0 [g1] 0)) \<and>
         (\<forall>r < srows (v_base (sto_view store2)). hitBase qs1 (sto_view store2) r p \<longleftrightarrow> base_sat sc0 (sto_view store2) g1 r) \<and>
         (\<forall>r < srows (v_base (sto_view store2)). base_sat sc0 (sto_view store2) g1 r \<longrightarrow> (\<exists>x \<in> set E. fst x \<le> r \<and> r < snd x)) \<and>
         (\<forall>r < drows (v_delta (sto_view store2)). hitDelta qs1 (sto_view store2) r p \<longleftrightarrow> delta_sat sc0 (sto_view store2) g1 r))"
  by (rule plan_correct [OF view2_ok scratch_g1])

text \<open>C26: The odometer of \<open>planExpand\<close> stops after one turn per combination of candidates: the fuel of the
model is never short. It emits exactly the non-empty key intervals of all combinations, and the
plan's hull covers them.\<close>

theorem expansion:
  assumes "\<forall>d < k. 0 < radix eq cand d"
    and "k \<le> maxDims"
    and "length (q_ivs qs) + odoSize eq cand k \<le> k_ivs (q_caps qs)"
  shows "\<exists>p1 E. expandLoop (odoSize eq cand k) base eq cand k (replicate maxDims 0) p qs =
      Some (Inr (p1, qs\<lparr>q_ivs := q_ivs qs @ E\<rparr>)) \<and> hull_of p p1 E \<and> length E \<le> odoSize eq cand k \<and>
    (\<forall>x. x \<in> set E \<longleftrightarrow> fst x < snd x \<and>
      (\<exists>i. odo_ok eq cand k i \<and> x = keyInterval base (comboIds qs eq cand k i)))"
  using assms by (rule expandLoop_all)

theorem expansion_witness:
  "\<exists>p1 E. expandLoop (odoSize [None] [(0, 2)] 1) (v_base (sto_view store2)) [None] [(0, 2)] 1 (replicate maxDims 0) freshPlan scratch0 =
      Some (Inr (p1, scratch0\<lparr>q_ivs := q_ivs scratch0 @ E\<rparr>)) \<and> hull_of freshPlan p1 E \<and> length E \<le> odoSize [None] [(0, 2)] 1 \<and>
    (\<forall>x. x \<in> set E \<longleftrightarrow> fst x < snd x \<and>
      (\<exists>i. odo_ok [None] [(0, 2)] 1 i \<and> x = keyInterval (v_base (sto_view store2)) (comboIds scratch0 [None] [(0, 2)] 1 i)))"
  by (rule expansion) (simp_all add: radix_def maxDims_def scratch0_def fast_def emptyScratch_def fastCaps_def fastIvs_def fastGroups_def)

text \<open>C27: The row interval that the two searches over the packed keys give for a prefix of ids holds exactly
the base rows whose leading ids are that prefix.\<close>

theorem key_interval:
  assumes "snap_ok sc s"
    and "0 < length ks"
    and "length ks \<le> idx_dims sc"
    and "\<And>d. d < length ks \<Longrightarrow> unat (ks ! d) < dlen (s_dicts s ! d)"
    and "r < srows s"
  shows "fst (keyInterval s ks) \<le> r \<and> r < snd (keyInterval s ks) \<longleftrightarrow> take (length ks) (row_of (s_dims s) r) = ks"
  using keyInterval_rows(3) [OF assms(1-4) assms(5)] .

theorem key_interval_witness:
  "fst (keyInterval (v_base (sto_view store2)) [1 :: u32]) \<le> (1 :: nat) \<and> (1 :: nat) < snd (keyInterval (v_base (sto_view store2)) [1 :: u32]) \<longleftrightarrow> take (length [1 :: u32]) (row_of (s_dims (v_base (sto_view store2))) (1 :: nat)) = [1 :: u32]"
  by (rule key_interval [OF snap2_ok]) (simp_all add: snap2_facts snap2_dict sc0_idx)

text \<open>C28: What \<open>planGroups\<close> answers is determined by the plans of its groups (\<open>plan_answer\<close>, from the result of
\<open>planLoop\<close>): an error of a group is passed on; otherwise it refuses, and counts the refusal, exactly
when the rows that a sweep over the planned intervals and the delta looks at, each once, exceed a
positive \<open>MaxScanRows\<close>; otherwise it returns the planned workspace with the same intervals sorted.
They are non-empty, within the base and cover the rows of the plans.\<close>

theorem scan_budget:
  assumes "view_ok (sto_sc s) v"
    and "plan_room gs qs"
    and "sorter srt"
  shows "\<exists>res s1. planGroups srt s v gs qs = Some (res, s1) \<and> plan_answer s v gs qs res s1"
  using planGroups_answer [OF assms] by blast

theorem scan_budget_witness:
  "\<exists>res s1. planGroups isrt0 store2 (sto_view store2) gs0 (routeScratch pool0 gs0 0) = Some (res, s1) \<and> plan_answer store2 (sto_view store2) gs0 (routeScratch pool0 gs0 0) res s1"
  by (rule scan_budget [OF store_okD(1) [OF store2_ok] room_gs0 isrt0])

text \<open>C29: The sweep with its high-water mark visits every base row that lies in some interval exactly once, in
ascending order, however the intervals overlap, and \<open>planGroups\<close> counts the same rows.\<close>

theorem sweep_once:
  assumes "by_lo xs"
    and "\<forall>x \<in> set xs. fst x < snd x \<and> snd x \<le> N"
  shows "sweepBase qs v be now f xs 0 acc = fold (sweepRow qs v be now f) (filter (in_ivs xs) [0..<N]) acc \<and>
    scanCount xs 0 n = n + length (filter (in_ivs xs) [0..<N])"
  using assms by (intro conjI sweepBase_rows scanCount_rows)

theorem sweep_once_witness:
  "sweepBase scratch0 (sto_view store2) False 0 (\<lambda>r acc. acc @ [r]) [(0, 2), (1, 3)] 0 [] =
      fold (sweepRow scratch0 (sto_view store2) False 0 (\<lambda>r acc. acc @ [r])) (filter (in_ivs [(0, 2), (1, 3)]) [0..<5]) [] \<and>
    scanCount [(0, 2), (1, 3)] 0 0 = 0 + length (filter (in_ivs [(0, 2), (1, 3)]) [0..<5])"
  using sweep_once [of "[(0, 2), (1, 3)]" 5 scratch0 "sto_view store2" False 0 "\<lambda>r acc. acc @ [r]" "[]" 0] by simp

text \<open>C30: The shortcuts of \<open>queryClock\<close> (no reading without expiring rows, no column reads while the earliest
expiry is ahead) drop exactly the rows that have expired at the reading of the clock.\<close>

theorem expiry_clock:
  assumes "view_ok sc v"
    and "queryClock v t = (be, de, now)"
  shows "(\<forall>r < srows (v_base v). (be \<and> s_expire (v_base v) ! r \<noteq> 0 \<and> s_expire (v_base v) ! r \<le> now) =
       rowExpired (s_expire (v_base v) ! r) (unix_milli t)) \<and>
    (\<forall>r < drows (v_delta v). (de \<and> d_expire (v_delta v) ! r \<noteq> 0 \<and> d_expire (v_delta v) ! r \<le> now) =
       rowExpired (d_expire (v_delta v) ! r) (unix_milli t))"
  using clock_base [OF view_okD(1) [OF assms(1)] _ assms(2)] clock_delta [OF assms(1) _ assms(2)] by blast

theorem expiry_clock_witness:
  "case queryClock (sto_view store1) 5 of (be, de, now) \<Rightarrow>
      (de \<and> d_expire (v_delta (sto_view store1)) ! 1 \<noteq> 0 \<and> d_expire (v_delta (sto_view store1)) ! 1 \<le> now) =
      rowExpired (d_expire (v_delta (sto_view store1)) ! 1) (unix_milli 5)"
  using expiry_clock [OF view1_ok, of 5] tick_rows(1) by (simp add: DeltaRows_def split: prod.splits)

text \<open>C31: Whichever workspace the routing picks, and whatever capacities the pooled one comes with, it has room
for every condition, plan, interval and column of the query: no reslice can exceed its capacity.\<close>

theorem route_room:
  "plan_room gs (routeScratch pool gs n) \<and> agg_room n (routeScratch pool gs n)"
  by (rule routeScratch_room)

section \<open>Views, snapshots and dictionaries\<close>

text \<open>C32: \<open>findRow\<close>, the binary search on the packed prefix and the walk over the equal keys, returns the row of
a tuple of ids exactly when the base holds it.\<close>

theorem find_row:
  assumes "snap_ok sc s"
    and "length ks = ndims sc"
  shows "findRow s ks = Some r \<longleftrightarrow> r < srows s \<and> row_of (s_dims s) r = ks"
  using assms by (rule findRow_iff)

theorem find_row_witness:
  "findRow (v_base (sto_view store2)) [1, 1] = Some 1 \<longleftrightarrow> 1 < srows (v_base (sto_view store2)) \<and> row_of (s_dims (v_base (sto_view store2))) 1 = [1, 1]"
  by (rule find_row [OF snap2_ok]) (simp add: sc0_def)

text \<open>C33: The packed key orders rows as the lexicographic order of their leading ids does, and determines those
ids, whenever \<open>computeShifts\<close> accepts the cardinalities.\<close>

theorem packed_order:
  assumes "computeShifts cards k = Inr ss"
    and "ids_within cards k xs"
    and "ids_within cards k ys"
  shows "(packKey ss xs \<le> packKey ss ys) = lexle (map unat xs) (map unat ys) \<and> (packKey ss xs = packKey ss ys \<longrightarrow> xs = ys)"
  using packKey_le [OF assms] packKey_inj [OF assms] by blast

theorem packed_order_witness:
  "(packKey [3, 0] [2, 5] \<le> packKey [3, 0] [3, 0]) = lexle (map unat [2 :: u32, 5]) (map unat [3 :: u32, 0])"
  using packed_order [OF shifts48 ids48] by simp

text \<open>C34: \<open>mergeView\<close> without renumbering gives a well-formed base that holds exactly the surviving rows and in
which every id keeps its value, and fails only where the dictionaries overflow the key.\<close>

theorem merge_stable:
  assumes "view_ok sc v"
    and "sorter srt"
  shows "case mergeView srt sc v ttl now False of
      Inl e \<Rightarrow> e = ErrKeyOverflow \<and> 64 < sum_list (key_widths (map length (view_vals v)) (idx_dims sc))
    | Inr s \<Rightarrow> view_ok sc (newView s) \<and> abs_view (newView s) = survivors ttl now (abs_view v) \<and>
        snap_vals s = view_vals v \<and> srows s = length (live_rows v ttl now)"
  using assms by (rule mergeView_stable)

theorem merge_stable_witness:
  "case mergeView srt0 sc0 (sto_view store1) 0 9 False of
      Inl e \<Rightarrow> e = ErrKeyOverflow \<and> 64 < sum_list (key_widths (map length (view_vals (sto_view store1))) (idx_dims sc0))
    | Inr s \<Rightarrow> view_ok sc0 (newView s) \<and> abs_view (newView s) = survivors 0 9 (abs_view (sto_view store1)) \<and>
        snap_vals s = view_vals (sto_view store1) \<and> srows s = length (live_rows (sto_view store1) 0 9)"
  by (rule merge_stable [OF view1_ok srt0])

text \<open>C35: \<open>mergeView\<close> with renumbering gives a well-formed base with exactly the surviving rows, its dictionaries
hold exactly the values of those rows, and it fails only where these values overflow the key.\<close>

theorem merge_renumber:
  assumes "view_ok sc v"
    and "sorter srt"
  shows "case mergeView srt sc v ttl now True of
      Inl e \<Rightarrow> e = ErrKeyOverflow \<and>
        64 < sum_list (key_widths (map (\<lambda>d. card (live_vals ttl now (abs_view v) d)) [0..<ndims sc]) (idx_dims sc))
    | Inr s \<Rightarrow> view_ok sc (newView s) \<and> abs_view (newView s) = survivors ttl now (abs_view v) \<and>
        (\<forall>d < ndims sc. set (snap_vals s ! d) = live_vals ttl now (abs_view v) d) \<and>
        srows s = length (live_rows v ttl now)"
  using mergeView_renumber [OF assms, of ttl now] by (auto split: sum.splits)

theorem merge_renumber_witness:
  "case mergeView srt0 sc0 (sto_view store1) 0 9 True of
      Inl e \<Rightarrow> e = ErrKeyOverflow \<and>
        64 < sum_list (key_widths (map (\<lambda>d. card (live_vals 0 9 (abs_view (sto_view store1)) d)) [0..<ndims sc0]) (idx_dims sc0))
    | Inr s \<Rightarrow> view_ok sc0 (newView s) \<and> abs_view (newView s) = survivors 0 9 (abs_view (sto_view store1)) \<and>
        (\<forall>d < ndims sc0. set (snap_vals s ! d) = live_vals 0 9 (abs_view (sto_view store1)) d) \<and>
        srows s = length (live_rows (sto_view store1) 0 9)"
  by (rule merge_renumber [OF view1_ok srt0])

text \<open>C36: Interning a spelling in a string dictionary returns an id at which the dictionary holds it, adds at
most that one entry and moves no other, below \<open>2 ^ 32\<close> entries.\<close>

theorem intern:
  assumes "dict_ok d"
    and "\<not> numeric d"
    and "dlen d < 2 ^ 32"
    and "getOrAdd d x = (i, d1)"
  shows "dict_ok d1 \<and> lookup d1 x = Some i \<and> dict_str d1 i = x \<and>
    (dict_vals d1 = dict_vals d \<or> dict_vals d1 = dict_vals d @ [VStr x])"
  by (rule getOrAdd_str [OF assms])

theorem intern_witness:
  "dict_ok (snd (getOrAdd (newDict False) ''a'')) \<and> lookup (snd (getOrAdd (newDict False) ''a'')) ''a'' = Some (fst (getOrAdd (newDict False) ''a'')) \<and> dict_str (snd (getOrAdd (newDict False) ''a'')) (fst (getOrAdd (newDict False) ''a'')) = ''a'' \<and>
    (dict_vals (snd (getOrAdd (newDict False) ''a'')) = dict_vals (newDict False) \<or> dict_vals (snd (getOrAdd (newDict False) ''a'')) = dict_vals (newDict False) @ [VStr ''a''])"
  by (rule intern [of "newDict False"]) simp_all

text \<open>C37: What \<open>dimString\<close> renders for an id of the combined space denotes exactly the value of that id: for
integer dimensions, parsing the decimal rendering gives the integer back.\<close>

theorem dim_string:
  assumes "view_ok sc v"
    and "d < ndims sc"
    and "unat i < length (view_vals v ! d)"
  shows "canon (isInt sc d) (dimString v d i) = Some (view_vals v ! d ! unat i)"
  by (rule dimString_canon [OF assms])

theorem dim_string_witness:
  "canon (isInt sc0 1) (dimString (sto_view store1) 1 (1 :: u32)) = Some (view_vals (sto_view store1) ! 1 ! unat (1 :: u32))"
  by (rule dim_string [OF view1_ok]) (simp_all only: sc0_ndims view1_card, simp_all)

text \<open>C38: \<open>Schema.validate\<close> accepts exactly the well-formed schemas, and on those \<open>New\<close> gives a well-formed
store with an empty table.\<close>

theorem schema_validate:
  "(validate sc = None \<longleftrightarrow>
      0 < ndims sc \<and> ndims sc \<le> 16 \<and> 1 \<le> IndexDims sc \<and> IndexDims sc \<le> int (ndims sc) \<and> Metrics sc \<noteq> [] \<and>
      distinct (map dimName (Dims sc)) \<and> [] \<notin> set (map dimName (Dims sc)) \<and>
      (\<forall>d \<in> set (Dims sc). dimType d \<in> {DimString, DimInt}) \<and> distinct (Metrics sc) \<and> [] \<notin> set (Metrics sc)) \<and>
    (case New sc cfg of Inl e \<Rightarrow> validate sc = Some e
     | Inr s \<Rightarrow> validate sc = None \<and> store_ok s \<and> sto_sc s = sc \<and> sto_cfg s = cfg \<and> table s = Map.empty)"
  using validate_None [of sc] New_ok [of sc cfg] by (auto simp: schema_ok_def New_def split: option.splits)

theorem schema_validate_witness:
  "(validate sc0 = None \<longleftrightarrow>
      0 < ndims sc0 \<and> ndims sc0 \<le> 16 \<and> 1 \<le> IndexDims sc0 \<and> IndexDims sc0 \<le> int (ndims sc0) \<and> Metrics sc0 \<noteq> [] \<and>
      distinct (map dimName (Dims sc0)) \<and> [] \<notin> set (map dimName (Dims sc0)) \<and>
      (\<forall>d \<in> set (Dims sc0). dimType d \<in> {DimString, DimInt}) \<and> distinct (Metrics sc0) \<and> [] \<notin> set (Metrics sc0)) \<and>
    (case New sc0 cfg0 of Inl e \<Rightarrow> validate sc0 = Some e
     | Inr s \<Rightarrow> validate sc0 = None \<and> store_ok s \<and> sto_sc s = sc0 \<and> sto_cfg s = cfg0 \<and> table s = Map.empty)"
  using schema_validate [of sc0 cfg0] .

section \<open>Where the code departs from its documents\<close>

text \<open>C39: The column of a \<open>dkey\<close> is a \<open>uint8\<close>: a distinct column 256 after another one over the same
dimension finds the keys of that one already there, and so counts nothing.\<close>

theorem distinct_wrap:
  assumes "0 \<le> ddims ! j"
    and "ddims ! (j + 256) = ddims ! j"
  shows "updCol aggs mets ddims g dimID met (j + 256) (updCol aggs mets ddims g dimID met j st) =
    updCol aggs mets ddims g dimID met j st"
  using assms by (rule updCol_collides)

theorem distinct_wrap_witness:
  "updCol aggs0 (replicate 257 (- 1)) (replicate 257 0) (0 :: nat) (\<lambda>d. 7) (\<lambda>m. 0) (0 + 256) (updCol aggs0 (replicate 257 (- 1)) (replicate 257 0) (0 :: nat) (\<lambda>d. 7) (\<lambda>m. 0) 0 ({}, replicate 257 0)) =
    updCol aggs0 (replicate 257 (- 1)) (replicate 257 0) (0 :: nat) (\<lambda>d. 7) (\<lambda>m. 0) 0 ({}, replicate 257 0)"
  by (rule distinct_wrap) simp_all

text \<open>C40: A cutoff of 0 stands for no TTL, but it is still compared with: a record whose \<open>UpdatedAt\<close> is
before 1970, the zero time included, is dropped without an error and without being counted.\<close>

theorem dropped_before_1970:
  assumes "store_ok s"
    and "room (sto_sc s) (sto_view s) 1"
    and "TTL (sto_cfg s) \<le> 0"
    and "length (rDims rc) = ndims (sto_sc s)"
    and "length (rMetrics rc) = nmets (sto_sc s)"
    and "unix_milli (UpdatedAt rc) < 0"
  shows "fst (Apply s [rc] t) = None \<and> table (snd (Apply s [rc] t)) = table s \<and>
    droppedOverCap (sto_st (snd (Apply s [rc] t))) = droppedOverCap (sto_st s)"
  using assms by (rule Apply_before_1970)

theorem dropped_before_1970_witness:
  "fst (Apply store1 [rec1] 5) = None \<and> table (snd (Apply store1 [rec1] 5)) = table store1 \<and>
    droppedOverCap (sto_st (snd (Apply store1 [rec1] 5))) = droppedOverCap (sto_st store1)"
  by (rule dropped_before_1970 [OF store1_ok room1 store1_ttl]) (simp_all add: store1_sc rec1_facts)

end
